(* ===== verification/Prelude.thy ===== *)
theory Prelude
  imports Main "HOL-Library.AList" "HOL-Library.Word"
begin

text \<open>
  Shared vocabulary of the development: a result type for code that may raise, the loop
  combinators over it, ordered dictionaries as association lists, and splitting and
  joining of strings. Nothing here is specific to the broker.
\<close>

named_theorems res_simps
named_theorems const_defs

section \<open>Results of code that may raise\<close>

text \<open>
  A Python expression that may raise is a value of a sum type: \<open>Inl e\<close> for the raised
  exception \<open>e\<close>, \<open>Inr v\<close> for its value. \<open>bindR\<close> is sequencing.
\<close>

fun bindR :: "'e + 'a \<Rightarrow> ('a \<Rightarrow> 'e + 'b) \<Rightarrow> 'e + 'b" where
  "bindR (Inl e) f = Inl e"
| "bindR (Inr x) f = f x"

fun mapR :: "('a \<Rightarrow> 'e + 'b) \<Rightarrow> 'a list \<Rightarrow> 'e + 'b list" where
  "mapR f [] = Inr []"
| "mapR f (x # xs) = bindR (f x) (\<lambda>y. bindR (mapR f xs) (\<lambda>ys. Inr (y # ys)))"

text \<open>\<open>concat_mapR\<close> is the loop \<open>for x in xs: result.extend(f(x))\<close>.\<close>

fun concat_mapR :: "('a \<Rightarrow> 'e + 'b list) \<Rightarrow> 'a list \<Rightarrow> 'e + 'b list" where
  "concat_mapR f [] = Inr []"
| "concat_mapR f (x # xs) =
     bindR (f x) (\<lambda>ys. bindR (concat_mapR f xs) (\<lambda>zs. Inr (ys @ zs)))"

text \<open>\<open>foldR\<close> is a loop that updates a value and stops at the first exception.\<close>

fun foldR :: "('s \<Rightarrow> 'a \<Rightarrow> 'e + 's) \<Rightarrow> 's \<Rightarrow> 'a list \<Rightarrow> 'e + 's" where
  "foldR f s [] = Inr s"
| "foldR f s (x # xs) = bindR (f s x) (\<lambda>s'. foldR f s' xs)"

lemma bindR_cong [fundef_cong]:
  "m = m' \<Longrightarrow> (\<And>x. m' = Inr x \<Longrightarrow> f x = g x) \<Longrightarrow> bindR m f = bindR m' g"
  by (cases m') auto

lemma mapR_cong [fundef_cong]:
  "xs = ys \<Longrightarrow> (\<And>x. x \<in> set ys \<Longrightarrow> f x = g x) \<Longrightarrow> mapR f xs = mapR g ys"
  by (induction ys arbitrary: xs) (auto intro!: bindR_cong)

lemma concat_mapR_cong [fundef_cong]:
  "xs = ys \<Longrightarrow> (\<And>x. x \<in> set ys \<Longrightarrow> f x = g x) \<Longrightarrow> concat_mapR f xs = concat_mapR g ys"
  by (induction ys arbitrary: xs) (auto intro!: bindR_cong)

lemma bindR_Inr_iff [res_simps]: "bindR m f = Inr y \<longleftrightarrow> (\<exists>x. m = Inr x \<and> f x = Inr y)"
  by (cases m) auto

lemma bindR_Inl_iff [res_simps]:
  "bindR m f = Inl e \<longleftrightarrow> m = Inl e \<or> (\<exists>x. m = Inr x \<and> f x = Inl e)"
  by (cases m) auto

lemma bindR_Inr_right [simp]: "bindR m Inr = m"
  by (cases m) auto

lemma bindR_assoc: "bindR (bindR m f) g = bindR m (\<lambda>x. bindR (f x) g)"
  by (cases m) auto

lemma mapR_Inr [simp]: "mapR (\<lambda>x. Inr (f x)) xs = Inr (map f xs)"
  by (induction xs) auto

lemma mapR_all_Inr: "(\<And>x. x \<in> set xs \<Longrightarrow> f x = Inr (g x)) \<Longrightarrow> mapR f xs = Inr (map g xs)"
  by (induction xs) auto

lemma concat_mapR_Inr [simp]: "concat_mapR (\<lambda>x. Inr (f x)) xs = Inr (concat (map f xs))"
  by (induction xs) auto

lemma concat_mapR_all_Inr:
  "(\<And>x. x \<in> set xs \<Longrightarrow> f x = Inr (g x)) \<Longrightarrow> concat_mapR f xs = Inr (concat (map g xs))"
  by (induction xs) auto

lemma concat_mapR_InrD:
  "concat_mapR f xs = Inr ys \<Longrightarrow> x \<in> set xs \<Longrightarrow> \<exists>zs. f x = Inr zs \<and> set zs \<subseteq> set ys"
  by (induction xs arbitrary: ys) (auto simp: res_simps, blast)

lemma concat_mapR_memD:
  "concat_mapR f xs = Inr ys \<Longrightarrow> y \<in> set ys \<Longrightarrow> \<exists>x\<in>set xs. \<exists>zs. f x = Inr zs \<and> y \<in> set zs"
  by (induction xs arbitrary: ys) (auto simp: res_simps)

lemma concat_mapR_InlD: "concat_mapR f xs = Inl e \<Longrightarrow> \<exists>x\<in>set xs. f x = Inl e"
  by (induction xs) (auto simp: res_simps)

lemma mapR_append: "mapR f (xs @ ys) = bindR (mapR f xs) (\<lambda>a. bindR (mapR f ys) (\<lambda>b. Inr (a @ b)))"
  by (induction xs) (auto simp: bindR_assoc)

lemma foldR_append: "foldR f s (xs @ ys) = bindR (foldR f s xs) (\<lambda>s'. foldR f s' ys)"
  by (induction xs arbitrary: s) (auto simp: bindR_assoc)

section \<open>Ordered dictionaries\<close>

text \<open>
  A Python dict keeps insertion order: storing under a present key keeps its place, a new
  key goes last, \<open>pop\<close> removes the entry. These are \<^const>\<open>AList.update\<close> and
  \<^const>\<open>AList.delete\<close> on an association list with distinct keys.
\<close>

abbreviation dkeys :: "('k \<times> 'v) list \<Rightarrow> 'k list" where
  "dkeys kvs \<equiv> List.map fst kvs"

lemma map_of_update [simp]: "map_of (AList.update k v kvs) = (map_of kvs)(k \<mapsto> v)"
  by (rule AList.update_conv')

lemma map_of_delete [simp]: "map_of (AList.delete k kvs) = (map_of kvs)(k := None)"
  by (rule AList.delete_conv')

lemma distinct_update [simp]: "distinct (dkeys kvs) \<Longrightarrow> distinct (dkeys (AList.update k v kvs))"
  by (rule AList.distinct_update)

lemma distinct_delete [simp]: "distinct (dkeys kvs) \<Longrightarrow> distinct (dkeys (AList.delete k kvs))"
  by (rule AList.distinct_delete)

lemma update_idem: "map_of kvs k = Some v \<Longrightarrow> AList.update k v kvs = kvs"
  by (induction kvs) auto

lemma update_twice [simp]: "AList.update k v (AList.update k w kvs) = AList.update k v kvs"
  by (induction kvs) auto

lemma update_not_Nil [simp]: "AList.update k v kvs \<noteq> []"
  by (cases kvs) auto

lemma update_new: "k \<notin> set (dkeys kvs) \<Longrightarrow> AList.update k v kvs = kvs @ [(k, v)]"
  by (induction kvs) auto

lemma map_of_in_set: "map_of kvs k = Some v \<Longrightarrow> (k, v) \<in> set kvs"
  by (rule map_of_SomeD)

lemma set_update_subset: "set (AList.update k v kvs) \<subseteq> insert (k, v) (set kvs)"
  by (induction kvs) auto

lemma delete_Nil_iff: "AList.delete k kvs = [] \<longleftrightarrow> (\<forall>x\<in>set kvs. fst x = k)"
  by (auto simp: AList.delete_eq filter_empty_conv)

lemma map_of_Nil_ex: "kvs \<noteq> [] \<Longrightarrow> \<exists>k v. map_of kvs k = Some v"
  by (cases kvs) auto

text \<open>
  The loop \<open>for key, val in d.items(): ... result[key] = w\<close> that builds a dict: \<open>f\<close> answers
  what to store under the key, if anything. The keys of \<open>d\<close> are distinct, so each store
  appends.
\<close>

fun dict_mapR :: "('k \<Rightarrow> 'v \<Rightarrow> 'e + 'w option) \<Rightarrow> ('k \<times> 'v) list \<Rightarrow> 'e + ('k \<times> 'w) list" where
  "dict_mapR f [] = Inr []"
| "dict_mapR f ((k, v) # kvs) =
     bindR (f k v) (\<lambda>w. bindR (dict_mapR f kvs) (\<lambda>r.
       Inr (case w of None \<Rightarrow> r | Some w' \<Rightarrow> (k, w') # r)))"

lemma dict_mapR_cong [fundef_cong]:
  "xs = ys \<Longrightarrow> (\<And>k v. (k, v) \<in> set ys \<Longrightarrow> f k v = g k v) \<Longrightarrow> dict_mapR f xs = dict_mapR g ys"
  by (induction ys arbitrary: xs) (auto intro!: bindR_cong)

lemma dict_mapR_keys: "dict_mapR f kvs = Inr r \<Longrightarrow> set (dkeys r) \<subseteq> set (dkeys kvs)"
  by (induction f kvs arbitrary: r rule: dict_mapR.induct)
     (fastforce simp: res_simps split: option.splits)+

lemma dict_mapR_distinct:
  "dict_mapR f kvs = Inr r \<Longrightarrow> distinct (dkeys kvs) \<Longrightarrow> distinct (dkeys r)"
  by (induction f kvs arbitrary: r rule: dict_mapR.induct)
     (fastforce simp: res_simps split: option.splits dest: dict_mapR_keys)+

lemma dict_mapR_lookup:
  "dict_mapR f kvs = Inr r \<Longrightarrow> distinct (dkeys kvs) \<Longrightarrow>
   map_of r k = (case map_of kvs k of None \<Rightarrow> None
                 | Some v \<Rightarrow> (case f k v of Inl e \<Rightarrow> None | Inr w \<Rightarrow> w))"
proof (induction f kvs arbitrary: r rule: dict_mapR.induct)
  case (2 f k' v kvs)
  from "2.prems"(1) obtain w s where w: "f k' v = Inr w" and s: "dict_mapR f kvs = Inr s"
    and r: "r = (case w of None \<Rightarrow> s | Some w' \<Rightarrow> (k', w') # s)"
    by (auto simp: res_simps)
  have IH: "map_of s k = (case map_of kvs k of None \<Rightarrow> None
                 | Some v \<Rightarrow> (case f k v of Inl e \<Rightarrow> None | Inr w \<Rightarrow> w))"
    using "2.IH" [OF w s] "2.prems"(2) by simp
  have "map_of kvs k' = None" using "2.prems"(2) by (simp add: map_of_eq_None_iff)
  then show ?case using IH by (auto simp: r w split: option.splits)
qed simp

lemma dict_mapR_InlD: "dict_mapR f kvs = Inl e \<Longrightarrow> \<exists>k v. (k, v) \<in> set kvs \<and> f k v = Inl e"
  by (induction f kvs rule: dict_mapR.induct) (fastforce simp: res_simps)+

section \<open>Splitting and joining strings\<close>

text \<open>\<open>s.split(c)\<close> for a one-character separator, and \<open>c.join(ws)\<close>.\<close>

fun split_char :: "char \<Rightarrow> string \<Rightarrow> string list" where
  "split_char sep [] = [[]]"
| "split_char sep (c # cs) =
     (if c = sep then [] # split_char sep cs
      else (case split_char sep cs of [] \<Rightarrow> [[c]] | w # ws \<Rightarrow> (c # w) # ws))"

fun join_char :: "char \<Rightarrow> string list \<Rightarrow> string" where
  "join_char sep [] = []"
| "join_char sep [w] = w"
| "join_char sep (w # v # ws) = w @ sep # join_char sep (v # ws)"

lemma split_char_not_Nil [simp]: "split_char sep s \<noteq> []"
  by (cases s) (auto split: list.splits)

lemma join_char_Cons: "ws \<noteq> [] \<Longrightarrow> join_char sep (w # ws) = w @ sep # join_char sep ws"
  by (cases ws) auto

lemma join_split_char [simp]: "join_char sep (split_char sep s) = s"
proof (induction s)
  case (Cons c s)
  obtain w ws where ws: "split_char sep s = w # ws"
    by (cases "split_char sep s") auto
  with Cons show ?case by (cases ws) (auto simp: join_char_Cons)
qed simp

lemma split_char_no_sep: "w \<in> set (split_char sep s) \<Longrightarrow> sep \<notin> set w"
proof (induction s arbitrary: w)
  case (Cons c s)
  obtain v vs where vs: "split_char sep s = v # vs"
    by (cases "split_char sep s") auto
  with Cons show ?case by (fastforce split: if_splits)
qed simp

lemma split_char_word: "sep \<notin> set w \<Longrightarrow> split_char sep w = [w]"
  by (induction w) auto

lemma split_char_append:
  "sep \<notin> set w \<Longrightarrow> split_char sep (w @ sep # s) = w # split_char sep s"
  by (induction w) auto

lemma split_join_char:
  "ws \<noteq> [] \<Longrightarrow> \<forall>w\<in>set ws. sep \<notin> set w \<Longrightarrow> split_char sep (join_char sep ws) = ws"
proof (induction sep ws rule: join_char.induct)
  case (3 sep w v ws)
  then show ?case by (simp add: split_char_append)
qed (auto simp: split_char_word)

lemma split_char_length: "length (split_char sep s) = Suc (count_list s sep)"
  by (induction s) (auto split: list.splits)

section \<open>Collecting over a dictionary\<close>

text \<open>
  Rows gathered from the branches of a dict are distinct when each branch's are and they
  show which branch they came from.
\<close>

lemma distinct_concat_branches:
  "distinct (dkeys kvs) \<Longrightarrow>
   (\<And>k v. (k, v) \<in> set kvs \<Longrightarrow> distinct (List.map h (g (k, v))) \<and> (\<forall>y\<in>set (g (k, v)). kf (h y) = k))
   \<Longrightarrow> distinct (List.map h (concat (List.map g kvs)))"
proof (induction kvs)
  case (Cons a kvs)
  obtain k v where a: "a = (k, v)" by (cases a)
  have "h y \<noteq> h z" if "y \<in> set (g a)" "b \<in> set kvs" "z \<in> set (g b)" for y z b
  proof -
    obtain k' v' where b: "b = (k', v')" by (cases b)
    have "kf (h y) = k" "kf (h z) = k'" using Cons.prems(2) that by (auto simp: a b)
    moreover have "k \<noteq> k'" using Cons.prems(1) that(2) by (force simp: a b)
    ultimately show ?thesis by auto
  qed
  with Cons show ?case by (fastforce simp: a)
qed simp

lemma concat_mapR_projr:
  "(\<And>x. x \<in> set xs \<Longrightarrow> \<exists>y. f x = Inr y) \<Longrightarrow>
   concat_mapR f xs = Inr (concat (List.map (\<lambda>x. projr (f x)) xs))"
  by (rule concat_mapR_all_Inr) fastforce

lemma set_concat_pairs:
  "x \<in> set (concat (List.map h kvs)) \<longleftrightarrow> (\<exists>k v. (k, v) \<in> set kvs \<and> x \<in> set (h (k, v)))"
  by force

lemma map_of_rev_distinct: "distinct (map fst kvs) \<Longrightarrow> map_of (rev kvs) = map_of kvs"
  by (rule map_of_eqI) (auto simp: rev_map [symmetric] map_of_eq_None_iff)

end
