(* ===== verification/Py_Values.thy ===== *)
theory Py_Values
  imports Prelude
begin

text \<open>
  The Python values the broker works on: exceptions, byte strings, text, and the dynamically
  typed objects that travel through retained trees, subscription trees and JSON payloads.
  The helpers at the end are the attribute accesses the code makes on such objects, each
  with the exception Python raises on an object of the wrong type.
\<close>

section \<open>Exceptions\<close>

text \<open>
  The built-in exceptions the modelled code can raise, and the repository's own. \<open>OutsideModel\<close> is
  no exception of the program: two functions answer it for arguments that no code of the program
  passes to them and for which a value of the model could not say what happens.
\<close>

datatype py_error =
    IndexError | KeyError | TypeError | AttributeError | ValueError
  | UnicodeDecodeError | UnicodeEncodeError | StructError | OSError
  | ConnectionError | JSONDecodeError
  | InvalidEverythingCard | DynamicMessageError
  | PacketMismatchError | UnknownPacketError | UnexpectedPacketType
  | TooManyPacketIds | ConnectionClosed | UnknownOperation | CorruptModelError | SyntaxError
  | OutsideModel

section \<open>Bytes and text\<close>

text \<open>
  \<open>bytes\<close> is a list of octets. A Python \<open>str\<close> is represented by the UTF-8 form of its
  code points, one \<^typ>\<open>char\<close> per octet (a lone surrogate, which JSON escapes can produce,
  by its three-octet form). Splitting and joining at an ASCII separator, comparing and
  indexing for an ASCII character do not depend on the choice. \<open>decode\<close> accepts exactly
  the octet strings that are well-formed UTF-8, and so does \<open>encode\<close> (it raises on
  surrogates).
\<close>

type_synonym byte = "8 word"
type_synonym bytes = "byte list"

definition char_byte :: "char \<Rightarrow> byte" where
  "char_byte c = word_of_nat (of_char c)"

definition byte_char :: "byte \<Rightarrow> char" where
  "byte_char b = char_of (unat b)"

lemma byte_char_char_byte [simp]: "byte_char (char_byte c) = c"
  by (simp add: byte_char_def char_byte_def unat_of_nat)

lemma char_byte_byte_char [simp]: "char_byte (byte_char b) = b"
proof -
  have "unat b < 256" using unsigned_less [of b, where ?'a = nat] by simp
  then show ?thesis by (simp add: byte_char_def char_byte_def)
qed

definition raw_bytes :: "string \<Rightarrow> bytes" where
  "raw_bytes s = map char_byte s"

definition raw_str :: "bytes \<Rightarrow> string" where
  "raw_str bs = map byte_char bs"

lemma raw_str_raw_bytes [simp]: "raw_str (raw_bytes s) = s"
  by (simp add: raw_str_def raw_bytes_def comp_def)

lemma raw_bytes_raw_str [simp]: "raw_bytes (raw_str bs) = bs"
  by (simp add: raw_str_def raw_bytes_def comp_def)

lemma length_raw_bytes [simp]: "length (raw_bytes s) = length s"
  by (simp add: raw_bytes_def)

definition cont_byte :: "byte \<Rightarrow> bool" where
  "cont_byte b \<longleftrightarrow> 0x80 \<le> b \<and> b \<le> 0xBF"

fun utf8_valid :: "bytes \<Rightarrow> bool" where
  "utf8_valid [] = True"
| "utf8_valid (b # bs) =
     (if b \<le> 0x7F then utf8_valid bs
      else if 0xC2 \<le> b \<and> b \<le> 0xDF then
        (case bs of c # r \<Rightarrow> cont_byte c \<and> utf8_valid r | _ \<Rightarrow> False)
      else if 0xE0 \<le> b \<and> b \<le> 0xEF then
        (case bs of
           c # d # r \<Rightarrow> cont_byte c \<and> cont_byte d \<and> (b = 0xE0 \<longrightarrow> 0xA0 \<le> c)
             \<and> (b = 0xED \<longrightarrow> c \<le> 0x9F) \<and> utf8_valid r
         | _ \<Rightarrow> False)
      else if 0xF0 \<le> b \<and> b \<le> 0xF4 then
        (case bs of
           c # d # e # r \<Rightarrow> cont_byte c \<and> cont_byte d \<and> cont_byte e
             \<and> (b = 0xF0 \<longrightarrow> 0x90 \<le> c) \<and> (b = 0xF4 \<longrightarrow> c \<le> 0x8F) \<and> utf8_valid r
         | _ \<Rightarrow> False)
      else False)"

definition py_encode :: "string \<Rightarrow> py_error + bytes" where
  "py_encode s = (if utf8_valid (raw_bytes s) then Inr (raw_bytes s) else Inl UnicodeEncodeError)"

definition py_decode :: "bytes \<Rightarrow> py_error + string" where
  "py_decode bs = (if utf8_valid bs then Inr (raw_str bs) else Inl UnicodeDecodeError)"

lemma py_decode_encode: "py_encode s = Inr bs \<longleftrightarrow> py_decode bs = Inr s"
  by (auto simp: py_encode_def py_decode_def split: if_splits)

lemma py_encode_Inr: "py_encode s = Inr bs \<Longrightarrow> bs = raw_bytes s \<and> utf8_valid bs"
  by (auto simp: py_encode_def split: if_splits)

section \<open>Objects\<close>

text \<open>
  \<open>PyRdd\<close> is an instance of the repository's \<open>RecursiveDefaultDict\<close>, \<open>PyDict\<close> a plain
  dict; both keep their items in insertion order. Keys are always text in this program. A
  JSON float is kept by its literal, since the code never computes with one.
\<close>

datatype pyobj =
    PyNone
  | PyBool bool
  | PyInt int
  | PyFloat string
  | PyStr string
  | PyBytes bytes
  | PyList "pyobj list"
  | PyDict "(string \<times> pyobj) list"
  | PyRdd "(string \<times> pyobj) list"

type_synonym pydict = "(string \<times> pyobj) list"

text \<open>\<open>bytes\<close> or \<open>None\<close>, the payload of a message or a row.\<close>

fun obj_of_data :: "bytes option \<Rightarrow> pyobj" where
  "obj_of_data None = PyNone"
| "obj_of_data (Some b) = PyBytes b"

fun py_truthy :: "pyobj \<Rightarrow> bool" where
  "py_truthy PyNone = False"
| "py_truthy (PyBool b) = b"
| "py_truthy (PyInt i) = (i \<noteq> 0)"
| "py_truthy (PyFloat f) = list_ex (\<lambda>d. d \<in> set ''123456789'') (takeWhile (\<lambda>c. c \<notin> set ''eE'') f)"
| "py_truthy (PyStr s) = (s \<noteq> [])"
| "py_truthy (PyBytes b) = (b \<noteq> [])"
| "py_truthy (PyList xs) = (xs \<noteq> [])"
| "py_truthy (PyDict kvs) = (kvs \<noteq> [])"
| "py_truthy (PyRdd kvs) = (kvs \<noteq> [])"

text \<open>\<open>obj.items()\<close> and \<open>obj.get(key, default)\<close>: dicts only.\<close>

fun py_items :: "pyobj \<Rightarrow> py_error + pydict" where
  "py_items (PyDict kvs) = Inr kvs"
| "py_items (PyRdd kvs) = Inr kvs"
| "py_items _ = Inl AttributeError"

definition py_get :: "pyobj \<Rightarrow> string \<Rightarrow> pyobj \<Rightarrow> py_error + pyobj" where
  "py_get obj key dflt =
     bindR (py_items obj) (\<lambda>kvs. Inr (case map_of kvs key of None \<Rightarrow> dflt | Some v \<Rightarrow> v))"

text \<open>\<open>obj.get(key, missing)\<close> with a private sentinel: \<open>None\<close> says the key is absent.\<close>

definition py_get_opt :: "pyobj \<Rightarrow> string \<Rightarrow> py_error + pyobj option" where
  "py_get_opt obj key = bindR (py_items obj) (\<lambda>kvs. Inr (map_of kvs key))"

text \<open>\<open>obj.encode()\<close>: text only.\<close>

fun py_encode_obj :: "pyobj \<Rightarrow> py_error + bytes" where
  "py_encode_obj (PyStr s) = py_encode s"
| "py_encode_obj _ = Inl AttributeError"

lemma dict_size [termination_simp]:
  "(k, v) \<in> set kvs \<Longrightarrow> size v < Suc (size_list (size_prod f size) kvs)"
  by (induction kvs) (auto simp: less_Suc_eq_le)

lemma py_items_size:
  "py_items t = Inr kvs \<Longrightarrow> (k, v) \<in> set kvs \<Longrightarrow> size v < size t"
  by (cases t) (auto dest: dict_size)

lemma py_get_items [simp]:
  "py_get (PyDict kvs) k d = Inr (case map_of kvs k of None \<Rightarrow> d | Some v \<Rightarrow> v)"
  "py_get (PyRdd kvs) k d = Inr (case map_of kvs k of None \<Rightarrow> d | Some v \<Rightarrow> v)"
  by (simp_all add: py_get_def)

lemma py_get_opt_items [simp]:
  "py_get_opt (PyDict kvs) k = Inr (map_of kvs k)"
  "py_get_opt (PyRdd kvs) k = Inr (map_of kvs k)"
  by (simp_all add: py_get_opt_def)

end
