(* ===== verification/Topics.thy ===== *)
theory Topics
  imports Py_Values
begin

text \<open>
  models/constants.py, models/topic.py and protocols/is_node_static.py: topic separators and
  wildcards, and the class \<open>Topic\<close>, a linked list of nodes with two memo fields (the list of
  nodes and the joined string).
\<close>

section \<open>Constants\<close>

definition TOPIC_SEP :: char where
  "TOPIC_SEP = CHR ''/''"

definition MANY_CARD :: string where
  "MANY_CARD = ''+''"

definition TABLE_FLAG :: char where
  "TABLE_FLAG = CHR ''@''"

definition EVERYTHING_CARD :: string where
  "EVERYTHING_CARD = ''#''"

definition LEAF_KEY :: string where
  "LEAF_KEY = [TOPIC_SEP]"

lemmas topic_consts [const_defs] =
  TOPIC_SEP_def MANY_CARD_def TABLE_FLAG_def EVERYTHING_CARD_def LEAF_KEY_def

lemma consts_distinct [simp]:
  "MANY_CARD \<noteq> EVERYTHING_CARD" "EVERYTHING_CARD \<noteq> MANY_CARD"
  "MANY_CARD \<noteq> LEAF_KEY" "LEAF_KEY \<noteq> MANY_CARD"
  "EVERYTHING_CARD \<noteq> LEAF_KEY" "LEAF_KEY \<noteq> EVERYTHING_CARD"
  by (simp_all add: const_defs)

definition is_node_static :: "string \<Rightarrow> bool" where
  "is_node_static node \<longleftrightarrow> node \<notin> set [MANY_CARD, EVERYTHING_CARD]"

lemma is_node_static_simps [simp]:
  "\<not> is_node_static MANY_CARD" "\<not> is_node_static EVERYTHING_CARD" "is_node_static LEAF_KEY"
  by (simp_all add: is_node_static_def)

lemma not_static_iff: "\<not> is_node_static n \<longleftrightarrow> n = MANY_CARD \<or> n = EVERYTHING_CARD"
  by (simp add: is_node_static_def)

text \<open>
  The nodes of a topic that came from a string contain no separator. In particular none is
  \<^const>\<open>LEAF_KEY\<close>, the key under which trees keep their leaves.
\<close>

definition clean_node :: "string \<Rightarrow> bool" where
  "clean_node n \<longleftrightarrow> TOPIC_SEP \<notin> set n"

lemma clean_not_leaf: "clean_node n \<Longrightarrow> n \<noteq> LEAF_KEY"
  by (auto simp: clean_node_def LEAF_KEY_def)

lemma clean_cards [simp]: "clean_node MANY_CARD" "clean_node EVERYTHING_CARD"
  by (simp_all add: clean_node_def const_defs)

section \<open>The class Topic\<close>

datatype topic =
  Topic (topic_node: string) (topic_parent: "topic option")
    (cached_nodes: "string list option") (cached_str: "string option")

function topic_from_nodes :: "string list \<Rightarrow> string option \<Rightarrow> topic option" where
  "topic_from_nodes nodes full_str =
     (if length nodes = 0 then None
      else Some (Topic (last nodes)
             (if length nodes = 1 then None else topic_from_nodes (butlast nodes) None)
             None full_str))"
  by pat_completeness auto
termination
  by (relation "measure (\<lambda>(nodes, _). length nodes)") auto

declare topic_from_nodes.simps [simp del]

definition topic_from_str :: "string \<Rightarrow> topic option" where
  "topic_from_str s = topic_from_nodes (split_char TOPIC_SEP s) (Some s)"

definition topic_div :: "topic \<Rightarrow> string \<Rightarrow> topic" where
  "topic_div self node = Topic node (Some self) None None"

text \<open>The loop of \<open>node_list\<close> that climbs from a topic to its root.\<close>

fun topic_ancestors :: "topic \<Rightarrow> string list" where
  "topic_ancestors (Topic n p _ _) =
     n # (case p of None \<Rightarrow> [] | Some q \<Rightarrow> topic_ancestors q)"

definition node_list :: "topic \<Rightarrow> string list" where
  "node_list t = (case cached_nodes t of Some ns \<Rightarrow> ns | None \<Rightarrow> rev (topic_ancestors t))"

definition full_str :: "topic \<Rightarrow> string" where
  "full_str t = (case cached_str t of Some s \<Rightarrow> s | None \<Rightarrow> join_char TOPIC_SEP (node_list t))"

text \<open>What reading the two properties leaves in the memo fields.\<close>

definition read_node_list :: "topic \<Rightarrow> string list \<times> topic" where
  "read_node_list t =
     (node_list t, Topic (topic_node t) (topic_parent t) (Some (node_list t)) (cached_str t))"

definition read_full_str :: "topic \<Rightarrow> string \<times> topic" where
  "read_full_str t =
     (case cached_str t of
        Some s \<Rightarrow> (s, t)
      | None \<Rightarrow>
          (let (ns, t') = read_node_list t; s = join_char TOPIC_SEP ns
           in (s, Topic (topic_node t') (topic_parent t') (cached_nodes t') (Some s))))"

definition topic_eq :: "topic \<Rightarrow> topic \<Rightarrow> bool" where
  "topic_eq t u \<longleftrightarrow> full_str t = full_str u"

definition topic_length :: "topic \<Rightarrow> nat" where
  "topic_length t = length (node_list t)"

text \<open>\<open>self.node_list[0][0] == TABLE_FLAG\<close>; both indexings raise on an empty sequence.\<close>

definition for_table :: "topic \<Rightarrow> py_error + bool" where
  "for_table t =
     (case node_list t of
        [] \<Rightarrow> Inl IndexError
      | n # _ \<Rightarrow> (case n of [] \<Rightarrow> Inl IndexError | c # _ \<Rightarrow> Inr (c = TABLE_FLAG)))"

text \<open>\<open>topic[i]\<close> for an integer, and \<open>topic[i:j]\<close>; Python counts negative indices from the end.\<close>

definition topic_getitem :: "topic \<Rightarrow> int \<Rightarrow> py_error + string" where
  "topic_getitem t i =
     (let ns = node_list t; n = int (length ns); j = (if i < 0 then n + i else i)
      in if 0 \<le> j \<and> j < n then Inr (ns ! nat j) else Inl IndexError)"

definition slice_bound :: "int \<Rightarrow> int \<Rightarrow> int" where
  "slice_bound n i = (if i < 0 then max 0 (n + i) else min n i)"

definition topic_getslice :: "topic \<Rightarrow> int \<Rightarrow> int \<Rightarrow> topic option" where
  "topic_getslice t i j =
     (let ns = node_list t; n = int (length ns);
          a = nat (slice_bound n i); b = nat (slice_bound n j)
      in topic_from_nodes (take (b - a) (drop a ns)) None)"

section \<open>Properties\<close>

lemma topic_from_nodes_Nil [simp]: "topic_from_nodes [] fs = None"
  by (simp add: topic_from_nodes.simps)

lemma topic_from_nodes_single: "topic_from_nodes [n] fs = Some (Topic n None None fs)"
  by (simp add: topic_from_nodes.simps)

lemma topic_from_nodes_snoc:
  "ns \<noteq> [] \<Longrightarrow>
   topic_from_nodes (ns @ [n]) fs = Some (Topic n (topic_from_nodes ns None) None fs)"
  by (subst topic_from_nodes.simps) (auto simp: length_Suc_conv)

lemma topic_from_nodes_ancestors:
  "ns \<noteq> [] \<Longrightarrow> \<exists>t. topic_from_nodes ns fs = Some t \<and> topic_ancestors t = rev ns
     \<and> cached_nodes t = None \<and> cached_str t = fs"
proof (induction ns arbitrary: fs rule: rev_induct)
  case (snoc n ns)
  show ?case
  proof (cases "ns = []")
    case True
    then show ?thesis by (simp add: topic_from_nodes_single)
  next
    case False
    with snoc.IH [of None] show ?thesis by (auto simp: topic_from_nodes_snoc)
  qed
qed simp

lemma topic_from_nodes_Some:
  "ns \<noteq> [] \<Longrightarrow> \<exists>t. topic_from_nodes ns fs = Some t \<and> node_list t = ns
     \<and> full_str t = (case fs of Some s \<Rightarrow> s | None \<Rightarrow> join_char TOPIC_SEP ns)"
  using topic_from_nodes_ancestors [of ns fs]
  by (auto simp: node_list_def full_str_def split: option.splits)

lemma topic_from_str_Some:
  "\<exists>t. topic_from_str s = Some t \<and> node_list t = split_char TOPIC_SEP s \<and> full_str t = s"
  using topic_from_nodes_Some [of "split_char TOPIC_SEP s" "Some s"]
  by (simp add: topic_from_str_def)

text \<open>
  The nodes of a topic string, as the code obtains them: \<open>Topic.from_str(s).node_list\<close>.
\<close>

definition topic_nodes :: "string \<Rightarrow> string list" where
  "topic_nodes s = split_char TOPIC_SEP s"

lemma topic_nodes_clean: "n \<in> set (topic_nodes s) \<Longrightarrow> clean_node n"
  by (auto simp: topic_nodes_def clean_node_def dest: split_char_no_sep)

lemma topic_nodes_not_Nil [simp]: "topic_nodes s \<noteq> []"
  by (simp add: topic_nodes_def)

lemma topic_nodes_join:
  "ns \<noteq> [] \<Longrightarrow> \<forall>n\<in>set ns. clean_node n \<Longrightarrow> topic_nodes (join_char TOPIC_SEP ns) = ns"
  by (simp add: topic_nodes_def clean_node_def split_join_char)

lemma join_topic_nodes [simp]: "join_char TOPIC_SEP (topic_nodes s) = s"
  by (simp add: topic_nodes_def)

lemma topic_from_str_nodes:
  "topic_from_str s = Some t \<Longrightarrow> node_list t = topic_nodes s"
  using topic_from_str_Some [of s] by (auto simp: topic_nodes_def)

text \<open>Reading either property never changes what a later read answers.\<close>

lemma read_node_list_idem:
  "node_list (snd (read_node_list t)) = node_list t"
  "full_str (snd (read_node_list t)) = full_str t"
  by (auto simp: read_node_list_def node_list_def full_str_def split: option.splits)

lemma read_full_str_idem:
  "fst (read_full_str t) = full_str t"
  "full_str (snd (read_full_str t)) = full_str t"
  "node_list (snd (read_full_str t)) = node_list t"
  by (auto simp: read_full_str_def full_str_def read_node_list_def node_list_def Let_def
      split: option.splits)

text \<open>
  Text and nodes of a topic are two views of one value. A topic read from a text keeps the
  text and splits it at the separator; the topic built from those nodes has the same text,
  computed this time, and reading a property never changes what is read later.
\<close>

theorem topic_round_trip:
  "\<exists>t u. topic_from_str s = Some t \<and> full_str t = s \<and> node_list t = split_char TOPIC_SEP s
     \<and> topic_from_nodes (node_list t) None = Some u \<and> cached_str u = None \<and> topic_eq u t
     \<and> node_list u = node_list t
     \<and> fst (read_full_str u) = s \<and> full_str (snd (read_full_str u)) = s
     \<and> node_list (snd (read_full_str u)) = node_list t"
proof -
  obtain t where t: "topic_from_str s = Some t" "node_list t = split_char TOPIC_SEP s" "full_str t = s"
    using topic_from_str_Some by blast
  obtain u where u: "topic_from_nodes (node_list t) None = Some u" "node_list u = node_list t"
    "full_str u = join_char TOPIC_SEP (node_list t)"
    using topic_from_nodes_Some [of "node_list t" None] t(2) by auto
  have "cached_str u = None" using topic_from_nodes_ancestors [of "node_list t" None] u(1) t(2) by auto
  with t u show ?thesis by (auto simp: topic_eq_def read_full_str_idem)
qed

end
