(* ===== verification/Recursive_Dict.thy ===== *)
theory Recursive_Dict
  imports Topics
begin

text \<open>
  utils/recursive_default_dict.py: the class \<open>RecursiveDefaultDict\<close>. An instance is
  \<^term>\<open>PyRdd kvs\<close>; the argument \<open>d\<close> of the operations is the value its
  \<open>default_type()\<close> returns (a fresh empty dict for the subscription tree, \<open>None\<close> for the
  retained tree), which all nested instances share. Indexing inserts missing keys, so every
  operation returns the updated object.

  \<open>__lshift__\<close> and \<open>__truediv__\<close> return a reference into the tree which their callers then
  read and mutate. The argument \<open>f\<close> stands for what the caller does with the referenced
  object: it answers the caller's result and the object after the mutation.
\<close>

section \<open>Operations\<close>

definition rdd_missing :: "pyobj \<Rightarrow> string \<Rightarrow> pyobj" where
  "rdd_missing d key = (if key = LEAF_KEY then d else PyRdd [])"

definition rdd_getitem :: "pyobj \<Rightarrow> string \<Rightarrow> pydict \<Rightarrow> pyobj \<times> pydict" where
  "rdd_getitem d key kvs =
     (case map_of kvs key of
        Some r \<Rightarrow> (r, kvs)
      | None \<Rightarrow> (let r = rdd_missing d key in (r, AList.update key r kvs)))"

text \<open>\<open>obj[key]\<close> for a text key on an arbitrary object, then \<open>f\<close> on what it refers to.\<close>

fun py_subscript :: "pyobj \<Rightarrow> string \<Rightarrow> (pyobj \<Rightarrow> (py_error + 'a) \<times> pyobj) \<Rightarrow> pyobj
    \<Rightarrow> (py_error + 'a) \<times> pyobj" where
  "py_subscript d key f (PyRdd kvs) =
     (let (r, kvs1) = rdd_getitem d key kvs; (x, r') = f r
      in (x, PyRdd (AList.update key r' kvs1)))"
| "py_subscript d key f (PyDict kvs) =
     (case map_of kvs key of
        None \<Rightarrow> (Inl KeyError, PyDict kvs)
      | Some r \<Rightarrow> (let (x, r') = f r in (x, PyDict (AList.update key r' kvs))))"
| "py_subscript d key f obj = (Inl TypeError, obj)"

fun rdd_lshift :: "pyobj \<Rightarrow> string list \<Rightarrow> (pyobj \<Rightarrow> (py_error + 'a) \<times> pyobj) \<Rightarrow> pyobj
    \<Rightarrow> (py_error + 'a) \<times> pyobj" where
  "rdd_lshift d [] f (PyRdd kvs) = (Inl IndexError, PyRdd kvs)"
| "rdd_lshift d (node # next_path) f (PyRdd kvs) =
     (let (r, kvs1) = rdd_getitem d node kvs;
          (x, r') = (if next_path \<noteq> [] then rdd_lshift d next_path f r
                     else py_subscript d LEAF_KEY f r)
      in (x, PyRdd (AList.update node r' kvs1)))"
| "rdd_lshift d path f obj = (Inl TypeError, obj)"

fun rdd_truediv :: "pyobj \<Rightarrow> string list \<Rightarrow> (pyobj \<Rightarrow> (py_error + 'a) \<times> pyobj) \<Rightarrow> pyobj
    \<Rightarrow> (py_error + 'a) \<times> pyobj" where
  "rdd_truediv d [] f (PyRdd kvs) = (Inl IndexError, PyRdd kvs)"
| "rdd_truediv d (node # next_path) f (PyRdd kvs) =
     (let (branch, kvs1) = rdd_getitem d node kvs;
          (x, r') = (if next_path \<noteq> [] then
                       (if branch = PyNone then (fst (f PyNone), branch)
                        else rdd_truediv d next_path f branch)
                     else f branch)
      in (x, PyRdd (AList.update node r' kvs1)))"
| "rdd_truediv d path f obj = (Inl TypeError, obj)"

text \<open>The property setter \<open>leaf\<close>.\<close>

fun set_leaf :: "pyobj \<Rightarrow> pyobj \<Rightarrow> (py_error + unit) \<times> pyobj" where
  "set_leaf v (PyRdd kvs) = (Inr (), PyRdd (AList.update LEAF_KEY v kvs))"
| "set_leaf v obj = (Inl AttributeError, obj)"

text \<open>\<open>obj.pop(key)\<close> without a default.\<close>

fun py_pop :: "string \<Rightarrow> pyobj \<Rightarrow> (py_error + pyobj) \<times> pyobj" where
  "py_pop key (PyRdd kvs) =
     (case map_of kvs key of
        None \<Rightarrow> (Inl KeyError, PyRdd kvs) | Some v \<Rightarrow> (Inr v, PyRdd (AList.delete key kvs)))"
| "py_pop key (PyDict kvs) =
     (case map_of kvs key of
        None \<Rightarrow> (Inl KeyError, PyDict kvs) | Some v \<Rightarrow> (Inr v, PyDict (AList.delete key kvs)))"
| "py_pop key (PyList xs) = (Inl TypeError, PyList xs)"
| "py_pop key obj = (Inl AttributeError, obj)"

fun cascade_delete :: "pyobj \<Rightarrow> string list \<Rightarrow> pyobj \<Rightarrow> (py_error + unit) \<times> pyobj" where
  "cascade_delete d [] (PyRdd kvs) = (Inl IndexError, PyRdd kvs)"
| "cascade_delete d (node # next_nodes) (PyRdd kvs) =
     (let (r, kvs1) = rdd_getitem d node kvs;
          (x, r') = (if next_nodes \<noteq> [] then cascade_delete d next_nodes r
                     else (let (y, s) = py_pop LEAF_KEY r in (bindR y (\<lambda>_. Inr ()), s)))
      in case x of
           Inl e \<Rightarrow> (Inl e, PyRdd (AList.update node r' kvs1))
         | Inr _ \<Rightarrow> (Inr (), PyRdd (if py_truthy r' then AList.update node r' kvs1
                                  else AList.delete node kvs1)))"
| "cascade_delete d path obj = (Inl AttributeError, obj)"

section \<open>Abstraction and invariant\<close>

text \<open>
  A tree stands for a map from paths to leaves: \<^term>\<open>leaf_at t path\<close> is what is stored under
  \<^const>\<open>LEAF_KEY\<close> at the end of the path.
\<close>

fun leaf_at :: "pyobj \<Rightarrow> string list \<Rightarrow> pyobj option" where
  "leaf_at (PyRdd kvs) [] = map_of kvs LEAF_KEY"
| "leaf_at (PyRdd kvs) (n # ns) =
     (case map_of kvs n of None \<Rightarrow> None | Some t \<Rightarrow> leaf_at t ns)"
| "leaf_at obj path = None"

definition leaf_or :: "pyobj \<Rightarrow> pyobj \<Rightarrow> string list \<Rightarrow> pyobj" where
  "leaf_or d t path = (case leaf_at t path of None \<Rightarrow> d | Some v \<Rightarrow> v)"

text \<open>
  Well-formed: keys are distinct, the leaf key holds a leaf (an object \<open>P\<close> accepts), every
  other key a well-formed tree.
\<close>

fun wf_rdd :: "(pyobj \<Rightarrow> bool) \<Rightarrow> pyobj \<Rightarrow> bool" where
  "wf_rdd P (PyRdd kvs) \<longleftrightarrow>
     distinct (dkeys kvs) \<and> (\<forall>x\<in>set kvs. if fst x = LEAF_KEY then P (snd x) else wf_rdd P (snd x))"
| "wf_rdd P obj \<longleftrightarrow> False"

text \<open>Pruned: no empty leaf and no empty branch anywhere.\<close>

fun pruned :: "pyobj \<Rightarrow> bool" where
  "pruned (PyRdd kvs) \<longleftrightarrow>
     (\<forall>x\<in>set kvs. py_truthy (snd x) \<and> (fst x \<noteq> LEAF_KEY \<longrightarrow> pruned (snd x)))"
| "pruned obj \<longleftrightarrow> True"

definition rdd_path :: "string list \<Rightarrow> bool" where
  "rdd_path path \<longleftrightarrow> path \<noteq> [] \<and> LEAF_KEY \<notin> set path"

lemma wf_rdd_ex: "wf_rdd P t \<Longrightarrow> \<exists>kvs. t = PyRdd kvs"
  by (cases t) auto

lemma wf_rdd_child:
  "wf_rdd P (PyRdd kvs) \<Longrightarrow> map_of kvs n = Some t \<Longrightarrow> n \<noteq> LEAF_KEY \<Longrightarrow> wf_rdd P t"
  by (auto dest!: map_of_in_set)

lemma wf_rdd_leaf: "wf_rdd P (PyRdd kvs) \<Longrightarrow> map_of kvs LEAF_KEY = Some v \<Longrightarrow> P v"
  by (auto dest!: map_of_in_set)

lemma wf_rdd_update:
  "wf_rdd P (PyRdd kvs) \<Longrightarrow> (if k = LEAF_KEY then P v else wf_rdd P v)
   \<Longrightarrow> wf_rdd P (PyRdd (AList.update k v kvs))"
  using set_update_subset [of k v kvs] by (auto split: if_splits)

lemma wf_rdd_delete: "wf_rdd P (PyRdd kvs) \<Longrightarrow> wf_rdd P (PyRdd (AList.delete k kvs))"
  by (auto simp: AList.delete_eq intro: distinct_delete [unfolded AList.delete_eq])

lemma wf_rdd_Nil [simp]: "wf_rdd P (PyRdd [])"
  by simp

lemma leaf_at_Nil [simp]: "leaf_at (PyRdd []) path = None"
  by (cases path) auto

lemma leaf_at_case: "leaf_at (PyRdd kvs) path =
  (case path of [] \<Rightarrow> map_of kvs LEAF_KEY
   | n # ns \<Rightarrow> (case map_of kvs n of None \<Rightarrow> None | Some t \<Rightarrow> leaf_at t ns))"
  by (cases path) auto

lemma leaf_at_P: "wf_rdd P t \<Longrightarrow> LEAF_KEY \<notin> set path \<Longrightarrow> leaf_at t path = Some v \<Longrightarrow> P v"
proof (induction t path rule: leaf_at.induct)
  case (1 kvs)
  then show ?case using wf_rdd_leaf by simp
next
  case (2 kvs n ns)
  then show ?case by (auto split: option.splits dest: wf_rdd_child)
qed auto

text \<open>The child an indexing finds or inserts, as a tree.\<close>

definition child_or :: "pydict \<Rightarrow> string \<Rightarrow> pyobj" where
  "child_or kvs n = (case map_of kvs n of None \<Rightarrow> PyRdd [] | Some t \<Rightarrow> t)"

lemma rdd_getitem_child:
  "n \<noteq> LEAF_KEY \<Longrightarrow> fst (rdd_getitem d n kvs) = child_or kvs n"
  "n \<noteq> LEAF_KEY \<Longrightarrow>
     AList.update n r (snd (rdd_getitem d n kvs)) = AList.update n r kvs"
  by (auto simp: rdd_getitem_def rdd_missing_def child_or_def Let_def split: option.splits)

lemma rdd_getitem_leaf:
  "fst (rdd_getitem d LEAF_KEY kvs) = leaf_or d (PyRdd kvs) []"
  "AList.update LEAF_KEY r (snd (rdd_getitem d LEAF_KEY kvs)) = AList.update LEAF_KEY r kvs"
  by (auto simp: rdd_getitem_def rdd_missing_def leaf_or_def Let_def split: option.splits)

lemma wf_child_or: "wf_rdd P (PyRdd kvs) \<Longrightarrow> n \<noteq> LEAF_KEY \<Longrightarrow> wf_rdd P (child_or kvs n)"
  by (auto simp: child_or_def split: option.splits dest: wf_rdd_child)

lemma leaf_at_child_or:
  "leaf_at (child_or kvs n) ns = leaf_at (PyRdd kvs) (n # ns)"
  by (auto simp: child_or_def split: option.splits)

lemma leaf_or_child: "leaf_or d (child_or kvs n) ns = leaf_or d (PyRdd kvs) (n # ns)"
  by (simp add: leaf_or_def leaf_at_child_or)

lemma leaf_at_update:
  "leaf_at (PyRdd (AList.update n r kvs)) path =
     (case path of
        [] \<Rightarrow> if n = LEAF_KEY then Some r else map_of kvs LEAF_KEY
      | m # ms \<Rightarrow> if m = n then leaf_at r ms else leaf_at (PyRdd kvs) path)"
  by (cases path) auto

section \<open>The operations on well-formed trees\<close>

lemma rdd_lshift_Cons:
  "n \<noteq> LEAF_KEY \<Longrightarrow>
   rdd_lshift d (n # ns) f (PyRdd kvs) =
     (let (x, r') = (if ns \<noteq> [] then rdd_lshift d ns f (child_or kvs n)
                     else py_subscript d LEAF_KEY f (child_or kvs n))
      in (x, PyRdd (AList.update n r' kvs)))"
  using rdd_getitem_child(1) [of n d kvs] rdd_getitem_child(2) [of n _ d kvs]
  by (cases "rdd_getitem d n kvs") (auto split: prod.splits)

lemma py_subscript_leaf:
  "py_subscript d LEAF_KEY f (PyRdd kvs) =
     (let (x, r') = f (leaf_or d (PyRdd kvs) []) in (x, PyRdd (AList.update LEAF_KEY r' kvs)))"
  using rdd_getitem_leaf(1) [of d kvs] rdd_getitem_leaf(2) [of _ d kvs]
  by (cases "rdd_getitem d LEAF_KEY kvs") (auto split: prod.splits)

declare rdd_lshift.simps(2) [simp del] py_subscript.simps(1) [simp del]

text \<open>
  The reference \<open>tree << path\<close> is the leaf at that path, or the default; what the caller
  does to it is stored there and nowhere else.
\<close>

lemma rdd_lshift_spec:
  assumes "wf_rdd P t" and "rdd_path path" and "P d" and "\<And>x. P x \<Longrightarrow> P (snd (f x))"
  shows "fst (rdd_lshift d path f t) = fst (f (leaf_or d t path))
    \<and> wf_rdd P (snd (rdd_lshift d path f t))
    \<and> (\<forall>q. LEAF_KEY \<notin> set q \<longrightarrow> leaf_at (snd (rdd_lshift d path f t)) q =
         (if q = path then Some (snd (f (leaf_or d t path))) else leaf_at t q))"
  using assms
proof (induction path arbitrary: t)
  case (Cons n ns)
  from Cons.prems(1) obtain kvs where t: "t = PyRdd kvs" by (blast dest: wf_rdd_ex)
  from Cons.prems(2) have n: "n \<noteq> LEAF_KEY" by (auto simp: rdd_path_def)
  have wfc: "wf_rdd P (child_or kvs n)" using Cons.prems(1) n by (simp add: t wf_child_or)
  define r where "r = (if ns \<noteq> [] then rdd_lshift d ns f (child_or kvs n)
                       else py_subscript d LEAF_KEY f (child_or kvs n))"
  have r: "fst r = fst (f (leaf_or d (child_or kvs n) ns)) \<and> wf_rdd P (snd r) \<and>
      (\<forall>q. LEAF_KEY \<notin> set q \<longrightarrow> leaf_at (snd r) q = (if q = ns then Some (snd (f (leaf_or d (child_or kvs n) ns)))
                              else leaf_at (child_or kvs n) q))"
  proof (cases "ns = []")
    case True
    obtain kvs2 where c: "child_or kvs n = PyRdd kvs2" using wfc by (blast dest: wf_rdd_ex)
    have "P (leaf_or d (PyRdd kvs2) [])"
      using wfc Cons.prems(3) by (auto simp: c leaf_or_def split: option.splits dest: wf_rdd_leaf)
    with True wfc Cons.prems(4) show ?thesis
      by (auto simp: r_def c py_subscript_leaf Let_def split_beta leaf_at_update
          simp del: wf_rdd.simps intro!: wf_rdd_update split: list.splits)
  next
    case False
    with Cons.prems have "rdd_path ns" by (auto simp: rdd_path_def)
    with Cons.IH [OF wfc _ Cons.prems(3,4)] False show ?thesis by (simp add: r_def)
  qed
  have step: "rdd_lshift d (n # ns) f (PyRdd kvs) = (fst r, PyRdd (AList.update n (snd r) kvs))"
    by (simp add: rdd_lshift_Cons [OF n] r_def split_beta Let_def)
  show ?case
    using r n Cons.prems(1)
    by (auto simp: step t leaf_or_child leaf_at_update leaf_at_child_or
        simp del: wf_rdd.simps intro!: wf_rdd_update split: list.splits)
qed (simp add: rdd_path_def)

lemma rdd_truediv_Cons:
  "n \<noteq> LEAF_KEY \<Longrightarrow> wf_rdd P (PyRdd kvs) \<Longrightarrow>
   rdd_truediv d (n # ns) f (PyRdd kvs) =
     (let (x, r') = (if ns \<noteq> [] then rdd_truediv d ns f (child_or kvs n)
                     else f (child_or kvs n))
      in (x, PyRdd (AList.update n r' kvs)))"
  using rdd_getitem_child(1) [of n d kvs] rdd_getitem_child(2) [of n _ d kvs]
    wf_rdd_ex [OF wf_child_or [of P kvs n]]
  by (cases "rdd_getitem d n kvs") (auto split: prod.splits simp del: wf_rdd.simps)

declare rdd_truediv.simps(2) [simp del]

text \<open>
  \<open>(tree / path).leaf = v\<close> stores \<open>v\<close> at the path and changes no other leaf; the branches on
  the way are created when missing.
\<close>

lemma rdd_truediv_set_leaf:
  assumes "wf_rdd P t" and "rdd_path path" and "P v"
  shows "fst (rdd_truediv d path (set_leaf v) t) = Inr ()
    \<and> wf_rdd P (snd (rdd_truediv d path (set_leaf v) t))
    \<and> (\<forall>q. LEAF_KEY \<notin> set q \<longrightarrow> leaf_at (snd (rdd_truediv d path (set_leaf v) t)) q =
         (if q = path then Some v else leaf_at t q))"
  using assms
proof (induction path arbitrary: t)
  case (Cons n ns)
  from Cons.prems(1) obtain kvs where t: "t = PyRdd kvs" by (blast dest: wf_rdd_ex)
  from Cons.prems(2) have n: "n \<noteq> LEAF_KEY" by (auto simp: rdd_path_def)
  have wfc: "wf_rdd P (child_or kvs n)" using Cons.prems(1) n by (simp add: t wf_child_or)
  define r where "r = (if ns \<noteq> [] then rdd_truediv d ns (set_leaf v) (child_or kvs n)
                       else set_leaf v (child_or kvs n))"
  have r: "fst r = Inr () \<and> wf_rdd P (snd r) \<and>
      (\<forall>q. LEAF_KEY \<notin> set q \<longrightarrow> leaf_at (snd r) q = (if q = ns then Some v else leaf_at (child_or kvs n) q))"
  proof (cases "ns = []")
    case True
    obtain kvs2 where c: "child_or kvs n = PyRdd kvs2" using wfc by (blast dest: wf_rdd_ex)
    with True wfc Cons.prems(3) show ?thesis
      by (auto simp: r_def leaf_at_update simp del: wf_rdd.simps intro!: wf_rdd_update
          split: list.splits)
  next
    case False
    with Cons.prems have "rdd_path ns" by (auto simp: rdd_path_def)
    with Cons.IH [OF wfc _ Cons.prems(3)] False show ?thesis by (simp add: r_def)
  qed
  have step: "rdd_truediv d (n # ns) (set_leaf v) (PyRdd kvs) = (fst r, PyRdd (AList.update n (snd r) kvs))"
    using rdd_truediv_Cons [OF n Cons.prems(1) [unfolded t], of d ns "set_leaf v"]
    by (simp add: r_def split_beta Let_def)
  show ?case
    using r n Cons.prems(1)
    by (auto simp: step t leaf_at_update leaf_at_child_or
        simp del: wf_rdd.simps intro!: wf_rdd_update split: list.splits)
qed (simp add: rdd_path_def)

section \<open>Deleting a path\<close>

lemma cascade_delete_Cons:
  assumes "n \<noteq> LEAF_KEY" and "wf_rdd P (PyRdd kvs)"
  shows "cascade_delete d (n # ns) (PyRdd kvs) =
     (let (x, r') = (if ns \<noteq> [] then cascade_delete d ns (child_or kvs n)
                     else (let (y, s) = py_pop LEAF_KEY (child_or kvs n)
                           in (bindR y (\<lambda>_. Inr ()), s)))
      in case x of
           Inl e \<Rightarrow> (Inl e, PyRdd (AList.update n r' kvs))
         | Inr _ \<Rightarrow> (Inr (), PyRdd (if py_truthy r' then AList.update n r' kvs
                                  else AList.delete n kvs)))"
proof -
  have "AList.delete n (snd (rdd_getitem d n kvs)) = AList.delete n kvs"
  proof (cases "map_of kvs n")
    case None
    then have "n \<notin> set (dkeys kvs)" by (simp add: map_of_eq_None_iff)
    then show ?thesis
      by (simp add: rdd_getitem_def update_new Let_def None AList.delete_eq)
  qed (simp add: rdd_getitem_def)
  then show ?thesis
    using rdd_getitem_child(1) [OF assms(1), of d kvs] rdd_getitem_child(2) [OF assms(1), of _ d kvs]
    by (cases "rdd_getitem d n kvs") (auto simp: Let_def split_beta split: sum.split)
qed

declare cascade_delete.simps(2) [simp del]

lemma leaf_at_delete:
  "leaf_at (PyRdd (AList.delete n kvs)) path =
     (case path of
        [] \<Rightarrow> if n = LEAF_KEY then None else map_of kvs LEAF_KEY
      | m # ms \<Rightarrow> if m = n then None else leaf_at (PyRdd kvs) path)"
  by (cases path) auto

text \<open>
  Deleting a path whose leaf is present succeeds, removes that leaf and no other.
\<close>

lemma cascade_delete_spec:
  assumes "wf_rdd P t" and "rdd_path path" and "leaf_at t path \<noteq> None"
  shows "fst (cascade_delete d path t) = Inr ()
    \<and> wf_rdd P (snd (cascade_delete d path t))
    \<and> (\<forall>q. LEAF_KEY \<notin> set q \<longrightarrow> leaf_at (snd (cascade_delete d path t)) q =
         (if q = path then None else leaf_at t q))"
  using assms
proof (induction path arbitrary: t)
  case (Cons n ns)
  from Cons.prems(1) obtain kvs where t: "t = PyRdd kvs" by (blast dest: wf_rdd_ex)
  from Cons.prems(2) have n: "n \<noteq> LEAF_KEY" by (auto simp: rdd_path_def)
  have wfc: "wf_rdd P (child_or kvs n)" using Cons.prems(1) n by (simp add: t wf_child_or)
  have leaf: "leaf_at (child_or kvs n) ns \<noteq> None"
    using Cons.prems(3) by (simp only: t leaf_at_child_or) simp
  define r where "r = (if ns \<noteq> [] then cascade_delete d ns (child_or kvs n)
     else (let (y, s) = py_pop LEAF_KEY (child_or kvs n) in (bindR y (\<lambda>_. Inr ()), s)))"
  have r: "fst r = Inr () \<and> wf_rdd P (snd r) \<and>
      (\<forall>q. LEAF_KEY \<notin> set q \<longrightarrow>
        leaf_at (snd r) q = (if q = ns then None else leaf_at (child_or kvs n) q))"
  proof (cases "ns = []")
    case True
    obtain kvs2 where c: "child_or kvs n = PyRdd kvs2" using wfc by (blast dest: wf_rdd_ex)
    with True wfc leaf show ?thesis
      by (auto simp: r_def leaf_at_delete wf_rdd_delete simp del: wf_rdd.simps
          split: list.splits)
  next
    case False
    with Cons.prems have "rdd_path ns" by (auto simp: rdd_path_def)
    with Cons.IH [OF wfc _ leaf] False show ?thesis by (simp add: r_def)
  qed
  have step: "cascade_delete d (n # ns) (PyRdd kvs) =
      (Inr (), PyRdd (if py_truthy (snd r) then AList.update n (snd r) kvs
                      else AList.delete n kvs))"
    using cascade_delete_Cons [OF n Cons.prems(1) [unfolded t], of d ns] r
    by (simp add: r_def [symmetric] split_beta)
  have empty: "\<not> py_truthy (snd r) \<Longrightarrow> snd r = PyRdd []"
    using r by (cases "snd r") auto
  show ?case
  proof (cases "py_truthy (snd r)")
    case True
    then show ?thesis
      using r n Cons.prems(1)
      by (auto simp: step t leaf_at_update leaf_at_child_or
          simp del: wf_rdd.simps intro!: wf_rdd_update split: list.splits)
  next
    case False
    with r have "\<forall>q. LEAF_KEY \<notin> set q \<longrightarrow> q \<noteq> ns \<longrightarrow> leaf_at (PyRdd kvs) (n # q) = None"
      by (fastforce simp: empty leaf_at_child_or)
    then show ?thesis
      using False n Cons.prems(1) r
      by (auto simp: step t leaf_at_delete wf_rdd_delete simp del: wf_rdd.simps
          split: list.splits)
  qed
qed (simp add: rdd_path_def)

section \<open>Pruning\<close>

text \<open>
  \<open>pruned_off path t\<close>: pruned, except that the branches and the leaf on the given path may
  be empty. It is what indexing along the path leaves behind, and what deleting the path
  turns back into a pruned tree.
\<close>

fun pruned_off :: "string list \<Rightarrow> pyobj \<Rightarrow> bool" where
  "pruned_off path (PyRdd kvs) \<longleftrightarrow>
     (case path of
        [] \<Rightarrow> (\<forall>x\<in>set kvs. fst x \<noteq> LEAF_KEY \<longrightarrow> py_truthy (snd x) \<and> pruned (snd x))
      | n # ns \<Rightarrow> (\<forall>x\<in>set kvs.
           if fst x = n then pruned_off ns (snd x)
           else py_truthy (snd x) \<and> (fst x \<noteq> LEAF_KEY \<longrightarrow> pruned (snd x))))"
| "pruned_off path obj \<longleftrightarrow> True"

declare pruned.simps(1) [simp del] pruned_off.simps(1) [simp del]

lemma pruned_Nil [simp]: "pruned (PyRdd [])"
  by (simp add: pruned.simps)

lemma pruned_child_or: "pruned (PyRdd kvs) \<Longrightarrow> n \<noteq> LEAF_KEY \<Longrightarrow> pruned (child_or kvs n)"
  by (auto simp: child_or_def pruned.simps split: option.splits dest!: map_of_in_set)

lemma pruned_off_child_or:
  "pruned_off (n # ns) (PyRdd kvs) \<Longrightarrow> pruned_off ns (child_or kvs n)"
  by (auto simp: child_or_def pruned_off.simps split: option.splits list.splits
      dest!: map_of_in_set)

lemma pruned_imp_off: "pruned t \<Longrightarrow> LEAF_KEY \<notin> set path \<Longrightarrow> pruned_off path t"
proof (induction path arbitrary: t)
  case Nil
  then show ?case by (cases t) (auto simp: pruned.simps pruned_off.simps)
next
  case (Cons n ns)
  then show ?case by (cases t) (auto simp: pruned.simps pruned_off.simps)
qed

lemma pruned_off_update:
  "n \<noteq> LEAF_KEY \<Longrightarrow> pruned_off (n # ns) (PyRdd kvs) \<Longrightarrow> pruned_off ns r \<Longrightarrow> distinct (dkeys kvs)
   \<Longrightarrow> pruned_off (n # ns) (PyRdd (AList.update n r kvs))"
  using set_update_subset [of n r kvs]
  by (auto simp: pruned_off.simps split: if_splits)

lemma pruned_update:
  assumes "n \<noteq> LEAF_KEY" and "pruned_off (n # ns) (PyRdd kvs)" and "pruned r" and "py_truthy r"
    and "distinct (dkeys kvs)"
  shows "pruned (PyRdd (AList.update n r kvs))"
proof -
  have "x = (n, r) \<or> (x \<in> set kvs \<and> fst x \<noteq> n)" if "x \<in> set (AList.update n r kvs)" for x
  proof -
    from that have "map_of (AList.update n r kvs) (fst x) = Some (snd x)"
      using assms(5) by (intro map_of_is_SomeI) simp_all
    then show ?thesis by (cases x) (auto split: if_splits dest: map_of_in_set)
  qed
  then show ?thesis
    using assms(2-4) unfolding pruned.simps pruned_off.simps by fastforce
qed

lemma pruned_delete:
  "pruned_off (n # ns) (PyRdd kvs) \<Longrightarrow> pruned (PyRdd (AList.delete n kvs))"
  by (auto simp: pruned.simps pruned_off.simps AList.delete_eq)

lemma rdd_lshift_pruned_off:
  assumes "wf_rdd P t" and "rdd_path path" and "pruned t"
  shows "pruned_off path (snd (rdd_lshift d path f t))"
  using assms
proof (induction path arbitrary: t)
  case (Cons n ns)
  from Cons.prems(1) obtain kvs where t: "t = PyRdd kvs" by (blast dest: wf_rdd_ex)
  from Cons.prems(2) have n: "n \<noteq> LEAF_KEY" by (auto simp: rdd_path_def)
  have wfc: "wf_rdd P (child_or kvs n)" using Cons.prems(1) n by (simp add: t wf_child_or)
  have pc: "pruned (child_or kvs n)" using Cons.prems(3) n by (simp add: t pruned_child_or)
  have off: "pruned_off (n # ns) (PyRdd kvs)"
    using Cons.prems(2,3) by (auto simp: t rdd_path_def intro: pruned_imp_off)
  define r where "r = (if ns \<noteq> [] then rdd_lshift d ns f (child_or kvs n)
                       else py_subscript d LEAF_KEY f (child_or kvs n))"
  have "pruned_off ns (snd r)"
  proof (cases "ns = []")
    case True
    obtain kvs2 where c: "child_or kvs n = PyRdd kvs2" using wfc by (blast dest: wf_rdd_ex)
    show ?thesis
      using True pc set_update_subset [of LEAF_KEY _ kvs2]
      by (fastforce simp: r_def c py_subscript_leaf split_beta pruned.simps pruned_off.simps)
  next
    case False
    with Cons.prems have "rdd_path ns" by (auto simp: rdd_path_def)
    with Cons.IH [OF wfc _ pc] False show ?thesis by (simp add: r_def)
  qed
  then show ?case
    using Cons.prems(1) n off
    by (simp add: t rdd_lshift_Cons r_def [symmetric] split_beta pruned_off_update)
qed (simp add: rdd_path_def)

lemma cascade_delete_pruned:
  assumes "wf_rdd P t" and "rdd_path path" and "leaf_at t path \<noteq> None" and "pruned_off path t"
  shows "pruned (snd (cascade_delete d path t))"
  using assms
proof (induction path arbitrary: t)
  case (Cons n ns)
  from Cons.prems(1) obtain kvs where t: "t = PyRdd kvs" by (blast dest: wf_rdd_ex)
  from Cons.prems(2) have n: "n \<noteq> LEAF_KEY" by (auto simp: rdd_path_def)
  have wfc: "wf_rdd P (child_or kvs n)" using Cons.prems(1) n by (simp add: t wf_child_or)
  have leaf: "leaf_at (child_or kvs n) ns \<noteq> None"
    using Cons.prems(3) by (simp only: t leaf_at_child_or) simp
  have off: "pruned_off ns (child_or kvs n)"
    using Cons.prems(4) by (simp add: t pruned_off_child_or)
  define r where "r = (if ns \<noteq> [] then cascade_delete d ns (child_or kvs n)
     else (let (y, s) = py_pop LEAF_KEY (child_or kvs n) in (bindR y (\<lambda>_. Inr ()), s)))"
  have r: "fst r = Inr () \<and> pruned (snd r)"
  proof (cases "ns = []")
    case True
    obtain kvs2 where c: "child_or kvs n = PyRdd kvs2" using wfc by (blast dest: wf_rdd_ex)
    with True leaf off show ?thesis
      by (fastforce simp: r_def AList.delete_eq pruned.simps pruned_off.simps)
  next
    case False
    with Cons.prems have p: "rdd_path ns" by (auto simp: rdd_path_def)
    with Cons.IH [OF wfc p leaf off] cascade_delete_spec [OF wfc p leaf, of d] False
    show ?thesis by (simp add: r_def)
  qed
  show ?case
    using cascade_delete_Cons [OF n Cons.prems(1) [unfolded t], of d ns] r Cons.prems(1,4) n
    by (auto simp: t r_def [symmetric] split_beta intro: pruned_update pruned_delete)
qed (simp add: rdd_path_def)

section \<open>Deleting a path\<close>

text \<open>
  Deleting a path whose leaf exists succeeds, removes this leaf and no other, keeps the
  tree well-formed and, when nothing but the path itself was empty before, leaves no empty
  branch behind.
\<close>

theorem cascade_delete_exact:
  assumes "wf_rdd P t" and "rdd_path path" and "leaf_at t path \<noteq> None" and "pruned_off path t"
  shows "fst (cascade_delete d path t) = Inr ()
    \<and> wf_rdd P (snd (cascade_delete d path t)) \<and> pruned (snd (cascade_delete d path t))
    \<and> (\<forall>q. LEAF_KEY \<notin> set q \<longrightarrow> leaf_at (snd (cascade_delete d path t)) q =
         (if q = path then None else leaf_at t q))"
  using cascade_delete_spec [OF assms(1-3), of d] cascade_delete_pruned [OF assms, of d] by simp

lemma cascade_delete_exact_witness:
  "snd (cascade_delete PyNone [''a'', ''b'']
      (PyRdd [(''a'', PyRdd [(''b'', PyRdd [(''/'', PyDict [])])]), (''c'', PyRdd [(''/'', PyInt 1)])]))
    = PyRdd [(''c'', PyRdd [(''/'', PyInt 1)])]
   \<and> pruned (PyRdd [(''c'', PyRdd [(''/'', PyInt 1)])])"
proof -
  let ?t = "PyRdd [(''a'', PyRdd [(''b'', PyRdd [(''/'', PyDict [])])]), (''c'', PyRdd [(''/'', PyInt 1)])]"
  have eq: "snd (cascade_delete PyNone [''a'', ''b''] ?t) = PyRdd [(''c'', PyRdd [(''/'', PyInt 1)])]"
    by (simp add: cascade_delete.simps const_defs rdd_getitem_def)
  have "pruned (snd (cascade_delete PyNone [''a'', ''b''] ?t))"
    by (rule cascade_delete_exact [where P = "\<lambda>_. True", THEN conjunct2, THEN conjunct2, THEN conjunct1])
       (simp_all add: const_defs rdd_path_def pruned_off.simps pruned.simps)
  then show ?thesis unfolding eq by simp
qed

end
