(* ===== verification/Filter_Tree.thy ===== *)
theory Filter_Tree
  imports Recursive_Dict
begin

text \<open>
  protocols/filter_tree.py: cherry-picking a retained tree with a topic that may contain
  wildcards. The result is the payload of the immediate answer to a subscription.
\<close>

section \<open>The code\<close>

text \<open>\<open>branch in ["", {}]\<close>; dicts are compared by content whatever their class.\<close>

fun is_blank :: "pyobj \<Rightarrow> bool" where
  "is_blank (PyStr s) = (s = [])"
| "is_blank (PyDict kvs) = (kvs = [])"
| "is_blank (PyRdd kvs) = (kvs = [])"
| "is_blank _ = False"

fun filter_tree_with_topic :: "string list \<Rightarrow> pyobj \<Rightarrow> bool \<Rightarrow> py_error + pyobj" where
  "filter_tree_with_topic [] tree found_wildcard = Inl IndexError"
| "filter_tree_with_topic (node # next_topic) tree found_wildcard =
     (if node = EVERYTHING_CARD then
        (if next_topic = [] then Inr tree else Inl InvalidEverythingCard)
      else if node = MANY_CARD then
        bindR (py_items tree) (\<lambda>kvs. bindR
          (if next_topic = [] then
             dict_mapR (\<lambda>key val.
               if key = LEAF_KEY then Inr None
               else bindR (py_get val LEAF_KEY PyNone) (\<lambda>leaf.
                 Inr (if py_truthy leaf then Some leaf else None))) kvs
           else
             dict_mapR (\<lambda>key val.
               if key = LEAF_KEY then Inr None
               else bindR (filter_tree_with_topic next_topic val True) (\<lambda>branch.
                 Inr (if is_blank branch then None else Some branch))) kvs)
          (\<lambda>result. Inr (PyDict result)))
      else
        bindR (py_get tree node PyNone) (\<lambda>branch.
          if branch = PyNone then
            Inr (if next_topic \<noteq> [] \<and> \<not> is_node_static (last next_topic)
                 then PyDict [] else PyStr [])
          else if next_topic = [] then py_get branch LEAF_KEY PyNone
          else filter_tree_with_topic next_topic branch found_wildcard))"

section \<open>What it means\<close>

text \<open>
  A topic matches a path of the same length that agrees with it at every node that is not
  \<^const>\<open>MANY_CARD\<close>; the captures are the nodes of the path at the wildcards, the keys by
  which the answer files a leaf.
\<close>

definition topic_match :: "string list \<Rightarrow> string list \<Rightarrow> bool" where
  "topic_match topic path = list_all2 (\<lambda>f n. f = MANY_CARD \<or> f = n) topic path"

fun captures :: "string list \<Rightarrow> string list \<Rightarrow> string list" where
  "captures (f # fs) (n # ns) = (if f = MANY_CARD then n # captures fs ns else captures fs ns)"
| "captures _ _ = []"

fun obj_at :: "pyobj \<Rightarrow> string list \<Rightarrow> pyobj option" where
  "obj_at obj [] = Some obj"
| "obj_at obj (k # ks) =
     (case py_items obj of
        Inl e \<Rightarrow> None
      | Inr kvs \<Rightarrow> (case map_of kvs k of None \<Rightarrow> None | Some v \<Rightarrow> obj_at v ks))"

text \<open>The leaves of a retained tree: \<open>None\<close> or bytes.\<close>

fun is_data :: "pyobj \<Rightarrow> bool" where
  "is_data PyNone = True"
| "is_data (PyBytes b) = True"
| "is_data _ = False"

abbreviation wf_tree :: "pyobj \<Rightarrow> bool" where
  "wf_tree \<equiv> wf_rdd is_data"

lemma topic_match_simps [simp]:
  "topic_match [] path \<longleftrightarrow> path = []"
  "topic_match (f # fs) (n # ns) \<longleftrightarrow> (f = MANY_CARD \<or> f = n) \<and> topic_match fs ns"
  "topic_match (f # fs) [] \<longleftrightarrow> False"
  by (auto simp: topic_match_def)

lemma topic_match_Cons:
  "topic_match (f # fs) path \<longleftrightarrow>
     (\<exists>n ns. path = n # ns \<and> (f = MANY_CARD \<or> f = n) \<and> topic_match fs ns)"
  by (cases path) auto

lemma topic_match_length: "topic_match fs ns \<Longrightarrow> length fs = length ns"
  by (auto simp: topic_match_def dest: list_all2_lengthD)

lemma is_data_cases: "is_data v \<Longrightarrow> v = PyNone \<or> (\<exists>b. v = PyBytes b)"
  by (cases v) auto

lemma wf_tree_get:
  "wf_tree (PyRdd kvs) \<Longrightarrow> n \<noteq> LEAF_KEY \<Longrightarrow>
   py_get (PyRdd kvs) n PyNone = Inr PyNone \<longleftrightarrow> map_of kvs n = None"
  by (auto split: option.splits dest: wf_rdd_child)

text \<open>Type safety: on a well-formed tree the only exception is the documented one.\<close>

lemma filter_tree_total_aux:
  assumes "wf_tree tree" and "rdd_path topic"
  shows "case filter_tree_with_topic topic tree fw of
           Inr r \<Rightarrow> True
         | Inl e \<Rightarrow> e = InvalidEverythingCard \<and> EVERYTHING_CARD \<in> set (butlast topic)"
  using assms
proof (induction topic arbitrary: tree fw)
  case (Cons n ns)
  from Cons.prems(1) obtain kvs where t: "tree = PyRdd kvs" by (blast dest: wf_rdd_ex)
  have child: "wf_tree v" if "(k, v) \<in> set kvs" "k \<noteq> LEAF_KEY" for k v
    using Cons.prems(1) that by (auto simp: t)
  consider (every) "n = EVERYTHING_CARD" | (many_last) "n = MANY_CARD" "ns = []"
    | (many) "n = MANY_CARD" "ns \<noteq> []" | (lit) "n \<noteq> EVERYTHING_CARD" "n \<noteq> MANY_CARD" by blast
  then show ?case
  proof cases
    case every
    then show ?thesis by simp
  next
    case many_last
    have "\<And>e. dict_mapR (\<lambda>key val. if key = LEAF_KEY then Inr None
               else bindR (py_get val LEAF_KEY PyNone) (\<lambda>leaf.
                 Inr (if py_truthy leaf then Some leaf else None))) kvs \<noteq> Inl e"
      by (auto dest!: dict_mapR_InlD dest!: child wf_rdd_ex simp: res_simps split: if_splits)
    then show ?thesis using many_last by (auto simp: t res_simps split: sum.split)
  next
    case many
    then have ns: "rdd_path ns" using Cons.prems(2) by (auto simp: rdd_path_def)
    have "e = InvalidEverythingCard \<and> EVERYTHING_CARD \<in> set (butlast ns)"
      if "dict_mapR (\<lambda>key val. if key = LEAF_KEY then Inr None
               else bindR (filter_tree_with_topic ns val True) (\<lambda>branch.
                 Inr (if is_blank branch then None else Some branch))) kvs = Inl e" for e
      using dict_mapR_InlD [OF that] Cons.IH [OF child ns, of _ _ True]
      by (fastforce simp: res_simps split: if_splits sum.splits)
    then show ?thesis using many by (auto simp: t res_simps split: sum.split)
  next
    case lit
    then have n: "n \<noteq> LEAF_KEY" using Cons.prems(2) by (auto simp: rdd_path_def)
    show ?thesis
    proof (cases "map_of kvs n")
      case None
      with lit show ?thesis by (simp add: t)
    next
      case (Some v)
      then have v: "wf_tree v" using child n by (auto dest: map_of_in_set)
      then obtain kvs2 where v2: "v = PyRdd kvs2" by (blast dest: wf_rdd_ex)
      show ?thesis
      proof (cases "ns = []")
        case True
        with lit Some show ?thesis by (simp add: t v2)
      next
        case False
        then have ns: "rdd_path ns" using Cons.prems(2) by (auto simp: rdd_path_def)
        have "filter_tree_with_topic (n # ns) tree fw = filter_tree_with_topic ns v fw"
          using lit Some False by (simp add: t v2)
        with Cons.IH [OF v ns, of fw] False show ?thesis by (auto split: sum.splits)
      qed
    qed
  qed
qed (simp add: rdd_path_def)

lemma blank_obj_at: "is_blank r \<Longrightarrow> obj_at r ks \<noteq> Some (PyBytes b)"
  by (cases r; cases ks) auto

text \<open>Inverting one level of the loop, for each kind of node.\<close>

lemma filter_many_lastD:
  assumes "filter_tree_with_topic [MANY_CARD] (PyRdd kvs) fw = Inr r" and "wf_tree (PyRdd kvs)"
  obtains d where "r = PyDict d"
    and "\<And>m. m \<noteq> LEAF_KEY \<Longrightarrow> map_of d m =
      (case leaf_at (PyRdd kvs) [m] of None \<Rightarrow> None
       | Some leaf \<Rightarrow> if py_truthy leaf then Some leaf else None)"
proof -
  from assms(1) obtain d where r: "r = PyDict d"
    and d: "dict_mapR (\<lambda>key val. if key = LEAF_KEY then Inr None
        else bindR (py_get val LEAF_KEY PyNone) (\<lambda>leaf.
          Inr (if py_truthy leaf then Some leaf else None))) kvs = Inr d"
    by (auto simp: res_simps)
  have "distinct (dkeys kvs)" using assms(2) by simp
  note look = dict_mapR_lookup [OF d this]
  have "map_of d m = (case leaf_at (PyRdd kvs) [m] of None \<Rightarrow> None
       | Some leaf \<Rightarrow> if py_truthy leaf then Some leaf else None)" if m: "m \<noteq> LEAF_KEY" for m
  proof (cases "map_of kvs m")
    case None
    then show ?thesis by (simp add: look)
  next
    case (Some v)
    then obtain kvs2 where "v = PyRdd kvs2"
      using wf_rdd_child [OF assms(2) Some m] by (blast dest: wf_rdd_ex)
    then show ?thesis using Some m by (simp add: look split: option.split)
  qed
  with r that show ?thesis by blast
qed

lemma filter_manyD:
  assumes "filter_tree_with_topic (MANY_CARD # ns) (PyRdd kvs) fw = Inr r" and "ns \<noteq> []"
    and "distinct (dkeys kvs)"
  obtains d where "r = PyDict d"
    and "\<And>m v. m \<noteq> LEAF_KEY \<Longrightarrow> map_of kvs m = Some v \<Longrightarrow>
      \<exists>br. filter_tree_with_topic ns v True = Inr br
         \<and> map_of d m = (if is_blank br then None else Some br)"
    and "\<And>m. map_of kvs m = None \<Longrightarrow> map_of d m = None"
proof -
  let ?f = "\<lambda>key val. if key = LEAF_KEY then Inr None
        else bindR (filter_tree_with_topic ns val True) (\<lambda>branch.
          Inr (if is_blank branch then None else Some branch))"
  from assms(1,2) obtain d where r: "r = PyDict d" and d: "dict_mapR ?f kvs = Inr d"
    by (auto simp: res_simps)
  note look = dict_mapR_lookup [OF d assms(3)]
  have inr: "\<exists>w. ?f k v = Inr w" if "(k, v) \<in> set kvs" for k v
    using d that
  proof (induction kvs arbitrary: d)
    case (Cons a kvs)
    then show ?case by (cases a) (auto simp: res_simps split: if_splits)
  qed simp
  have "\<exists>br. filter_tree_with_topic ns v True = Inr br
         \<and> map_of d m = (if is_blank br then None else Some br)"
    if m: "m \<noteq> LEAF_KEY" and v: "map_of kvs m = Some v" for m v
    using inr [OF map_of_in_set [OF v]] m v
    by (cases "filter_tree_with_topic ns v True") (auto simp: look)
  moreover have "\<And>m. map_of kvs m = None \<Longrightarrow> map_of d m = None" by (simp add: look)
  ultimately show ?thesis using r that by blast
qed

lemma filter_literal:
  assumes "n \<noteq> EVERYTHING_CARD" and "n \<noteq> MANY_CARD" and "n \<noteq> LEAF_KEY" and "wf_tree (PyRdd kvs)"
  shows "filter_tree_with_topic (n # ns) (PyRdd kvs) fw =
     (case map_of kvs n of
        None \<Rightarrow> Inr (if ns \<noteq> [] \<and> \<not> is_node_static (last ns) then PyDict [] else PyStr [])
      | Some v \<Rightarrow> if ns = [] then Inr (leaf_or PyNone v []) else filter_tree_with_topic ns v fw)"
proof (cases "map_of kvs n")
  case (Some v)
  then obtain kvs2 where "v = PyRdd kvs2"
    using wf_rdd_child [OF assms(4) Some assms(3)] by (blast dest: wf_rdd_ex)
  with Some assms(1,2) show ?thesis by (simp add: leaf_or_def split: option.split)
qed (use assms in simp)

declare filter_tree_with_topic.simps(2) [simp del]

lemma filter_tree_leaf_aux:
  assumes "wf_tree tree" and "rdd_path topic" and "EVERYTHING_CARD \<notin> set topic"
    and "topic_match topic path" and "LEAF_KEY \<notin> set path" and "b \<noteq> []"
    and "filter_tree_with_topic topic tree fw = Inr r"
  shows "obj_at r (captures topic path) = Some (PyBytes b) \<longleftrightarrow> leaf_at tree path = Some (PyBytes b)"
  using assms
proof (induction topic arbitrary: tree path fw r)
  case (Cons n ns)
  from Cons.prems(1) obtain kvs where t: "tree = PyRdd kvs" by (blast dest: wf_rdd_ex)
  from Cons.prems(4) obtain m ms where path: "path = m # ms" and nm: "n = MANY_CARD \<or> n = m"
    and ms: "topic_match ns ms" by (auto simp: topic_match_Cons)
  have m: "m \<noteq> LEAF_KEY" "LEAF_KEY \<notin> set ms" using Cons.prems(5) by (auto simp: path)
  have child: "wf_tree v" if "map_of kvs m = Some v" for v
    using Cons.prems(1) that m by (auto simp: t dest: wf_rdd_child)
  have ns: "ns \<noteq> [] \<Longrightarrow> rdd_path ns" "EVERYTHING_CARD \<notin> set ns" "n \<noteq> EVERYTHING_CARD"
    using Cons.prems(2,3) by (auto simp: rdd_path_def)
  note IH = Cons.IH [OF child ns(1) ns(2) ms m(2) \<open>b \<noteq> []\<close>]
  consider (many_last) "n = MANY_CARD" "ns = []" | (many) "n = MANY_CARD" "ns \<noteq> []"
    | (lit) "n \<noteq> MANY_CARD" by blast
  then show ?case
  proof cases
    case many_last
    then obtain d where r: "r = PyDict d" and d: "\<And>m. m \<noteq> LEAF_KEY \<Longrightarrow> map_of d m =
      (case leaf_at (PyRdd kvs) [m] of None \<Rightarrow> None
       | Some leaf \<Rightarrow> if py_truthy leaf then Some leaf else None)"
      using filter_many_lastD Cons.prems(1,7) t by blast
    with many_last ms m \<open>b \<noteq> []\<close> show ?thesis
      by (auto simp: t path split: option.splits)
  next
    case many
    then obtain d where r: "r = PyDict d"
      and d: "\<And>m v. m \<noteq> LEAF_KEY \<Longrightarrow> map_of kvs m = Some v \<Longrightarrow>
        \<exists>br. filter_tree_with_topic ns v True = Inr br
           \<and> map_of d m = (if is_blank br then None else Some br)"
      and dN: "\<And>m. map_of kvs m = None \<Longrightarrow> map_of d m = None"
      using filter_manyD [of ns kvs fw r] Cons.prems(1,7) t by (auto simp del: filter_tree_with_topic.simps)
    show ?thesis
    proof (cases "map_of kvs m")
      case None
      with dN many show ?thesis by (simp add: r t path)
    next
      case (Some v)
      with d m(1) obtain br where br: "filter_tree_with_topic ns v True = Inr br"
        and dm: "map_of d m = (if is_blank br then None else Some br)" by blast
      from IH [OF Some many(2) br]
      show ?thesis using many Some dm by (auto simp: r t path dest: blank_obj_at)
    qed
  next
    case lit
    with nm have nm: "n = m" by simp
    have eq: "filter_tree_with_topic (n # ns) (PyRdd kvs) fw =
     (case map_of kvs n of
        None \<Rightarrow> Inr (if ns \<noteq> [] \<and> \<not> is_node_static (last ns) then PyDict [] else PyStr [])
      | Some v \<Rightarrow> if ns = [] then Inr (leaf_or PyNone v []) else filter_tree_with_topic ns v fw)"
      using filter_literal [OF ns(3) lit] m(1) nm Cons.prems(1) t by blast
    show ?thesis
    proof (cases "map_of kvs m")
      case None
      then have "is_blank r" using eq Cons.prems(7) by (auto simp: t nm)
      with None lit show ?thesis by (auto simp: t path nm dest: blank_obj_at)
    next
      case (Some v)
      show ?thesis
      proof (cases "ns = []")
        case True
        with eq Some Cons.prems(7) lit ms show ?thesis
          by (auto simp: t path nm leaf_or_def split: option.splits)
      next
        case False
        with eq Some Cons.prems(7) have "filter_tree_with_topic ns v fw = Inr r"
          by (simp add: t nm)
        from IH [OF Some False this] lit Some show ?thesis by (simp add: t path nm)
      qed
    qed
  qed
qed (simp add: rdd_path_def)

lemma obj_at_leaf:
  "wf_tree t \<Longrightarrow> LEAF_KEY \<notin> set p \<Longrightarrow> obj_at t (p @ [LEAF_KEY]) = leaf_at t p"
proof (induction p arbitrary: t)
  case Nil
  then show ?case by (cases t) (auto split: option.splits)
next
  case (Cons n p)
  then obtain kvs where t: "t = PyRdd kvs" by (blast dest: wf_rdd_ex)
  show ?case
  proof (cases "map_of kvs n")
    case (Some v)
    then have "wf_tree v" using Cons.prems by (auto simp: t dest: wf_rdd_child)
    with Cons.IH [of v] Some Cons.prems(2) show ?thesis by (simp add: t)
  qed (simp add: t)
qed

lemma filter_tree_everything_aux:
  assumes "wf_tree tree" and "LEAF_KEY \<notin> set pre" and "EVERYTHING_CARD \<notin> set pre"
    and "topic_match pre path" and "LEAF_KEY \<notin> set path" and "LEAF_KEY \<notin> set rest"
    and "filter_tree_with_topic (pre @ [EVERYTHING_CARD]) tree fw = Inr r"
  shows "obj_at r (captures pre path @ rest @ [LEAF_KEY]) = Some (PyBytes b)
    \<longleftrightarrow> leaf_at tree (path @ rest) = Some (PyBytes b)"
  using assms
proof (induction pre arbitrary: tree path fw r)
  case Nil
  then show ?case by (simp add: obj_at_leaf filter_tree_with_topic.simps)
next
  case (Cons n ns)
  let ?ns = "ns @ [EVERYTHING_CARD]"
  from Cons.prems(1) obtain kvs where t: "tree = PyRdd kvs" by (blast dest: wf_rdd_ex)
  from Cons.prems(4) obtain m ms where path: "path = m # ms" and nm: "n = MANY_CARD \<or> n = m"
    and ms: "topic_match ns ms" by (auto simp: topic_match_Cons)
  have m: "m \<noteq> LEAF_KEY" "LEAF_KEY \<notin> set ms" using Cons.prems(5) by (auto simp: path)
  have child: "wf_tree v" if "map_of kvs m = Some v" for v
    using Cons.prems(1) that m by (auto simp: t dest: wf_rdd_child)
  have ns: "LEAF_KEY \<notin> set ns" "EVERYTHING_CARD \<notin> set ns" "n \<noteq> EVERYTHING_CARD"
    using Cons.prems(2,3) by auto
  note IH = Cons.IH [OF child ns(1,2) ms m(2) Cons.prems(6)]
  show ?case
  proof (cases "n = MANY_CARD")
    case True
    then obtain d where r: "r = PyDict d"
      and d: "\<And>m v. m \<noteq> LEAF_KEY \<Longrightarrow> map_of kvs m = Some v \<Longrightarrow>
        \<exists>br. filter_tree_with_topic ?ns v True = Inr br
           \<and> map_of d m = (if is_blank br then None else Some br)"
      and dN: "\<And>m. map_of kvs m = None \<Longrightarrow> map_of d m = None"
      using filter_manyD [of ?ns kvs fw r] Cons.prems(1,7) t by auto
    show ?thesis
    proof (cases "map_of kvs m")
      case None
      with dN True show ?thesis by (simp add: r t path)
    next
      case (Some v)
      with d m(1) obtain br where br: "filter_tree_with_topic ?ns v True = Inr br"
        and dm: "map_of d m = (if is_blank br then None else Some br)" by blast
      from IH [OF Some br]
      show ?thesis using True Some dm by (auto simp: r t path dest: blank_obj_at)
    qed
  next
    case False
    with nm have nm: "n = m" by simp
    have eq: "filter_tree_with_topic (n # ?ns) (PyRdd kvs) fw =
     (case map_of kvs n of
        None \<Rightarrow> Inr (if ?ns \<noteq> [] \<and> \<not> is_node_static (last ?ns) then PyDict [] else PyStr [])
      | Some v \<Rightarrow> if ?ns = [] then Inr (leaf_or PyNone v []) else filter_tree_with_topic ?ns v fw)"
      using filter_literal [OF ns(3) False, of kvs] m(1) nm Cons.prems(1) t by blast
    show ?thesis
    proof (cases "map_of kvs m")
      case None
      then have "is_blank r" using eq Cons.prems(7) by (auto simp: t nm)
      with None False show ?thesis by (auto simp: t path nm dest: blank_obj_at)
    next
      case (Some v)
      with eq Cons.prems(7) have "filter_tree_with_topic ?ns v fw = Inr r" by (simp add: t nm)
      from IH [OF Some this] False Some show ?thesis by (simp add: t path nm)
    qed
  qed
qed

section \<open>The properties\<close>

text \<open>
  Filtering never fails on a well-formed tree and a topic without \<open>#\<close>, and the answer is
  exact for payloads: following the keys the wildcards captured leads to a non-empty payload
  exactly when it is the leaf at the matching path.
\<close>

theorem filter_tree_exact:
  assumes "wf_tree tree" and "rdd_path topic" and "EVERYTHING_CARD \<notin> set topic"
  shows "\<exists>r. filter_tree_with_topic topic tree fw = Inr r
    \<and> (\<forall>path b. topic_match topic path \<and> LEAF_KEY \<notin> set path \<and> b \<noteq> [] \<longrightarrow>
         obj_at r (captures topic path) = Some (PyBytes b) \<longleftrightarrow> leaf_at tree path = Some (PyBytes b))"
proof -
  obtain r where r: "filter_tree_with_topic topic tree fw = Inr r"
    using filter_tree_total_aux [OF assms(1,2), of fw] assms(3)
    by (auto split: sum.splits dest: in_set_butlastD)
  with filter_tree_leaf_aux [OF assms _ _ _ r] show ?thesis by auto
qed

definition lamp_tree :: pyobj where
  "lamp_tree = PyRdd [(''a'', PyRdd [(''lamp'', PyRdd [(''/'', PyBytes [49])])]), (''b'', PyRdd [])]"

lemma lamp_tree_wf: "wf_tree lamp_tree"
  by (simp add: lamp_tree_def const_defs)

lemma filter_tree_exact_witness:
  "\<exists>r. filter_tree_with_topic [''+'', ''lamp''] lamp_tree False = Inr r
    \<and> obj_at r [''a''] = Some (PyBytes [49])"
proof -
  have "topic_match [''+'', ''lamp''] [''a'', ''lamp'']" "LEAF_KEY \<notin> set [''a'', ''lamp'']"
    "captures [''+'', ''lamp''] [''a'', ''lamp''] = [''a'']"
    "leaf_at lamp_tree [''a'', ''lamp''] = Some (PyBytes [49])"
    "rdd_path [''+'', ''lamp'']" "EVERYTHING_CARD \<notin> set [''+'', ''lamp'']"
    by (simp_all add: lamp_tree_def const_defs rdd_path_def)
  then show ?thesis using filter_tree_exact [OF lamp_tree_wf, of "[''+'', ''lamp'']" False] by fastforce
qed

text \<open>
  With a trailing \<open>#\<close> the answer holds the whole branch below the matching paths, leaves
  under the leaf key.
\<close>

theorem filter_tree_everything:
  assumes "wf_tree tree" and "LEAF_KEY \<notin> set pre" and "EVERYTHING_CARD \<notin> set pre"
    and "topic_match pre path" and "LEAF_KEY \<notin> set path" and "LEAF_KEY \<notin> set rest"
    and "filter_tree_with_topic (pre @ [EVERYTHING_CARD]) tree fw = Inr r"
  shows "obj_at r (captures pre path @ rest @ [LEAF_KEY]) = Some (PyBytes b)
    \<longleftrightarrow> leaf_at tree (path @ rest) = Some (PyBytes b)"
  using assms by (rule filter_tree_everything_aux)

lemma filter_tree_everything_witness:
  "obj_at lamp_tree ([''a''] @ [''lamp''] @ [LEAF_KEY]) = Some (PyBytes [49])"
proof -
  have "filter_tree_with_topic ([] @ [EVERYTHING_CARD]) lamp_tree False = Inr lamp_tree"
    by (simp add: filter_tree_with_topic.simps)
  from filter_tree_everything [OF lamp_tree_wf _ _ _ _ _ this, of "[]" "[''a'', ''lamp'']" "[49]"]
  show ?thesis by (simp add: lamp_tree_def const_defs)
qed

text \<open>
  Type safety. On a well-formed tree, whatever the topic, the only exception filtering
  raises is the documented one, and only for a topic with a \<open>#\<close> that is not its last node.
\<close>

theorem filter_tree_safe:
  assumes "wf_tree tree" and "rdd_path topic"
  shows "case filter_tree_with_topic topic tree fw of
           Inr r \<Rightarrow> True
         | Inl e \<Rightarrow> e = InvalidEverythingCard \<and> EVERYTHING_CARD \<in> set (butlast topic)"
  using assms by (rule filter_tree_total_aux)

lemma filter_tree_safe_witness:
  "filter_tree_with_topic [''#'', ''lamp''] lamp_tree False = Inl InvalidEverythingCard
   \<and> EVERYTHING_CARD \<in> set (butlast [''#'', ''lamp''])"
proof -
  have "filter_tree_with_topic [''#'', ''lamp''] lamp_tree False = Inl InvalidEverythingCard"
    by (simp add: filter_tree_with_topic.simps const_defs)
  with filter_tree_safe [OF lamp_tree_wf, of "[''#'', ''lamp'']" False] show ?thesis
    by (simp add: rdd_path_def const_defs)
qed

end
