(* ===== verification/Get_Rows.thy ===== *)
theory Get_Rows
  imports Filter_Tree
begin

text \<open>
  protocols/get_applicable_rows.py and protocols/get_everything_as_rows.py: the rows (topic,
  payload, qos) a retained message stands for, its topic's wildcards resolved against the
  retained tree.
\<close>

type_synonym row = "string list \<times> bytes option \<times> int"

section \<open>The code\<close>

text \<open>The \<open>log.error\<close> on a null branch only prints; the branch yields no row.\<close>

function get_everything_as_rows ::
    "string list \<Rightarrow> bytes option \<Rightarrow> int \<Rightarrow> pyobj \<Rightarrow> bool \<Rightarrow> py_error + row list" where
  "get_everything_as_rows topic data qos tree start =
     bindR (py_items tree) (\<lambda>kvs. concat_mapR (\<lambda>(key, val).
       if key = LEAF_KEY then Inr (if \<not> start then [(topic, data, qos)] else [])
       else if val = PyNone then Inr []
       else get_everything_as_rows (topic @ [key]) data qos val False) kvs)"
  by pat_completeness auto
termination
  by (relation "measure (\<lambda>(topic, data, qos, tree, start). size tree)")
     (auto dest: py_items_size)

declare get_everything_as_rows.simps [simp del]

text \<open>
  The loop that looks for a dynamic node in the rest of the topic returns no row when it
  finds one.
\<close>

fun get_applicable_rows ::
    "string list \<Rightarrow> bytes option \<Rightarrow> int \<Rightarrow> string list \<Rightarrow> pyobj \<Rightarrow> bool
     \<Rightarrow> py_error + row list" where
  "get_applicable_rows [] data qos base tree found_wildcard = Inl IndexError"
| "get_applicable_rows (node # next_topic) data qos base tree found_wildcard =
     (if node = EVERYTHING_CARD then
        (if next_topic \<noteq> [] then Inl InvalidEverythingCard
         else get_everything_as_rows base data qos tree True)
      else if node = MANY_CARD then
        bindR (py_items tree) (\<lambda>kvs.
          if next_topic = [] then
            concat_mapR (\<lambda>(key, branch).
              Inr (if key = LEAF_KEY then [] else [(base @ [key], data, qos)])) kvs
          else
            concat_mapR (\<lambda>(key, branch).
              if key = LEAF_KEY then Inr []
              else get_applicable_rows next_topic data qos (base @ [key]) branch True) kvs)
      else if next_topic = [] then Inr [(base @ (node # next_topic), data, qos)]
      else
        bindR (py_get tree node PyNone) (\<lambda>branch.
          if branch = PyNone then
            Inr (if found_wildcard then []
                 else if list_ex (\<lambda>n. \<not> is_node_static n) next_topic then []
                 else [(base @ (node # next_topic), data, qos)])
          else get_applicable_rows next_topic data qos (base @ [node]) branch found_wildcard))"

section \<open>The leaves of a tree\<close>

text \<open>All paths that carry a leaf, in the order of the dicts.\<close>

fun leaf_paths :: "pyobj \<Rightarrow> string list list" where
  "leaf_paths (PyRdd kvs) =
     concat (map (\<lambda>(k, v). if k = LEAF_KEY then [[]] else map ((#) k) (leaf_paths v)) kvs)"
| "leaf_paths obj = []"

lemma leaf_paths_iff:
  "wf_rdd P t \<Longrightarrow> p \<in> set (leaf_paths t) \<longleftrightarrow> LEAF_KEY \<notin> set p \<and> leaf_at t p \<noteq> None"
proof (induction t arbitrary: p rule: leaf_paths.induct)
  case (1 kvs)
  have d: "distinct (dkeys kvs)" using "1.prems" by simp
  show ?case
  proof (cases p)
    case Nil
    then show ?thesis using d by (force split: if_splits)
  next
    case (Cons n ns)
    have "p \<in> set (leaf_paths (PyRdd kvs)) \<longleftrightarrow>
        (\<exists>v. (n, v) \<in> set kvs \<and> n \<noteq> LEAF_KEY \<and> ns \<in> set (leaf_paths v))"
      by (fastforce simp: Cons split: if_splits)
    also have "\<dots> \<longleftrightarrow> (\<exists>v. (n, v) \<in> set kvs \<and> n \<noteq> LEAF_KEY \<and> LEAF_KEY \<notin> set ns \<and> leaf_at v ns \<noteq> None)"
      using "1.IH" "1.prems" by fastforce
    also have "\<dots> \<longleftrightarrow> LEAF_KEY \<notin> set p \<and> leaf_at (PyRdd kvs) p \<noteq> None"
      using d by (auto simp: Cons split: option.splits
          dest: map_of_in_set eq_key_imp_eq_value)
    finally show ?thesis .
  qed
qed auto

lemma distinct_leaf_paths: "wf_rdd P t \<Longrightarrow> distinct (leaf_paths t)"
proof (induction t rule: leaf_paths.induct)
  case (1 kvs)
  have "distinct (map (\<lambda>p. p) (concat (map
      (\<lambda>(k, v). if k = LEAF_KEY then [[]] else map ((#) k) (leaf_paths v)) kvs)))"
    using 1 by (intro distinct_concat_branches [where kf = "\<lambda>p. case p of [] \<Rightarrow> LEAF_KEY | k # _ \<Rightarrow> k"])
      (auto simp: distinct_map split: if_splits)
  then show ?case by simp
qed auto

lemma get_everything_spec:
  "wf_tree t \<Longrightarrow>
   get_everything_as_rows topic data qos t start =
     Inr (map (\<lambda>p. (topic @ p, data, qos))
            (if start then filter (\<lambda>p. p \<noteq> []) (leaf_paths t) else leaf_paths t))"
proof (induction topic data qos t start rule: get_everything_as_rows.induct)
  case (1 topic data qos t start)
  from "1.prems" obtain kvs where t: "t = PyRdd kvs" by (blast dest: wf_rdd_ex)
  define g where "g = (\<lambda>(k, v). if k = LEAF_KEY then (if start then [] else [(topic, data, qos)])
    else map (\<lambda>p. (topic @ k # p, data, qos)) (leaf_paths v))"
  have "concat_mapR (\<lambda>(key, val).
       if key = LEAF_KEY then Inr (if \<not> start then [(topic, data, qos)] else [])
       else if val = PyNone then Inr []
       else get_everything_as_rows (topic @ [key]) data qos val False) kvs = Inr (concat (map g kvs))"
  proof (rule concat_mapR_all_Inr)
    fix x assume x: "x \<in> set kvs"
    obtain k v where kv: "x = (k, v)" by (cases x)
    show "(case x of (key, val) \<Rightarrow>
       if key = LEAF_KEY then Inr (if \<not> start then [(topic, data, qos)] else [])
       else if val = PyNone then Inr []
       else get_everything_as_rows (topic @ [key]) data qos val False) = Inr (g x)"
    proof (cases "k = LEAF_KEY")
      case True
      then show ?thesis by (simp add: kv g_def)
    next
      case False
      then have v: "wf_tree v" "v \<noteq> PyNone" using "1.prems" x by (auto simp: t kv)
      have "get_everything_as_rows (topic @ [k]) data qos v False =
          Inr (map (\<lambda>p. ((topic @ [k]) @ p, data, qos)) (leaf_paths v))"
        using "1.IH" [OF _ x kv [symmetric] False v(2) v(1)] by (simp add: t)
      with False v(2) show ?thesis by (simp add: kv g_def)
    qed
  qed
  then have eq: "get_everything_as_rows topic data qos t start = Inr (concat (map g kvs))"
    by (subst get_everything_as_rows.simps) (simp add: t)
  show ?case
  proof (cases start)
    case True
    then have "map (\<lambda>p. (topic @ p, data, qos)) (filter (\<lambda>p. p \<noteq> []) (leaf_paths t)) =
        concat (map g kvs)"
      unfolding t leaf_paths.simps filter_concat map_concat map_map
      by (intro arg_cong [where f = concat] map_cong refl)
         (auto simp: g_def filter_map comp_def)
    with True eq show ?thesis by simp
  next
    case False
    then have "map (\<lambda>p. (topic @ p, data, qos)) (leaf_paths t) = concat (map g kvs)"
      unfolding t leaf_paths.simps map_concat map_map
      by (intro arg_cong [where f = concat] map_cong refl) (auto simp: g_def comp_def)
    with False eq show ?thesis by simp
  qed
qed

section \<open>The rows of a topic\<close>

fun branch_at :: "pyobj \<Rightarrow> string list \<Rightarrow> pyobj option" where
  "branch_at t [] = Some t"
| "branch_at (PyRdd kvs) (n # ns) =
     (case map_of kvs n of None \<Rightarrow> None | Some v \<Rightarrow> branch_at v ns)"
| "branch_at obj (n # ns) = None"

text \<open>
  A path is updated by a message to a topic when it matches the topic and either the topic is
  static or the branch the wildcards have to be resolved in exists: the path itself when the
  topic ends in a wildcard, its parent otherwise. \<open>fw\<close> says that a wildcard has been passed.
\<close>

definition applicable :: "bool \<Rightarrow> string list \<Rightarrow> pyobj \<Rightarrow> string list \<Rightarrow> bool" where
  "applicable fw topic tree p \<longleftrightarrow>
     topic_match topic p \<and> LEAF_KEY \<notin> set p \<and>
     (list_all is_node_static topic \<and> \<not> fw
      \<or> branch_at tree (if last topic = MANY_CARD then p else butlast p) \<noteq> None)"

lemma topic_match_static:
  "list_all is_node_static topic \<Longrightarrow> topic_match topic p \<longleftrightarrow> p = topic"
proof (induction topic arbitrary: p)
  case (Cons f fs)
  show ?case
  proof (cases p)
    case (Cons n ns)
    then show ?thesis
      using Cons.IH Cons.prems by simp (metis is_node_static_simps(1))
  qed simp
qed simp

lemma applicable_many:
  "ns \<noteq> [] \<Longrightarrow> applicable fw (MANY_CARD # ns) (PyRdd kvs) p \<longleftrightarrow>
     (\<exists>k v q. p = k # q \<and> k \<noteq> LEAF_KEY \<and> map_of kvs k = Some v \<and> applicable True ns v q)"
  by (cases p) (auto simp: applicable_def split: option.splits dest: topic_match_length)

lemma applicable_literal:
  "ns \<noteq> [] \<Longrightarrow> n \<noteq> MANY_CARD \<Longrightarrow> n \<noteq> EVERYTHING_CARD \<Longrightarrow> n \<noteq> LEAF_KEY \<Longrightarrow>
   map_of kvs n = Some v \<Longrightarrow>
   applicable fw (n # ns) (PyRdd kvs) p \<longleftrightarrow> (\<exists>q. p = n # q \<and> applicable fw ns v q)"
  by (cases p) (auto simp: applicable_def is_node_static_def dest: topic_match_length)

lemma applicable_missing:
  "ns \<noteq> [] \<Longrightarrow> n \<noteq> MANY_CARD \<Longrightarrow> map_of kvs n = None \<Longrightarrow>
   applicable fw (n # ns) (PyRdd kvs) p \<longleftrightarrow>
     \<not> fw \<and> list_all is_node_static (n # ns) \<and> LEAF_KEY \<notin> set (n # ns) \<and> p = n # ns"
proof -
  assume "ns \<noteq> []" and "n \<noteq> MANY_CARD" and "map_of kvs n = None"
  then have "branch_at (PyRdd kvs) (if last (n # ns) = MANY_CARD then p else butlast p) = None"
    if "topic_match (n # ns) p"
    using that by (cases p) (auto dest: topic_match_length)
  then show ?thesis
    unfolding applicable_def using topic_match_static [of "n # ns" p] by metis
qed

text \<open>One level of each of the two recursive branches.\<close>

lemma get_rows_many:
  assumes ns: "ns \<noteq> []" and dist: "distinct (dkeys kvs)"
    and step: "\<And>k v. (k, v) \<in> set kvs \<Longrightarrow> k \<noteq> LEAF_KEY \<Longrightarrow>
      \<exists>rows. get_applicable_rows ns data qos (base @ [k]) v True = Inr rows
        \<and> set rows = {((base @ [k]) @ q, data, qos) | q. R v q} \<and> distinct (map fst rows)"
  shows "\<exists>rows. get_applicable_rows (MANY_CARD # ns) data qos base (PyRdd kvs) fw = Inr rows
    \<and> set rows = {(base @ k # q, data, qos) | k v q. (k, v) \<in> set kvs \<and> k \<noteq> LEAF_KEY \<and> R v q}
    \<and> distinct (map fst rows)"
proof -
  let ?f = "\<lambda>(key, branch). if key = LEAF_KEY then Inr []
    else get_applicable_rows ns data qos (base @ [key]) branch True"
  let ?g = "\<lambda>x. projr (?f x)"
  have f: "\<exists>rows. ?f (k, v) = Inr rows
      \<and> set rows = (if k = LEAF_KEY then {} else {(base @ k # q, data, qos) | q. R v q})
      \<and> distinct (map fst rows)" if kv: "(k, v) \<in> set kvs" for k v
    using step [OF kv] by (cases "k = LEAF_KEY") auto
  have eq: "concat_mapR ?f kvs = Inr (concat (map ?g kvs))"
    by (rule concat_mapR_projr) (use f in fast)
  have "distinct (map fst (concat (map ?g kvs)))"
    by (rule distinct_concat_branches [OF dist, where kf = "\<lambda>p. p ! length base"])
       (use f in \<open>fastforce split: if_splits\<close>)
  moreover have "set (concat (map ?g kvs)) =
      {(base @ k # q, data, qos) | k v q. (k, v) \<in> set kvs \<and> k \<noteq> LEAF_KEY \<and> R v q}"
  proof -
    have g: "set (?g (k, v)) = (if k = LEAF_KEY then {} else
          {(base @ k # p, data, qos) | p. R v p})" if "(k, v) \<in> set kvs" for k v
      using f [OF that] by (auto simp del: split_paired_Ex)
    have "x \<in> set (concat (map ?g kvs)) \<longleftrightarrow> (\<exists>k v q. (k, v) \<in> set kvs \<and> k \<noteq> LEAF_KEY
        \<and> x = (base @ k # q, data, qos) \<and> R v q)" for x
    proof -
      have "x \<in> set (concat (map ?g kvs)) \<longleftrightarrow> (\<exists>k v. (k, v) \<in> set kvs \<and> x \<in> set (?g (k, v)))"
        by (rule set_concat_pairs)
      also have "\<dots> \<longleftrightarrow> (\<exists>k v. (k, v) \<in> set kvs \<and> x \<in> (if k = LEAF_KEY then {} else
          {(base @ k # p, data, qos) | p. R v p}))"
        using g by blast
      finally show ?thesis by (simp split: if_splits) blast
    qed
    then show ?thesis by blast
  qed
  ultimately show ?thesis using ns eq by simp
qed

lemma get_rows_literal:
  assumes "ns \<noteq> []" and "n \<noteq> MANY_CARD" and "n \<noteq> EVERYTHING_CARD" and "n \<noteq> LEAF_KEY"
    and "wf_tree (PyRdd kvs)"
  shows "get_applicable_rows (n # ns) data qos base (PyRdd kvs) fw =
      (case map_of kvs n of
         None \<Rightarrow> Inr (if fw \<or> list_ex (\<lambda>n. \<not> is_node_static n) ns then []
                     else [(base @ (n # ns), data, qos)])
       | Some v \<Rightarrow> get_applicable_rows ns data qos (base @ [n]) v fw)"
proof (cases "map_of kvs n")
  case (Some v)
  then obtain kvs2 where "v = PyRdd kvs2"
    using wf_rdd_child [OF assms(5) Some assms(4)] by (blast dest: wf_rdd_ex)
  with Some show ?thesis using assms by simp
qed (use assms in auto)

lemma get_rows_many_last:
  assumes "distinct (dkeys kvs)"
  shows "\<exists>rows. get_applicable_rows [MANY_CARD] data qos base (PyRdd kvs) fw = Inr rows
    \<and> set rows = {(base @ p, data, qos) | p. applicable fw [MANY_CARD] (PyRdd kvs) p}
    \<and> distinct (map fst rows)"
proof -
  let ?g = "\<lambda>(key, branch). if key = LEAF_KEY then [] else [(base @ [key], data, qos)]"
  have "distinct (map fst (concat (map ?g kvs)))"
    by (rule distinct_concat_branches [OF assms, where kf = "\<lambda>p. p ! length base"]) auto
  moreover have "applicable fw [MANY_CARD] (PyRdd kvs) p \<longleftrightarrow>
      (\<exists>k v. p = [k] \<and> k \<noteq> LEAF_KEY \<and> (k, v) \<in> set kvs)" for p
    using assms by (cases p) (auto simp: applicable_def split: option.splits dest: map_of_in_set)
  then have "set (concat (map ?g kvs)) = {(base @ p, data, qos) | p. applicable fw [MANY_CARD] (PyRdd kvs) p}"
    by (fastforce split: if_splits)
  moreover have "concat_mapR (\<lambda>(key, branch).
      Inr (if key = LEAF_KEY then [] else [(base @ [key], data, qos)])) kvs = Inr (concat (map ?g kvs))"
    by (rule concat_mapR_all_Inr) auto
  ultimately show ?thesis by (intro exI [of _ "concat (map ?g kvs)"]) simp
qed

lemma get_rows_missing:
  assumes "ns \<noteq> []" and "n \<noteq> MANY_CARD" and "n \<noteq> EVERYTHING_CARD" and "n \<noteq> LEAF_KEY" and "LEAF_KEY \<notin> set ns"
    and "map_of kvs n = None"
  shows "{(base @ p, data, qos) | p. applicable fw (n # ns) (PyRdd kvs) p} =
    set (if fw \<or> list_ex (\<lambda>n. \<not> is_node_static n) ns then [] else [(base @ (n # ns), data, qos)])"
proof -
  have "is_node_static n" using assms(2,3) by (simp add: is_node_static_def)
  moreover have "list_ex (\<lambda>n. \<not> is_node_static n) ns \<longleftrightarrow> \<not> list_all is_node_static ns"
    by (simp add: list_ex_iff list_all_iff)
  ultimately show ?thesis unfolding applicable_missing [OF assms(1,2,6)] using assms(4,5) by simp
qed

lemma get_applicable_rows_spec:
  assumes "wf_tree tree" and "rdd_path topic" and "EVERYTHING_CARD \<notin> set topic"
  shows "\<exists>rows. get_applicable_rows topic data qos base tree fw = Inr rows
    \<and> set rows = {(base @ p, data, qos) | p. applicable fw topic tree p}
    \<and> distinct (map fst rows)"
  using assms
proof (induction topic arbitrary: tree base fw)
  case (Cons n ns)
  from Cons.prems(1) obtain kvs where t: "tree = PyRdd kvs" by (blast dest: wf_rdd_ex)
  have dist: "distinct (dkeys kvs)" using Cons.prems(1) by (simp add: t)
  have n: "n \<noteq> EVERYTHING_CARD" "n \<noteq> LEAF_KEY" "LEAF_KEY \<notin> set ns" "EVERYTHING_CARD \<notin> set ns"
    and ns: "ns \<noteq> [] \<Longrightarrow> rdd_path ns"
    using Cons.prems(2,3) by (auto simp: rdd_path_def)
  consider (many_last) "n = MANY_CARD" "ns = []" | (many) "n = MANY_CARD" "ns \<noteq> []"
    | (lit_last) "n \<noteq> MANY_CARD" "ns = []" | (lit) "n \<noteq> MANY_CARD" "ns \<noteq> []" by blast
  then show ?case
  proof cases
    case many_last
    with get_rows_many_last [OF dist, of data qos base fw] show ?thesis by (simp only: t)
  next
    case many
    have app: "applicable fw (n # ns) (PyRdd kvs) p \<longleftrightarrow>
        (\<exists>k v q. (k, v) \<in> set kvs \<and> k \<noteq> LEAF_KEY \<and> p = k # q \<and> applicable True ns v q)" for p
      unfolding many(1) applicable_many [OF many(2)] using dist by auto
    have "\<exists>rows. get_applicable_rows (MANY_CARD # ns) data qos base (PyRdd kvs) fw = Inr rows
      \<and> set rows = {(base @ k # q, data, qos) | k v q.
          (k, v) \<in> set kvs \<and> k \<noteq> LEAF_KEY \<and> applicable True ns v q}
      \<and> distinct (map fst rows)"
    proof (rule get_rows_many [OF many(2) dist])
      fix k v assume "(k, v) \<in> set kvs" and "k \<noteq> LEAF_KEY"
      then have "wf_tree v" using Cons.prems(1) by (auto simp: t)
      from Cons.IH [OF this ns [OF many(2)] n(4), of "base @ [k]" True]
      show "\<exists>rows. get_applicable_rows ns data qos (base @ [k]) v True = Inr rows
        \<and> set rows = {((base @ [k]) @ q, data, qos) | q. applicable True ns v q}
        \<and> distinct (map fst rows)" .
    qed
    moreover have "{(base @ k # q, data, qos) | k v q.
          (k, v) \<in> set kvs \<and> k \<noteq> LEAF_KEY \<and> applicable True ns v q} =
        {(base @ p, data, qos) | p. applicable fw (n # ns) (PyRdd kvs) p}"
      unfolding app by blast
    ultimately show ?thesis using many(1) by (simp only: t)
  next
    case lit_last
    then have "{(base @ p, data, qos) | p. applicable fw [n] (PyRdd kvs) p} = {(base @ [n], data, qos)}"
      using n by (auto simp: applicable_def topic_match_Cons)
    with lit_last n show ?thesis by (simp add: t)
  next
    case lit
    note eq = get_rows_literal [OF lit(2,1) n(1,2) Cons.prems(1) [unfolded t], of data qos base fw]
    show ?thesis
    proof (cases "map_of kvs n")
      case None
      show ?thesis unfolding t eq None get_rows_missing [OF lit(2,1) n(1-3) None] by simp
    next
      case (Some v)
      then have v: "wf_tree v" using Cons.prems(1) n(2) by (auto simp: t dest: wf_rdd_child)
      have "{((base @ [n]) @ p, data, qos) | p. applicable fw ns v p} =
          {(base @ p, data, qos) | p. applicable fw (n # ns) (PyRdd kvs) p}"
        using applicable_literal [OF lit(2,1) n(1,2) Some] by auto
      with Cons.IH [OF v ns [OF lit(2)] n(4), of "base @ [n]" fw] show ?thesis
        by (simp add: eq Some t del: get_applicable_rows.simps)
    qed
  qed
qed (simp add: rdd_path_def)

text \<open>
  With a trailing \<^const>\<open>EVERYTHING_CARD\<close>: the leaves strictly below the matching paths.
\<close>

definition below :: "string list \<Rightarrow> pyobj \<Rightarrow> string list \<Rightarrow> bool" where
  "below pre tree p \<longleftrightarrow> LEAF_KEY \<notin> set p \<and> leaf_at tree p \<noteq> None
     \<and> (\<exists>q rest. p = q @ rest \<and> topic_match pre q \<and> rest \<noteq> [])"

lemma below_Nil: "below [] tree p \<longleftrightarrow> LEAF_KEY \<notin> set p \<and> leaf_at tree p \<noteq> None \<and> p \<noteq> []"
  by (auto simp: below_def)

lemma below_Cons:
  "below (n # ns) (PyRdd kvs) p \<longleftrightarrow>
     (\<exists>k v q. p = k # q \<and> k \<noteq> LEAF_KEY \<and> (n = MANY_CARD \<or> n = k) \<and> map_of kvs k = Some v
        \<and> below ns v q)"
proof (cases p)
  case (Cons k q)
  have "(\<exists>r rest. k # q = r @ rest \<and> topic_match (n # ns) r \<and> rest \<noteq> []) \<longleftrightarrow>
      (n = MANY_CARD \<or> n = k) \<and> (\<exists>r rest. q = r @ rest \<and> topic_match ns r \<and> rest \<noteq> [])"
    by (auto simp: topic_match_Cons) (metis append_Cons topic_match_simps(2))+
  then show ?thesis by (auto simp: Cons below_def split: option.splits)
qed (auto simp: below_def)

lemma get_everything_rows:
  assumes "wf_tree tree"
  shows "\<exists>rows. get_everything_as_rows base data qos tree True = Inr rows
    \<and> set rows = {(base @ p, data, qos) | p. below [] tree p} \<and> distinct (map fst rows)"
  using assms distinct_leaf_paths [OF assms]
  by (auto simp: get_everything_spec below_Nil leaf_paths_iff distinct_map inj_on_def)

lemma get_applicable_rows_everything:
  assumes "wf_tree tree" and "LEAF_KEY \<notin> set pre" and "EVERYTHING_CARD \<notin> set pre"
  shows "\<exists>rows. get_applicable_rows (pre @ [EVERYTHING_CARD]) data qos base tree fw = Inr rows
    \<and> set rows = {(base @ p, data, qos) | p. below pre tree p} \<and> distinct (map fst rows)"
  using assms
proof (induction pre arbitrary: tree base fw)
  case Nil
  then show ?case using get_everything_rows [of tree base data qos] by simp
next
  case (Cons n pre)
  let ?ns = "pre @ [EVERYTHING_CARD]"
  from Cons.prems(1) obtain kvs where t: "tree = PyRdd kvs" by (blast dest: wf_rdd_ex)
  have dist: "distinct (dkeys kvs)" using Cons.prems(1) by (simp add: t)
  have n: "n \<noteq> EVERYTHING_CARD" "n \<noteq> LEAF_KEY" "LEAF_KEY \<notin> set pre" "EVERYTHING_CARD \<notin> set pre"
    using Cons.prems(2,3) by auto
  show ?case
  proof (cases "n = MANY_CARD")
    case True
    have bel: "below (n # pre) (PyRdd kvs) p \<longleftrightarrow>
        (\<exists>k v q. (k, v) \<in> set kvs \<and> k \<noteq> LEAF_KEY \<and> p = k # q \<and> below pre v q)" for p
      using dist by (auto simp: below_Cons True)
    have "\<exists>rows. get_applicable_rows (MANY_CARD # ?ns) data qos base (PyRdd kvs) fw = Inr rows
      \<and> set rows = {(base @ k # q, data, qos) | k v q.
          (k, v) \<in> set kvs \<and> k \<noteq> LEAF_KEY \<and> below pre v q}
      \<and> distinct (map fst rows)"
    proof (rule get_rows_many [OF _ dist])
      fix k v assume "(k, v) \<in> set kvs" and "k \<noteq> LEAF_KEY"
      then have "wf_tree v" using Cons.prems(1) by (auto simp: t)
      from Cons.IH [OF this n(3,4), of "base @ [k]" True]
      show "\<exists>rows. get_applicable_rows ?ns data qos (base @ [k]) v True = Inr rows
        \<and> set rows = {((base @ [k]) @ q, data, qos) | q. below pre v q} \<and> distinct (map fst rows)" .
    qed simp
    moreover have "{(base @ k # q, data, qos) | k v q.
          (k, v) \<in> set kvs \<and> k \<noteq> LEAF_KEY \<and> below pre v q} =
        {(base @ p, data, qos) | p. below (n # pre) (PyRdd kvs) p}"
      unfolding bel by blast
    ultimately show ?thesis using True by (simp only: t append_Cons)
  next
    case False
    have eq: "get_applicable_rows (n # ?ns) data qos base (PyRdd kvs) fw =
      (case map_of kvs n of None \<Rightarrow> Inr []
       | Some v \<Rightarrow> get_applicable_rows ?ns data qos (base @ [n]) v fw)"
      using get_rows_literal [OF _ False n(1,2) Cons.prems(1) [unfolded t], of ?ns data qos base fw]
      by (simp split: option.split)
    show ?thesis
    proof (cases "map_of kvs n")
      case None
      then show ?thesis
        using False by (simp add: t eq below_Cons del: get_applicable_rows.simps)
    next
      case (Some v)
      then have v: "wf_tree v" using Cons.prems(1) n(2) by (auto simp: t dest: wf_rdd_child)
      have "{((base @ [n]) @ p, data, qos) | p. below pre v p} =
          {(base @ p, data, qos) | p. below (n # pre) (PyRdd kvs) p}"
        using False n(2) Some by (auto simp: below_Cons)
      with Cons.IH [OF v n(3,4), of "base @ [n]" fw] show ?thesis
        by (simp add: eq Some t del: get_applicable_rows.simps)
    qed
  qed
qed

section \<open>The properties\<close>

text \<open>
  Resolving a topic without \<open>#\<close> against a well-formed tree never fails and gives exactly
  the applicable paths, one row each with the payload and quality of service of the message.
\<close>

theorem get_applicable_exact:
  assumes "wf_tree tree" and "rdd_path topic" and "EVERYTHING_CARD \<notin> set topic"
  shows "\<exists>rows. get_applicable_rows topic data qos base tree fw = Inr rows
    \<and> set rows = {(base @ p, data, qos) | p. applicable fw topic tree p}
    \<and> distinct (map fst rows)"
  using assms by (rule get_applicable_rows_spec)

lemma get_applicable_exact_witness:
  "\<exists>rows. get_applicable_rows [''+'', ''lamp''] (Some [1]) 2 [] lamp_tree False = Inr rows
    \<and> ([''b'', ''lamp''], Some [1], 2) \<in> set rows \<and> distinct (map fst rows)"
proof -
  have "rdd_path [''+'', ''lamp'']" "EVERYTHING_CARD \<notin> set [''+'', ''lamp'']"
    "applicable False [''+'', ''lamp''] lamp_tree [''b'', ''lamp'']"
    by (simp_all add: lamp_tree_def const_defs rdd_path_def applicable_def)
  then show ?thesis
    using get_applicable_exact [OF lamp_tree_wf, of "[''+'', ''lamp'']" "Some [1]" 2 "[]" False]
    by (auto simp del: get_applicable_rows.simps)
qed

text \<open>
  With a trailing \<open>#\<close> the rows are exactly the leaves strictly below the paths that match
  the rest of the topic, one row each.
\<close>

theorem get_applicable_everything:
  assumes "wf_tree tree" and "LEAF_KEY \<notin> set pre" and "EVERYTHING_CARD \<notin> set pre"
  shows "\<exists>rows. get_applicable_rows (pre @ [EVERYTHING_CARD]) data qos base tree fw = Inr rows
    \<and> set rows = {(base @ p, data, qos) | p. below pre tree p} \<and> distinct (map fst rows)"
  using assms by (rule get_applicable_rows_everything)

lemma get_applicable_everything_witness:
  "\<exists>rows. get_applicable_rows ([''a''] @ [EVERYTHING_CARD]) None 0 [] lamp_tree False = Inr rows
    \<and> ([''a'', ''lamp''], None, 0) \<in> set rows"
proof -
  have "LEAF_KEY \<notin> set [''a'']" "EVERYTHING_CARD \<notin> set [''a'']" "below [''a''] lamp_tree [''a'', ''lamp'']"
    by (simp_all add: lamp_tree_def const_defs below_Cons below_Nil)
  then show ?thesis
    using get_applicable_everything [OF lamp_tree_wf, of "[''a'']" None 0 "[]" False]
    by (auto simp del: get_applicable_rows.simps)
qed

end
