(* ===== verification/Json.thy ===== *)
theory Json
  imports Py_Values
begin

text \<open>
  protocols/stringify.py: JSON output, with the encoder's hook that turns bytes into text.
  The standard library's encoder is modelled with the defaults the code uses: ASCII output
  with escapes, separators \<open>, \<close> and \<open>: \<close>.
\<close>

section \<open>Code points\<close>

abbreviation octet :: "char \<Rightarrow> nat" where
  "octet c \<equiv> of_char c"

text \<open>The code points of a text from its UTF-8 form.\<close>

fun code_points :: "string \<Rightarrow> nat list" where
  "code_points [] = []"
| "code_points (c # cs) =
     (if octet c < 0x80 then octet c # code_points cs
      else if octet c < 0xE0 then
        (case cs of d # r \<Rightarrow> (octet c mod 32 * 64 + octet d mod 64) # code_points r | _ \<Rightarrow> [])
      else if octet c < 0xF0 then
        (case cs of
           d # e # r \<Rightarrow>
             (octet c mod 16 * 4096 + octet d mod 64 * 64 + octet e mod 64) # code_points r
         | _ \<Rightarrow> [])
      else
        (case cs of
           d # e # f # r \<Rightarrow>
             (octet c mod 8 * 262144 + octet d mod 64 * 4096 + octet e mod 64 * 64 + octet f mod 64)
               # code_points r
         | _ \<Rightarrow> []))"

section \<open>Text of values\<close>

definition hex_digit :: "nat \<Rightarrow> char" where
  "hex_digit n = (if n < 10 then char_of (48 + n) else char_of (87 + n))"

definition hex4 :: "nat \<Rightarrow> string" where
  "hex4 n = map hex_digit [n div 4096 mod 16, n div 256 mod 16, n div 16 mod 16, n mod 16]"

definition json_escape :: "nat \<Rightarrow> string" where
  "json_escape n =
     (if n = 92 then [char_of (92::nat), char_of (92::nat)]
      else if n = 34 then [char_of (92::nat), char_of (34::nat)]
      else if 32 \<le> n \<and> n \<le> 126 then [char_of n]
      else char_of (92::nat) #
        (if n = 10 then ''n'' else if n = 13 then ''r'' else if n = 9 then ''t''
         else if n = 12 then ''f'' else if n = 8 then ''b''
         else if n < 0x10000 then CHR ''u'' # hex4 n
         else (let m = n - 0x10000
               in CHR ''u'' # hex4 (0xD800 + m div 1024 mod 1024)
                  @ char_of (92::nat) # CHR ''u'' # hex4 (0xDC00 + m mod 1024))))"

definition json_str :: "string \<Rightarrow> string" where
  "json_str s = char_of (34::nat) # concat (map json_escape (code_points s)) @ [char_of (34::nat)]"

fun show_nat :: "nat \<Rightarrow> string" where
  "show_nat n = (if n < 10 then [char_of (48 + n)]
                 else show_nat (n div 10) @ [char_of (48 + n mod 10)])"

declare show_nat.simps [simp del]

definition show_int :: "int \<Rightarrow> string" where
  "show_int i = (if i < 0 then CHR ''-'' # show_nat (nat (- i)) else show_nat (nat i))"

fun join_str :: "string \<Rightarrow> string list \<Rightarrow> string" where
  "join_str sep [] = []"
| "join_str sep [w] = w"
| "join_str sep (w # v # ws) = w @ sep @ join_str sep (v # ws)"

section \<open>The encoder\<close>

text \<open>The hook \<open>OutgoingMessageJSONEncoder.default\<close>, asked for objects JSON has no form for.\<close>

fun encoder_default :: "pyobj \<Rightarrow> py_error + string" where
  "encoder_default (PyBytes b) = py_decode b"
| "encoder_default obj = Inl TypeError"

function json_encode :: "pyobj \<Rightarrow> py_error + string" where
  "json_encode PyNone = Inr ''null''"
| "json_encode (PyBool b) = Inr (if b then ''true'' else ''false'')"
| "json_encode (PyInt i) = Inr (show_int i)"
| "json_encode (PyFloat f) = Inr f"
| "json_encode (PyStr s) = Inr (json_str s)"
| "json_encode (PyBytes b) = bindR (encoder_default (PyBytes b)) (\<lambda>s. Inr (json_str s))"
| "json_encode (PyList xs) =
     bindR (mapR json_encode xs) (\<lambda>ps. Inr (''['' @ join_str '', '' ps @ '']''))"
| "json_encode (PyDict kvs) =
     bindR (mapR (\<lambda>(k, v). bindR (json_encode v) (\<lambda>s. Inr (json_str k @ '': '' @ s))) kvs)
       (\<lambda>ps. Inr (''{'' @ join_str '', '' ps @ ''}''))"
| "json_encode (PyRdd kvs) =
     bindR (mapR (\<lambda>(k, v). bindR (json_encode v) (\<lambda>s. Inr (json_str k @ '': '' @ s))) kvs)
       (\<lambda>ps. Inr (''{'' @ join_str '', '' ps @ ''}''))"
  by pat_completeness auto
termination
proof (relation "measure size")
  show "\<And>xs x. x \<in> set xs \<Longrightarrow> (x, PyList xs) \<in> measure size"
    by (simp add: less_Suc_eq_le size_list_estimation')
qed (auto dest: dict_size)

definition stringify :: "pyobj \<Rightarrow> py_error + bytes" where
  "stringify tree_item = bindR (json_encode tree_item) py_encode"

section \<open>What the encoder sees\<close>

text \<open>
  JSON forgets the class of a dict, and the hook turns bytes into the text they decode to:
  \<open>jsonify\<close> is the plain object an encoded one stands for.
\<close>

fun jsonify :: "pyobj \<Rightarrow> pyobj" where
  "jsonify (PyBytes b) = PyStr (raw_str b)"
| "jsonify (PyList xs) = PyList (map jsonify xs)"
| "jsonify (PyDict kvs) = PyDict (map (\<lambda>(k, v). (k, jsonify v)) kvs)"
| "jsonify (PyRdd kvs) = PyDict (map (\<lambda>(k, v). (k, jsonify v)) kvs)"
| "jsonify obj = obj"

fun all_bytes_valid :: "pyobj \<Rightarrow> bool" where
  "all_bytes_valid (PyBytes b) = utf8_valid b"
| "all_bytes_valid (PyList xs) = (\<forall>x\<in>set xs. all_bytes_valid x)"
| "all_bytes_valid (PyDict kvs) = (\<forall>x\<in>set kvs. all_bytes_valid (snd x))"
| "all_bytes_valid (PyRdd kvs) = (\<forall>x\<in>set kvs. all_bytes_valid (snd x))"
| "all_bytes_valid obj = True"

lemma mapR_map: "mapR f (map g xs) = mapR (\<lambda>x. f (g x)) xs"
  by (induction xs) auto

lemma json_encode_jsonify: "all_bytes_valid obj \<Longrightarrow> json_encode (jsonify obj) = json_encode obj"
proof (induction obj rule: json_encode.induct)
  case (7 xs)
  then have "mapR (\<lambda>x. json_encode (jsonify x)) xs = mapR json_encode xs"
    by (intro mapR_cong) auto
  then show ?case by (simp add: mapR_map)
next
  case (8 kvs)
  then have "mapR (\<lambda>x. bindR (json_encode (jsonify (snd x))) (\<lambda>s. Inr (json_str (fst x) @ '': '' @ s))) kvs
      = mapR (\<lambda>x. bindR (json_encode (snd x)) (\<lambda>s. Inr (json_str (fst x) @ '': '' @ s))) kvs"
    by (intro mapR_cong) auto
  then show ?case by (simp add: mapR_map case_prod_beta')
next
  case (9 kvs)
  then have "mapR (\<lambda>x. bindR (json_encode (jsonify (snd x))) (\<lambda>s. Inr (json_str (fst x) @ '': '' @ s))) kvs
      = mapR (\<lambda>x. bindR (json_encode (snd x)) (\<lambda>s. Inr (json_str (fst x) @ '': '' @ s))) kvs"
    by (intro mapR_cong) auto
  then show ?case by (simp add: mapR_map case_prod_beta')
qed (auto simp: py_decode_def)

section \<open>Output is ASCII\<close>

definition ascii :: "string \<Rightarrow> bool" where
  "ascii s \<longleftrightarrow> (\<forall>c\<in>set s. octet c < 128)"

lemma ascii_simps [simp]:
  "ascii []" "ascii (c # s) \<longleftrightarrow> octet c < 128 \<and> ascii s" "ascii (s @ t) \<longleftrightarrow> ascii s \<and> ascii t"
  by (auto simp: ascii_def)

lemma ascii_concat: "(\<And>s. s \<in> set ss \<Longrightarrow> ascii s) \<Longrightarrow> ascii (concat ss)"
  by (auto simp: ascii_def)

lemma ascii_join: "ascii sep \<Longrightarrow> (\<And>s. s \<in> set ss \<Longrightarrow> ascii s) \<Longrightarrow> ascii (join_str sep ss)"
  by (induction sep ss rule: join_str.induct) auto

lemma ascii_valid: "ascii s \<Longrightarrow> utf8_valid (raw_bytes s)"
proof (induction s)
  case (Cons c s)
  then have "char_byte c \<le> 0x7F"
    by (simp add: char_byte_def word_le_nat_alt unat_of_nat)
  with Cons show ?case by (simp add: raw_bytes_def)
qed (simp add: raw_bytes_def)

lemma hex_digit_ascii: "n < 16 \<Longrightarrow> octet (hex_digit n) < 128"
  by (simp add: hex_digit_def)

lemma hex4_ascii [simp]: "ascii (hex4 n)"
  by (simp add: hex4_def hex_digit_ascii)

lemma json_escape_ascii: "ascii (json_escape n)"
  by (simp add: json_escape_def Let_def)

lemma json_str_ascii [simp]: "ascii (json_str s)"
  by (auto simp: json_str_def intro!: ascii_concat json_escape_ascii)

lemma stringify_ascii: "json_encode obj = Inr s \<Longrightarrow> ascii s \<Longrightarrow> stringify obj = Inr (raw_bytes s)"
  by (simp add: stringify_def py_encode_def ascii_valid)

end
