(* ===== verification/Create_Messages.thy ===== *)
theory Create_Messages
  imports Get_Rows Json
begin

text \<open>
  protocols/create_messages_for_subscriptions.py: the message loop's core. One pass over the
  subscription tree, with the rows sorted by node at every level, builds one message per
  subscription that any of the rows matches.
\<close>

section \<open>The code\<close>

text \<open>
  The walk \<open>ref = ref[ref_key]\<close> through the captured nodes and the final store. Without a
  captured node the store goes to the helper list and the tree is left as it is. The leaves
  met on the way are \<open>None\<close> or bytes, which take no text subscript.
\<close>

fun set_path :: "string list \<Rightarrow> pyobj \<Rightarrow> pyobj \<Rightarrow> py_error + pyobj" where
  "set_path [] data ref = Inr ref"
| "set_path [ref_key] data (PyRdd kvs) = Inr (PyRdd (AList.update ref_key data kvs))"
| "set_path (ref_key # k # ks) data (PyRdd kvs) =
     (let (r, kvs1) = rdd_getitem PyNone ref_key kvs
      in bindR (set_path (k # ks) data r) (\<lambda>r'. Inr (PyRdd (AList.update ref_key r' kvs1))))"
| "set_path path data ref = Inl TypeError"

definition wild_nodes :: "string list \<Rightarrow> string list \<Rightarrow> string list" where
  "wild_nodes base topic = map snd (filter (\<lambda>x. \<not> is_node_static (fst x)) (zip base topic))"

definition build_message_data ::
    "row list \<Rightarrow> string list \<Rightarrow> bool \<Rightarrow> py_error + bytes option" where
  "build_message_data leaf_rows base wildcards =
     (if wildcards then
        bindR (foldR (\<lambda>tree row. set_path (wild_nodes base (fst row)) (obj_of_data (fst (snd row))) tree)
                 (PyRdd []) leaf_rows)
          (\<lambda>tree. bindR (stringify tree) (\<lambda>s. Inr (Some s)))
      else if leaf_rows = [] then Inl IndexError
      else Inr (fst (snd (last leaf_rows))))"

text \<open>The sorting loop: rows by their node at this depth, and the rows that end here.\<close>

definition group_step ::
    "nat \<Rightarrow> (string \<times> row list) list \<times> row list \<Rightarrow> row \<Rightarrow> (string \<times> row list) list \<times> row list" where
  "group_step depth acc row =
     (let (by_node, leaf_rows) = acc; topic = fst row; lt = length topic in
      if depth < lt then
        (let node = topic ! depth;
             old = (case map_of by_node node of None \<Rightarrow> [] | Some rs \<Rightarrow> rs)
         in (AList.update node (old @ [row]) by_node, leaf_rows))
      else if depth = lt then (by_node, leaf_rows @ [row])
      else (by_node, leaf_rows))"

definition group_rows :: "nat \<Rightarrow> row list \<Rightarrow> (string \<times> row list) list \<times> row list" where
  "group_rows depth rows = foldl (group_step depth) ([], []) rows"

type_synonym sub_message = "pyobj \<times> string list \<times> bytes option"

function create_messages ::
    "pyobj \<Rightarrow> row list \<Rightarrow> string list \<Rightarrow> nat \<Rightarrow> bool \<Rightarrow> py_error + sub_message list" where
  "create_messages subscriptions rows base depth wildcards =
     bindR (py_items subscriptions) (\<lambda>kvs. concat_mapR (\<lambda>(filter_node, branch).
       if snd (group_rows depth rows) \<noteq> [] \<and> filter_node = LEAF_KEY then
         bindR (build_message_data (snd (group_rows depth rows)) base wildcards)
           (\<lambda>response_data. Inr [(branch, base, response_data)])
       else
         (let new_wildcards = (filter_node = MANY_CARD \<or> wildcards);
              new_rows = (if filter_node = MANY_CARD then rows
                          else (case map_of (fst (group_rows depth rows)) filter_node of
                                  None \<Rightarrow> [] | Some rs \<Rightarrow> rs))
          in if new_rows \<noteq> [] then
               create_messages branch new_rows (base @ [filter_node]) (depth + 1) new_wildcards
             else Inr [])) kvs)"
  by pat_completeness auto
termination
  by (relation "measure (\<lambda>(subscriptions, rows, base, depth, wildcards). size subscriptions)")
     (auto dest: py_items_size)

declare create_messages.simps [simp del]

definition create_messages_for_subscriptions ::
    "pyobj \<Rightarrow> row list \<Rightarrow> py_error + sub_message list" where
  "create_messages_for_subscriptions subscriptions rows =
     create_messages subscriptions rows [] 0 False"

section \<open>Sorting\<close>

lemma group_rows_snoc: "group_rows depth (rows @ [r]) = group_step depth (group_rows depth rows) r"
  by (simp add: group_rows_def)

lemma group_rows_leaf: "snd (group_rows depth rows) = filter (\<lambda>r. length (fst r) = depth) rows"
  by (induction rows rule: rev_induct)
     (auto simp: group_rows_snoc group_step_def Let_def split_beta, simp add: group_rows_def)

lemma group_rows_node:
  "(case map_of (fst (group_rows depth rows)) n of None \<Rightarrow> [] | Some rs \<Rightarrow> rs) =
     filter (\<lambda>r. depth < length (fst r) \<and> fst r ! depth = n) rows"
  by (induction rows rule: rev_induct)
     (auto simp: group_rows_snoc group_step_def Let_def split_beta, simp add: group_rows_def)

section \<open>The reference: one message per matching subscription\<close>

text \<open>The subscriptions of a tree with their client dicts, in the order of the dicts.\<close>

fun sub_leaves :: "pyobj \<Rightarrow> (string list \<times> pyobj) list" where
  "sub_leaves (PyRdd kvs) =
     concat (map (\<lambda>(k, v). if k = LEAF_KEY then [([], v)]
                            else map (\<lambda>(p, l). (k # p, l)) (sub_leaves v)) kvs)"
| "sub_leaves obj = []"

definition rows_for :: "string list \<Rightarrow> row list \<Rightarrow> row list" where
  "rows_for path rows = filter (\<lambda>r. topic_match path (fst r)) rows"

definition message_for :: "row list \<Rightarrow> string list \<times> pyobj \<Rightarrow> py_error + sub_message list" where
  "message_for rows sub =
     (let (path, clients) = sub; rs = rows_for path rows
      in if rs = [] then Inr []
         else bindR (build_message_data rs path (MANY_CARD \<in> set path))
                (\<lambda>data. Inr [(clients, path, data)]))"

text \<open>The same with a part of the path already consumed.\<close>

definition rows_from :: "nat \<Rightarrow> string list \<Rightarrow> row list \<Rightarrow> row list" where
  "rows_from depth path rows =
     filter (\<lambda>r. depth \<le> length (fst r) \<and> topic_match path (drop depth (fst r))) rows"

definition message_from ::
    "row list \<Rightarrow> string list \<Rightarrow> nat \<Rightarrow> bool \<Rightarrow> string list \<times> pyobj \<Rightarrow> py_error + sub_message list" where
  "message_from rows base depth wildcards sub =
     (let (path, clients) = sub; rs = rows_from depth path rows
      in if rs = [] then Inr []
         else bindR (build_message_data rs (base @ path) (wildcards \<or> MANY_CARD \<in> set path))
                (\<lambda>data. Inr [(clients, base @ path, data)]))"

lemma concat_mapR_concat:
  "concat_mapR f (concat xss) = concat_mapR (\<lambda>xs. concat_mapR f xs) xss"
proof (induction xss)
  case (Cons xs xss)
  have "concat_mapR f (xs @ ys) =
      bindR (concat_mapR f xs) (\<lambda>a. bindR (concat_mapR f ys) (\<lambda>b. Inr (a @ b)))" for ys
    by (induction xs) (auto simp: bindR_assoc)
  then show ?case by (simp add: Cons.IH)
qed simp

lemma concat_mapR_map: "concat_mapR f (map g xs) = concat_mapR (\<lambda>x. f (g x)) xs"
  by (induction xs) auto

lemma concat_mapR_none: "(\<And>x. x \<in> set xs \<Longrightarrow> f x = Inr []) \<Longrightarrow> concat_mapR f xs = Inr []"
  by (induction xs) auto

lemma rows_from_many: "rows_from depth (MANY_CARD # p) rows = rows_from (Suc depth) p rows"
proof -
  have "depth \<le> length t \<and> topic_match (MANY_CARD # p) (drop depth t) \<longleftrightarrow>
      Suc depth \<le> length t \<and> topic_match p (drop (Suc depth) t)" for t :: "string list"
    by (cases "depth < length t") (auto simp flip: Cons_nth_drop_Suc)
  then show ?thesis by (simp add: rows_from_def)
qed

lemma rows_from_literal:
  "k \<noteq> MANY_CARD \<Longrightarrow> rows_from depth (k # p) rows =
     rows_from (Suc depth) p (filter (\<lambda>r. depth < length (fst r) \<and> fst r ! depth = k) rows)"
proof -
  assume k: "k \<noteq> MANY_CARD"
  have "depth \<le> length t \<and> topic_match (k # p) (drop depth t) \<longleftrightarrow>
      (depth < length t \<and> t ! depth = k) \<and> Suc depth \<le> length t \<and> topic_match p (drop (Suc depth) t)"
    for t :: "string list"
    using k by (cases "depth < length t") (auto simp flip: Cons_nth_drop_Suc)
  then show ?thesis by (auto simp: rows_from_def intro!: filter_cong)
qed

lemma rows_from_Nil: "rows_from depth [] rows = filter (\<lambda>r. length (fst r) = depth) rows"
  by (auto simp: rows_from_def intro!: filter_cong)

lemma message_from_empty: "message_from [] base depth w sub = Inr []"
  by (simp add: message_from_def rows_from_def split_beta Let_def)

lemma message_from_Cons:
  "message_from rows base depth w (k # p, l) =
     message_from (if k = MANY_CARD then rows
                   else filter (\<lambda>r. depth < length (fst r) \<and> fst r ! depth = k) rows)
       (base @ [k]) (Suc depth) (k = MANY_CARD \<or> w) (p, l)"
  by (auto simp: message_from_def rows_from_many rows_from_literal Let_def intro!: bindR_cong)

lemma create_messages_spec:
  assumes "wf_rdd P subs" and "\<forall>r\<in>set rows. LEAF_KEY \<notin> set (fst r)"
  shows "create_messages subs rows base depth w =
    concat_mapR (message_from rows base depth w) (sub_leaves subs)"
  using assms
proof (induction subs rows base depth w rule: create_messages.induct)
  case (1 subs rows base depth w)
  from "1.prems"(1) obtain kvs where t: "subs = PyRdd kvs" by (blast dest: wf_rdd_ex)
  let ?leaves = "snd (group_rows depth rows)"
  let ?rows = "\<lambda>k. if k = MANY_CARD then rows
      else filter (\<lambda>r. depth < length (fst r) \<and> fst r ! depth = k) rows"
  let ?f = "\<lambda>(k, branch).
       if ?leaves \<noteq> [] \<and> k = LEAF_KEY then
         bindR (build_message_data ?leaves base w) (\<lambda>d. Inr [(branch, base, d)])
       else if ?rows k \<noteq> [] then
         create_messages branch (?rows k) (base @ [k]) (depth + 1) (k = MANY_CARD \<or> w)
       else Inr []"
  let ?g = "\<lambda>(k, v). if k = LEAF_KEY then [([], v)] else map (\<lambda>(p, l). (k # p, l)) (sub_leaves v)"
  have no_leaf_rows: "?rows LEAF_KEY = []"
    using "1.prems"(2) by (fastforce simp: filter_empty_conv dest: nth_mem)
  have step: "?f x = concat_mapR (message_from rows base depth w) (?g x)" if x: "x \<in> set kvs" for x
  proof -
    obtain k v where kv: "x = (k, v)" by (cases x)
    show ?thesis
    proof (cases "k = LEAF_KEY")
      case True
      then show ?thesis
        using no_leaf_rows
        by (auto simp: kv group_rows_leaf message_from_def rows_from_Nil Let_def)
    next
      case False
      have v: "wf_rdd P v" using "1.prems"(1) x False by (auto simp: t kv)
      have eq: "concat_mapR (message_from rows base depth w) (?g x) =
          concat_mapR (message_from (?rows k) (base @ [k]) (Suc depth) (k = MANY_CARD \<or> w)) (sub_leaves v)"
        using False by (auto simp: kv concat_mapR_map split_beta message_from_Cons intro!: concat_mapR_cong)
      show ?thesis
      proof (cases "?rows k = []")
        case True
        then show ?thesis
          unfolding eq using False by (auto simp: kv concat_mapR_none message_from_empty)
      next
        case nonempty: False
        have "create_messages v (?rows k) (base @ [k]) (depth + 1) (k = MANY_CARD \<or> w) =
            concat_mapR (message_from (?rows k) (base @ [k]) (depth + 1) (k = MANY_CARD \<or> w)) (sub_leaves v)"
          by (rule "1.IH" [of kvs x k v])
             (use "1.prems"(2) x False nonempty v in \<open>auto simp: t kv group_rows_node\<close>)
        then show ?thesis unfolding eq using False nonempty by (simp add: kv)
      qed
    qed
  qed
  have "create_messages subs rows base depth w = concat_mapR ?f kvs"
    by (subst create_messages.simps) (simp add: t group_rows_node Let_def cong: if_cong)
  also have "\<dots> = concat_mapR (\<lambda>x. concat_mapR (message_from rows base depth w) (?g x)) kvs"
    by (rule concat_mapR_cong [OF refl step])
  also have "\<dots> = concat_mapR (message_from rows base depth w) (sub_leaves subs)"
    by (simp add: t concat_mapR_concat concat_mapR_map)
  finally show ?case .
qed

lemma message_from_0: "message_from rows [] 0 False = message_for rows"
  by (rule ext) (auto simp: message_from_def message_for_def rows_from_def rows_for_def Let_def)

section \<open>The property\<close>

text \<open>
  C23: The single pass over the subscription tree computes the same messages, in the same
  order and with the same exceptions, as looking at every subscription on its own: collect
  the rows its filter matches and, when there are any, build one message from them.
\<close>

theorem create_messages_equivalence:
  assumes "wf_rdd P subs" and "\<forall>r\<in>set rows. LEAF_KEY \<notin> set (fst r)"
  shows "create_messages_for_subscriptions subs rows = concat_mapR (message_for rows) (sub_leaves subs)"
  using create_messages_spec [OF assms, of "[]" 0 False]
  by (simp add: create_messages_for_subscriptions_def message_from_0)

lemma create_messages_equivalence_witness:
  "create_messages_for_subscriptions
     (PyRdd [(''a'', PyRdd [(''b'', PyRdd [(''/'', PyDict [(''c1'', PyInt 1)])])]),
             (''x'', PyRdd [(''/'', PyDict [(''c2'', PyInt 0)])])])
     [([''a'', ''b''], Some [49], 0), ([''a''], None, 0)] =
   Inr [(PyDict [(''c1'', PyInt 1)], [''a'', ''b''], Some [49])]"
  by (subst create_messages_equivalence [where P = "\<lambda>_. True"])
     (simp_all add: const_defs message_for_def rows_for_def topic_match_def build_message_data_def)

end
