(* ===== verification/Flatten.thy ===== *)
theory Flatten
  imports Create_Messages
begin

text \<open>
  protocols/flatten_message.py: a published JSON tree, spread over the rows its topic's
  wildcards name. The last section closes the circle with
  protocols/create_messages_for_subscriptions.py: a subscription to the published topic gets
  the published tree back.
\<close>

section \<open>The code\<close>

text \<open>
  The sentinel \<open>missing\<close> is the \<open>None\<close> of \<^const>\<open>py_get_opt\<close>; \<open>{}\<close> is \<^term>\<open>PyDict []\<close>.
\<close>

fun flatten_message_into_rows ::
    "string list \<Rightarrow> pyobj \<Rightarrow> int \<Rightarrow> string list \<Rightarrow> pyobj \<Rightarrow> pyobj \<Rightarrow> py_error + row list" where
  "flatten_message_into_rows [] data qos base tree flags = Inl IndexError"
| "flatten_message_into_rows (node # next_topic) data qos base tree flags =
     (if node = EVERYTHING_CARD then Inl InvalidEverythingCard
      else if node = MANY_CARD then
        (if next_topic = [] then
           bindR (py_items data) (\<lambda>items.
           bindR (mapR (\<lambda>(key, val). bindR (py_encode_obj val) (\<lambda>b.
                    Inr (base @ [key], Some b, qos))) items) (\<lambda>results.
             if flags = PyStr MANY_CARD then
               bindR (py_items tree) (\<lambda>kvs.
               bindR (concat_mapR (\<lambda>(key, val).
                   if key = LEAF_KEY then Inr []
                   else bindR (py_get_opt val LEAF_KEY) (\<lambda>leaf.
                     if leaf = None then Inr []
                     else bindR (py_get_opt data key) (\<lambda>x.
                       Inr (if x = None then [(base @ [key], None, qos)] else [])))) kvs)
                 (\<lambda>cleared. Inr (results @ cleared)))
             else Inr results))
         else
           bindR (py_items data) (\<lambda>items. concat_mapR (\<lambda>(key, val).
             bindR (py_get tree key (PyDict [])) (\<lambda>sub.
               flatten_message_into_rows next_topic val qos (base @ [key]) sub flags)) items))
      else if next_topic = [] then
        bindR (py_encode_obj data) (\<lambda>b. Inr [(base @ (node # next_topic), Some b, qos)])
      else
        bindR (py_get tree node (PyDict [])) (\<lambda>sub.
          flatten_message_into_rows next_topic data qos (base @ [node]) sub flags))"

section \<open>Payload trees\<close>

text \<open>
  \<open>payload n data\<close>: dicts nested \<open>n\<close> deep around encodable text, none of them empty below
  the top. Its leaves are the texts with the keys that lead to them.
\<close>

fun payload :: "nat \<Rightarrow> pyobj \<Rightarrow> bool" where
  "payload 0 (PyStr s) \<longleftrightarrow> utf8_valid (raw_bytes s)"
| "payload (Suc n) (PyDict kvs) \<longleftrightarrow>
     distinct (dkeys kvs) \<and>
     (\<forall>x\<in>set kvs. fst x \<noteq> LEAF_KEY \<and> payload n (snd x) \<and> snd x \<noteq> PyDict [])"
| "payload _ _ \<longleftrightarrow> False"

fun payload_leaves :: "pyobj \<Rightarrow> (string list \<times> string) list" where
  "payload_leaves (PyStr s) = [([], s)]"
| "payload_leaves (PyDict kvs) =
     concat (map (\<lambda>(k, v). map (\<lambda>(p, s). (k # p, s)) (payload_leaves v)) kvs)"
| "payload_leaves obj = []"

text \<open>\<open>fill topic ks\<close> puts the keys in the place of the wildcards.\<close>

fun fill :: "string list \<Rightarrow> string list \<Rightarrow> string list" where
  "fill [] ks = []"
| "fill (f # fs) ks =
     (if f = MANY_CARD then (case ks of [] \<Rightarrow> f # fill fs [] | k # ks' \<Rightarrow> k # fill fs ks')
      else f # fill fs ks)"

definition wilds :: "string list \<Rightarrow> nat" where
  "wilds topic = count_list topic MANY_CARD"

definition ok_tree :: "pyobj \<Rightarrow> bool" where
  "ok_tree t \<longleftrightarrow> wf_tree t \<or> t = PyDict []"

lemma ok_tree_get:
  "ok_tree t \<Longrightarrow> k \<noteq> LEAF_KEY \<Longrightarrow> \<exists>sub. py_get t k (PyDict []) = Inr sub \<and> ok_tree sub"
  by (cases t) (auto simp: ok_tree_def split: option.splits dest: map_of_in_set)

lemma payload_0: "payload 0 obj \<Longrightarrow> \<exists>s. obj = PyStr s \<and> utf8_valid (raw_bytes s)"
  by (cases obj) auto

lemma payload_Suc: "payload (Suc n) obj \<Longrightarrow> \<exists>kvs. obj = PyDict kvs"
  by (cases obj) auto

lemma payload_leaves_props:
  "payload n obj \<Longrightarrow> (p, s) \<in> set (payload_leaves obj) \<Longrightarrow>
   length p = n \<and> LEAF_KEY \<notin> set p \<and> utf8_valid (raw_bytes s)"
proof (induction obj arbitrary: n p rule: payload_leaves.induct)
  case (1 s)
  then show ?case by (cases n) auto
next
  case (2 kvs)
  then obtain m where n: "n = Suc m" by (cases n) auto
  from "2.prems"(2) obtain k v q where kv: "(k, v) \<in> set kvs" and p: "p = k # q"
    and q: "(q, s) \<in> set (payload_leaves v)" by auto
  have "k \<noteq> LEAF_KEY" "payload m v" using "2.prems"(1) kv by (auto simp: n)
  with "2.IH" [OF kv refl this(2) q] show ?case by (simp add: n p)
qed auto

lemma mapR_leaf_texts:
  assumes "\<And>k v. (k, v) \<in> set kvs \<Longrightarrow> payload 0 v"
  shows "mapR (\<lambda>(key, val). bindR (py_encode_obj val) (\<lambda>b. Inr (base @ [key], Some b, qos))) kvs =
    Inr (map (\<lambda>(p, s). (base @ p, Some (raw_bytes s), qos)) (payload_leaves (PyDict kvs)))"
  using assms
proof (induction kvs)
  case (Cons a kvs)
  obtain k v where a: "a = (k, v)" by (cases a)
  have v: "payload 0 v" by (rule Cons.prems [of k]) (simp add: a)
  then obtain s where "v = PyStr s" "utf8_valid (raw_bytes s)" by (blast dest: payload_0)
  moreover have "mapR (\<lambda>(key, val). bindR (py_encode_obj val) (\<lambda>b. Inr (base @ [key], Some b, qos))) kvs =
      Inr (map (\<lambda>(p, s). (base @ p, Some (raw_bytes s), qos)) (payload_leaves (PyDict kvs)))"
    by (rule Cons.IH) (use Cons.prems in auto)
  ultimately show ?case by (simp add: a py_encode_def)
qed simp

lemma flatten_rows:
  assumes "payload (wilds topic) data" and "topic \<noteq> []" and "LEAF_KEY \<notin> set topic"
    and "EVERYTHING_CARD \<notin> set topic" and "ok_tree tree" and "flags \<noteq> PyStr MANY_CARD"
  shows "flatten_message_into_rows topic data qos base tree flags =
    Inr (map (\<lambda>(p, s). (base @ fill topic p, Some (raw_bytes s), qos)) (payload_leaves data))"
  using assms
proof (induction topic arbitrary: data base tree)
  case (Cons n ns)
  have n: "n \<noteq> EVERYTHING_CARD" "n \<noteq> LEAF_KEY" "LEAF_KEY \<notin> set ns" "EVERYTHING_CARD \<notin> set ns"
    using Cons.prems by auto
  show ?case
  proof (cases "n = MANY_CARD")
    case True
    then have pl: "payload (Suc (wilds ns)) data" using Cons.prems(1) by (simp add: wilds_def)
    then obtain kvs where d: "data = PyDict kvs" by (blast dest: payload_Suc)
    have pk: "k \<noteq> LEAF_KEY \<and> payload (wilds ns) v" if "(k, v) \<in> set kvs" for k v
      using pl that by (auto simp: d)
    show ?thesis
    proof (cases "ns = []")
      case ns: True
      have "mapR (\<lambda>(key, val). bindR (py_encode_obj val) (\<lambda>b. Inr (base @ [key], Some b, qos))) kvs =
        Inr (map (\<lambda>(p, s). (base @ p, Some (raw_bytes s), qos)) (payload_leaves (PyDict kvs)))"
        using pk by (intro mapR_leaf_texts) (auto simp: ns wilds_def)
      moreover have "fill [MANY_CARD] p = p" if "(p, s) \<in> set (payload_leaves data)" for p s
      proof -
        have "length p = 1"
          using payload_leaves_props [OF Cons.prems(1) that] by (simp add: True ns wilds_def)
        then show ?thesis by (cases p) auto
      qed
      then have "map (\<lambda>(p, s). (base @ fill topic p, Some (raw_bytes s), qos)) (payload_leaves data) =
          map (\<lambda>(p, s). (base @ p, Some (raw_bytes s), qos)) (payload_leaves data)"
        if "topic = [MANY_CARD]" for topic
        using that by (auto intro!: map_cong)
      ultimately show ?thesis using True ns Cons.prems(6) by (simp add: d)
    next
      case ns: False
      have step: "bindR (py_get tree k (PyDict [])) (\<lambda>sub.
          flatten_message_into_rows ns v qos (base @ [k]) sub flags) =
          Inr (map (\<lambda>(p, s). (base @ k # fill ns p, Some (raw_bytes s), qos)) (payload_leaves v))"
        if "(k, v) \<in> set kvs" for k v
        using ok_tree_get [OF Cons.prems(5)] pk [OF that] Cons.IH [of v _ "base @ [k]"] n ns
          Cons.prems(6) by fastforce
      have "concat_mapR (\<lambda>(key, val). bindR (py_get tree key (PyDict [])) (\<lambda>sub.
          flatten_message_into_rows ns val qos (base @ [key]) sub flags)) kvs =
        Inr (concat (map (\<lambda>(k, v). map (\<lambda>(p, s). (base @ k # fill ns p, Some (raw_bytes s), qos))
          (payload_leaves v)) kvs))"
        using step by (intro concat_mapR_all_Inr) auto
      then show ?thesis
        using True ns by (simp add: d map_concat comp_def case_prod_beta')
    qed
  next
    case False
    show ?thesis
    proof (cases "ns = []")
      case True
      then obtain s where "data = PyStr s" "utf8_valid (raw_bytes s)"
        using Cons.prems(1) False by (auto simp: wilds_def dest: payload_0)
      with True False n show ?thesis by (simp add: py_encode_def)
    next
      case ns: False
      obtain sub where "py_get tree n (PyDict []) = Inr sub" "ok_tree sub"
        using ok_tree_get [OF Cons.prems(5) n(2)] by blast
      then show ?thesis
        using Cons.IH [of data sub "base @ [n]"] Cons.prems False ns n by (simp add: wilds_def)
    qed
  qed
qed simp

section \<open>From a published tree back to the subscriber's JSON\<close>

text \<open>What \<open>build_message_data\<close> rebuilds: the same tree of its own class, over bytes.\<close>

fun rddify :: "pyobj \<Rightarrow> pyobj" where
  "rddify (PyStr s) = PyBytes (raw_bytes s)"
| "rddify (PyDict kvs) = PyRdd (map (\<lambda>(k, v). (k, rddify v)) kvs)"
| "rddify obj = obj"

lemma jsonify_rddify: "payload n obj \<Longrightarrow> jsonify (rddify obj) = obj"
proof (induction obj arbitrary: n rule: rddify.induct)
  case (1 s)
  then show ?case by simp
next
  case (2 kvs)
  then obtain m where "n = Suc m" by (cases n) auto
  with 2 show ?case by (auto simp: comp_def intro!: map_idI)
qed (auto elim: payload.elims)

lemma bytes_valid_rddify: "payload n obj \<Longrightarrow> all_bytes_valid (rddify obj)"
proof (induction obj arbitrary: n rule: rddify.induct)
  case (1 s)
  then show ?case by (cases n) auto
next
  case (2 kvs)
  then obtain m where "n = Suc m" by (cases n) auto
  with 2 show ?case by fastforce
qed (auto elim: payload.elims)

definition store_leaf :: "pyobj \<Rightarrow> string list \<times> string \<Rightarrow> py_error + pyobj" where
  "store_leaf t leaf = set_path (fst leaf) (PyBytes (raw_bytes (snd leaf))) t"

text \<open>
  Storing the leaves of one branch, first under a key the tree does not have yet, then under
  the last key it has.
\<close>

lemma set_path_last:
  "p \<noteq> [] \<Longrightarrow> k \<notin> set (dkeys acc) \<Longrightarrow>
   set_path (k # p) v (PyRdd (acc @ [(k, t)])) =
     bindR (set_path p v t) (\<lambda>t'. Inr (PyRdd (acc @ [(k, t')])))"
proof -
  assume p: "p \<noteq> []" and k: "k \<notin> set (dkeys acc)"
  have look: "map_of (acc @ [(k, t)]) k = Some t"
    using k by (auto simp: map_add_Some_iff map_of_eq_None_iff split: option.split)
  have upd: "AList.update k t' (acc @ [(k, t)]) = acc @ [(k, t')]" for t'
    using k by (induction acc) auto
  obtain q qs where "p = q # qs" using p by (cases p) auto
  moreover have "rdd_getitem PyNone k (acc @ [(k, t)]) = (t, acc @ [(k, t)])"
    by (simp only: rdd_getitem_def look option.case)
  ultimately show ?thesis by (simp add: upd)
qed

lemma set_path_new:
  "p \<noteq> [] \<Longrightarrow> k \<noteq> LEAF_KEY \<Longrightarrow> k \<notin> set (dkeys acc) \<Longrightarrow>
   set_path (k # p) v (PyRdd acc) = set_path (k # p) v (PyRdd (acc @ [(k, PyRdd [])]))"
proof -
  assume p: "p \<noteq> []" and k: "k \<noteq> LEAF_KEY" "k \<notin> set (dkeys acc)"
  then have "map_of acc k = None" by (simp add: map_of_eq_None_iff)
  moreover have "AList.update k t' (acc @ [(k, t)]) = acc @ [(k, t')]" for t t'
    using k(2) by (induction acc) auto
  moreover have "map_of (acc @ [(k, PyRdd [])]) k = Some (PyRdd [])"
    using k(2) by (auto simp: map_add_Some_iff map_of_eq_None_iff split: option.split)
  moreover obtain q qs where "p = q # qs" using p by (cases p) auto
  ultimately show ?thesis
    using k by (simp add: rdd_getitem_def rdd_missing_def update_new Let_def)
qed

lemma store_branch_last:
  assumes "k \<notin> set (dkeys acc)" and "\<forall>x\<in>set ls. fst x \<noteq> []"
  shows "foldR store_leaf (PyRdd (acc @ [(k, t)])) (map (\<lambda>(p, s). (k # p, s)) ls) =
    bindR (foldR store_leaf t ls) (\<lambda>t'. Inr (PyRdd (acc @ [(k, t')])))"
  using assms(2)
proof (induction ls arbitrary: t)
  case (Cons l ls)
  obtain p s where l: "l = (p, s)" by (cases l)
  have "store_leaf (PyRdd (acc @ [(k, t)])) (k # p, s) =
      bindR (store_leaf t (p, s)) (\<lambda>t'. Inr (PyRdd (acc @ [(k, t')])))"
    using Cons.prems assms(1) by (simp add: store_leaf_def l set_path_last)
  with Cons show ?case by (auto simp: l bindR_assoc intro!: bindR_cong)
qed simp

lemma store_branch_new:
  assumes "k \<notin> set (dkeys acc)" and "k \<noteq> LEAF_KEY" and "\<forall>x\<in>set ls. fst x \<noteq> []" and "ls \<noteq> []"
  shows "foldR store_leaf (PyRdd acc) (map (\<lambda>(p, s). (k # p, s)) ls) =
    bindR (foldR store_leaf (PyRdd []) ls) (\<lambda>t'. Inr (PyRdd (acc @ [(k, t')])))"
proof -
  obtain p s ls' where ls: "ls = (p, s) # ls'" using assms(4) by (cases ls) auto
  have "foldR store_leaf (PyRdd acc) (map (\<lambda>(p, s). (k # p, s)) ls) =
      foldR store_leaf (PyRdd (acc @ [(k, PyRdd [])])) (map (\<lambda>(p, s). (k # p, s)) ls)"
    using assms(1-3) by (simp add: ls store_leaf_def set_path_new)
  then show ?thesis by (simp only: store_branch_last [OF assms(1,3)])
qed

lemma payload_leaves_nonempty:
  "payload n obj \<Longrightarrow> obj \<noteq> PyDict [] \<Longrightarrow> payload_leaves obj \<noteq> []"
proof (induction obj arbitrary: n rule: payload_leaves.induct)
  case (2 kvs)
  then obtain m where n: "n = Suc m" by (cases n) auto
  from "2.prems"(2) obtain k v where kv: "(k, v) \<in> set kvs" by (cases kvs) auto
  moreover from kv "2.prems"(1) have "payload m v" "v \<noteq> PyDict []" by (auto simp: n)
  ultimately have "payload_leaves v \<noteq> []" using "2.IH" by blast
  then show ?case by (auto intro!: bexI [OF _ kv])
qed (auto elim: payload.elims)

lemma rebuild_append:
  assumes "payload (Suc n) (PyDict kvs)" and "set (dkeys acc) \<inter> set (dkeys kvs) = {}"
    and IH: "\<And>k v. (k, v) \<in> set kvs \<Longrightarrow> n \<noteq> 0 \<Longrightarrow>
      foldR store_leaf (PyRdd []) (payload_leaves v) = Inr (rddify v)"
  shows "foldR store_leaf (PyRdd acc) (payload_leaves (PyDict kvs)) =
    Inr (PyRdd (acc @ map (\<lambda>(k, v). (k, rddify v)) kvs))"
  using assms
proof (induction kvs arbitrary: acc)
  case (Cons a kvs)
  obtain k v where a: "a = (k, v)" by (cases a)
  have k: "k \<noteq> LEAF_KEY" "k \<notin> set (dkeys acc)" and v: "payload n v" "v \<noteq> PyDict []"
    using Cons.prems(1,2) by (auto simp: a)
  have "foldR store_leaf (PyRdd acc) (map (\<lambda>(p, s). (k # p, s)) (payload_leaves v)) =
      Inr (PyRdd (acc @ [(k, rddify v)]))"
  proof (cases n)
    case 0
    with v obtain s where "v = PyStr s" by (blast dest: payload_0)
    with k(2) show ?thesis by (simp add: store_leaf_def update_new)
  next
    case (Suc m)
    have "\<forall>x\<in>set (payload_leaves v). fst x \<noteq> []"
      using payload_leaves_props [OF v(1)] Suc by force
    with store_branch_new [OF k(2,1)] payload_leaves_nonempty [OF v] Cons.prems(3) [of k v] Suc
    show ?thesis by (simp add: a)
  qed
  moreover have "foldR store_leaf (PyRdd (acc @ [(k, rddify v)])) (payload_leaves (PyDict kvs)) =
      Inr (PyRdd ((acc @ [(k, rddify v)]) @ map (\<lambda>(k, v). (k, rddify v)) kvs))"
    using Cons.prems by (intro Cons.IH) (auto simp: a)
  ultimately show ?case by (simp add: a foldR_append)
qed simp

lemma rebuild:
  "payload (Suc n) obj \<Longrightarrow> foldR store_leaf (PyRdd []) (payload_leaves obj) = Inr (rddify obj)"
proof (induction n arbitrary: obj)
  case 0
  then obtain kvs where "obj = PyDict kvs" by (blast dest: payload_Suc)
  with 0 rebuild_append [of 0 kvs "[]"] show ?case by simp
next
  case (Suc n)
  then obtain kvs where obj: "obj = PyDict kvs" by (blast dest: payload_Suc)
  have "foldR store_leaf (PyRdd []) (payload_leaves v) = Inr (rddify v)" if "(k, v) \<in> set kvs" for k v
    using Suc that by (auto simp: obj)
  then show ?case using rebuild_append [of "Suc n" kvs "[]"] Suc.prems by (simp add: obj)
qed

lemma payload_encodes: "payload n obj \<Longrightarrow> \<exists>s. json_encode obj = Inr s \<and> ascii s"
proof (induction obj arbitrary: n rule: rddify.induct)
  case (2 kvs)
  then obtain m where n: "n = Suc m" by (cases n) auto
  define enc where "enc = (\<lambda>(k, v). bindR (json_encode v) (\<lambda>s. Inr (json_str k @ '': '' @ s)))"
  have each: "\<exists>s. enc x = Inr s \<and> ascii s" if x: "x \<in> set kvs" for x
  proof -
    obtain k v where kv: "x = (k, v)" by (cases x)
    have "payload m v" using "2.prems" x by (auto simp: n kv)
    with "2.IH" [OF x kv [symmetric]] obtain s where "json_encode v = Inr s" "ascii s" by blast
    then show ?thesis by (simp add: enc_def kv)
  qed
  have "mapR enc kvs = Inr (map (\<lambda>x. projr (enc x)) kvs)"
    by (rule mapR_all_Inr) (use each in fastforce)
  moreover have "ascii (join_str '', '' (map (\<lambda>x. projr (enc x)) kvs))"
    by (rule ascii_join) (use each in \<open>auto, force\<close>)
  ultimately show ?case unfolding enc_def by simp
qed (auto elim: payload.elims)

lemma stringify_payload: "payload n obj \<Longrightarrow> \<exists>bs. stringify obj = Inr bs"
  using payload_encodes [of n obj] by (auto dest: stringify_ascii)

lemma stringify_rddify: "payload n obj \<Longrightarrow> stringify (rddify obj) = stringify obj"
  using json_encode_jsonify [OF bytes_valid_rddify, of n obj]
  by (simp add: stringify_def jsonify_rddify)

lemma fill_props:
  assumes "EVERYTHING_CARD \<notin> set topic" and "length p = wilds topic"
  shows "wild_nodes topic (fill topic p) = p" and "topic_match topic (fill topic p)"
    and "captures topic (fill topic p) = p"
proof -
  have "wild_nodes topic (fill topic p) = p \<and> topic_match topic (fill topic p)
      \<and> captures topic (fill topic p) = p"
    using assms
  proof (induction topic arbitrary: p)
    case (Cons f fs)
    show ?case
    proof (cases "f = MANY_CARD")
      case True
      then obtain k ks where p: "p = k # ks" "length ks = wilds fs"
        using Cons.prems(2) by (cases p) (auto simp: wilds_def)
      with Cons.IH [of ks] Cons.prems(1) True show ?thesis by (simp add: wild_nodes_def)
    next
      case False
      with Cons show ?thesis by (auto simp: wild_nodes_def wilds_def is_node_static_def)
    qed
  qed (simp add: wild_nodes_def wilds_def)
  then show "wild_nodes topic (fill topic p) = p" and "topic_match topic (fill topic p)"
    and "captures topic (fill topic p) = p" by simp_all
qed

lemma wilds_pos: "MANY_CARD \<in> set topic \<Longrightarrow> \<exists>n. wilds topic = Suc n"
  by (metis count_list_0_iff not0_implies_Suc wilds_def)

lemma round_trip_aux:
  fixes qos :: int
  assumes "payload (wilds topic) data" and "MANY_CARD \<in> set topic" and "EVERYTHING_CARD \<notin> set topic"
  defines "rows \<equiv> map (\<lambda>(p, s). (fill topic p, Some (raw_bytes s), qos)) (payload_leaves data)"
  shows "rows_for topic rows = rows"
    and "build_message_data rows topic True = bindR (stringify data) (\<lambda>s. Inr (Some s))"
proof -
  obtain n where n: "wilds topic = Suc n" using wilds_pos [OF assms(2)] by blast
  have len: "length p = wilds topic" if "(p, s) \<in> set (payload_leaves data)" for p s
    using payload_leaves_props [OF assms(1) that] by simp
  have "topic_match topic (fst r)" if "r \<in> set rows" for r
    using that len fill_props(2) [OF assms(3)] by (auto simp: rows_def)
  then show "rows_for topic rows = rows" by (auto simp: rows_for_def filter_id_conv)
  have "foldR (\<lambda>tree row. set_path (wild_nodes topic (fst row)) (obj_of_data (fst (snd row))) tree) t
        (map (\<lambda>(p, s). (fill topic p, Some (raw_bytes s), qos)) ls) = foldR store_leaf t ls"
    if "set ls \<subseteq> set (payload_leaves data)" for ls t
    using that
  proof (induction ls arbitrary: t)
    case (Cons l ls)
    obtain p s where l: "l = (p, s)" by (cases l)
    with Cons.prems len have "length p = wilds topic" by auto
    with Cons show ?case
      by (auto simp: l store_leaf_def fill_props(1) [OF assms(3)] intro!: bindR_cong)
  qed simp
  then show "build_message_data rows topic True = bindR (stringify data) (\<lambda>s. Inr (Some s))"
    using rebuild [of n data] assms(1)
    by (simp add: build_message_data_def rows_def n stringify_rddify [of "Suc n"])
qed

section \<open>The clearing flag\<close>

text \<open>
  With the flag \<^const>\<open>MANY_CARD\<close> and a topic whose only wildcard is its last node, the
  retained leaves under the topic that the published dict does not name are cleared.
\<close>

lemma cleared_rows:
  fixes qos :: int and base :: "string list" and items :: pydict
  assumes "wf_tree (PyRdd kvs)"
  shows "concat_mapR (\<lambda>(key, val).
       if key = LEAF_KEY then Inr []
       else bindR (py_get_opt val LEAF_KEY) (\<lambda>leaf.
         if leaf = None then Inr []
         else bindR (py_get_opt (PyDict items) key) (\<lambda>x.
           Inr (if x = None then [(base @ [key], None :: bytes option, qos)] else [])))) kvs =
     Inr (map (\<lambda>k. (base @ [k], None :: bytes option, qos))
           (filter (\<lambda>k. k \<noteq> LEAF_KEY \<and> leaf_at (PyRdd kvs) [k] \<noteq> None \<and> k \<notin> set (dkeys items))
             (dkeys kvs)))"
proof -
  let ?g = "\<lambda>(k, v). if k \<noteq> LEAF_KEY \<and> leaf_at v [] \<noteq> None \<and> k \<notin> set (dkeys items)
    then [(base @ [k], None :: bytes option, qos)] else []"
  have wf: "\<exists>kvs2. v = PyRdd kvs2" if "(k, v) \<in> set kvs" "k \<noteq> LEAF_KEY" for k v
    using assms that by (fastforce dest: wf_rdd_ex)
  have "concat_mapR (\<lambda>(key, val).
       if key = LEAF_KEY then Inr []
       else bindR (py_get_opt val LEAF_KEY) (\<lambda>leaf.
         if leaf = None then Inr []
         else bindR (py_get_opt (PyDict items) key) (\<lambda>x.
           Inr (if x = None then [(base @ [key], None :: bytes option, qos)] else [])))) kvs = Inr (concat (map ?g kvs))"
  proof (rule concat_mapR_all_Inr)
    fix x assume x: "x \<in> set kvs"
    obtain k v where kv': "x = (k, v)" by (cases x)
    have kv: "(k, v) \<in> set kvs" using x by (simp add: kv')
    have "(if k = LEAF_KEY then Inr []
       else bindR (py_get_opt v LEAF_KEY) (\<lambda>leaf.
         if leaf = None then Inr []
         else bindR (py_get_opt (PyDict items) k) (\<lambda>x.
           Inr (if x = None then [(base @ [k], None :: bytes option, qos)] else [])))) = Inr (?g (k, v))"
    (is "?l = _")
    proof (cases "k = LEAF_KEY")
      case False
      with wf [OF kv] obtain kvs2 where "v = PyRdd kvs2" by blast
      with False show ?thesis by (simp add: map_of_eq_None_iff [of items])
    qed simp
    then show "(case x of (key, val) \<Rightarrow>
       if key = LEAF_KEY then Inr []
       else bindR (py_get_opt val LEAF_KEY) (\<lambda>leaf.
         if leaf = None then Inr []
         else bindR (py_get_opt (PyDict items) key) (\<lambda>x.
           Inr (if x = None then [(base @ [key], None :: bytes option, qos)] else [])))) = Inr (?g x)"
      by (simp only: kv' case_prod_conv)
  qed
  moreover have "concat (map ?g xs) = map (\<lambda>k. (base @ [k], None :: bytes option, qos))
     (filter (\<lambda>k. k \<noteq> LEAF_KEY \<and> leaf_at (PyRdd kvs) [k] \<noteq> None \<and> k \<notin> set (dkeys items)) (dkeys xs))"
    if "set xs \<subseteq> set kvs" for xs
    using that
  proof (induction xs)
    case (Cons x xs)
    obtain k v where x: "x = (k, v)" by (cases x)
    have "map_of kvs k = Some v" using Cons.prems assms by (simp add: x)
    then have "leaf_at (PyRdd kvs) [k] = leaf_at v []" by simp
    with Cons show ?case by (simp add: x)
  qed simp
  ultimately show ?thesis by (simp only: order_refl)
qed

lemma flatten_static:
  assumes "list_all is_node_static pre" and "LEAF_KEY \<notin> set pre" and "ns \<noteq> []"
    and "wf_tree tree" and "branch_at tree pre = Some sub"
  shows "flatten_message_into_rows (pre @ ns) data qos base tree flags =
    flatten_message_into_rows ns data qos (base @ pre) sub flags"
  using assms
proof (induction pre arbitrary: base tree)
  case (Cons n pre)
  obtain kvs where t: "tree = PyRdd kvs" using Cons.prems(4) by (blast dest: wf_rdd_ex)
  obtain v where v: "map_of kvs n = Some v" "branch_at v pre = Some sub"
    using Cons.prems(5) by (auto simp: t split: option.splits)
  then have "wf_tree v" using Cons.prems(2,4) by (auto simp: t dest: wf_rdd_child)
  with Cons.IH [of v "base @ [n]"] v Cons.prems show ?case
    by (auto simp: t not_static_iff [symmetric])
qed simp

lemma flatten_clearing:
  assumes "list_all is_node_static pre" and "LEAF_KEY \<notin> set pre" and "wf_tree tree"
    and "branch_at tree pre = Some (PyRdd kvs)" and "wf_tree (PyRdd kvs)"
    and "payload 1 (PyDict items)"
  shows "flatten_message_into_rows (pre @ [MANY_CARD]) (PyDict items) qos [] tree (PyStr MANY_CARD) =
    Inr (map (\<lambda>(p, s). (pre @ p, Some (raw_bytes s), qos)) (payload_leaves (PyDict items))
      @ map (\<lambda>k. (pre @ [k], None, qos))
          (filter (\<lambda>k. k \<noteq> LEAF_KEY \<and> leaf_at (PyRdd kvs) [k] \<noteq> None \<and> k \<notin> set (dkeys items))
            (dkeys kvs)))"
proof -
  have "mapR (\<lambda>(key, val). bindR (py_encode_obj val) (\<lambda>b. Inr (pre @ [key], Some b, qos))) items =
      Inr (map (\<lambda>(p, s). (pre @ p, Some (raw_bytes s), qos)) (payload_leaves (PyDict items)))"
    by (rule mapR_leaf_texts) (use assms(6) in auto)
  moreover have "flatten_message_into_rows [MANY_CARD] (PyDict items) qos pre (PyRdd kvs) (PyStr MANY_CARD) =
      bindR (mapR (\<lambda>(key, val). bindR (py_encode_obj val) (\<lambda>b. Inr (pre @ [key], Some b, qos))) items)
        (\<lambda>results. bindR (concat_mapR (\<lambda>(key, val).
       if key = LEAF_KEY then Inr []
       else bindR (py_get_opt val LEAF_KEY) (\<lambda>leaf.
         if leaf = None then Inr []
         else bindR (py_get_opt (PyDict items) key) (\<lambda>x.
           Inr (if x = None then [(pre @ [key], None, qos)] else [])))) kvs)
        (\<lambda>cleared. Inr (results @ cleared)))"
    by simp
  ultimately show ?thesis
    by (simp only: flatten_static [OF assms(1,2) _ assms(3,4)] not_Cons_self2 not_False_eq_True
        append_Nil cleared_rows [OF assms(5)] bindR.simps list.distinct)
qed

section \<open>The properties\<close>

text \<open>
  C34: A JSON tree as deep as its topic has wildcards, with text at its ends, is flattened to
  exactly one row per text: the topic with the keys that lead to the text in the place of the
  wildcards, and the text's bytes.
\<close>

theorem flatten_exact:
  assumes "payload (wilds topic) data" and "topic \<noteq> []" and "LEAF_KEY \<notin> set topic"
    and "EVERYTHING_CARD \<notin> set topic" and "ok_tree tree" and "flags \<noteq> PyStr MANY_CARD"
  shows "flatten_message_into_rows topic data qos base tree flags =
    Inr (map (\<lambda>(p, s). (base @ fill topic p, Some (raw_bytes s), qos)) (payload_leaves data))"
  using assms by (rule flatten_rows)

lemma flatten_exact_witness:
  "flatten_message_into_rows [''a'', ''+'', ''lamp''] (PyDict [(''x'', PyStr ''1''), (''y'', PyStr ''0'')])
     1 [] (PyRdd []) PyNone =
   Inr [([''a'', ''x'', ''lamp''], Some [49], 1), ([''a'', ''y'', ''lamp''], Some [48], 1)]"
  by (subst flatten_exact)
     (simp_all add: wilds_def const_defs raw_bytes_def char_byte_def ok_tree_def)

text \<open>
  The clearing flag. With \<open>{"/": "+"}\<close> and a topic whose only wildcard is its last node,
  the rows of the named keys come first, then one empty row for each retained leaf directly
  under the topic that the published object does not name.
\<close>

theorem flatten_clears_others:
  assumes "list_all is_node_static pre" and "LEAF_KEY \<notin> set pre" and "wf_tree tree"
    and "branch_at tree pre = Some (PyRdd kvs)" and "wf_tree (PyRdd kvs)"
    and "payload 1 (PyDict items)"
  shows "flatten_message_into_rows (pre @ [MANY_CARD]) (PyDict items) qos [] tree (PyStr MANY_CARD) =
    Inr (map (\<lambda>(p, s). (pre @ p, Some (raw_bytes s), qos)) (payload_leaves (PyDict items))
      @ map (\<lambda>k. (pre @ [k], None, qos))
          (filter (\<lambda>k. k \<noteq> LEAF_KEY \<and> leaf_at (PyRdd kvs) [k] \<noteq> None \<and> k \<notin> set (dkeys items))
            (dkeys kvs)))"
  using assms by (rule flatten_clearing)

lemma flatten_clears_others_witness:
  "flatten_message_into_rows [''a'', ''+''] (PyDict [(''x'', PyStr ''1'')]) 0 []
     (PyRdd [(''a'', PyRdd [(''x'', PyRdd [(''/'', PyBytes [48])]), (''y'', PyRdd [(''/'', PyBytes [48])])])])
     (PyStr ''+'') =
   Inr [([''a'', ''x''], Some [49], 0), ([''a'', ''y''], None, 0)]"
  using flatten_clears_others [of "[''a'']" "PyRdd [(''a'', PyRdd [(''x'', PyRdd [(''/'', PyBytes [48])]),
      (''y'', PyRdd [(''/'', PyBytes [48])])])]" "[(''x'', PyRdd [(''/'', PyBytes [48])]),
      (''y'', PyRdd [(''/'', PyBytes [48])])]" "[(''x'', PyStr ''1'')]" 0]
  by (simp add: const_defs is_node_static_def raw_bytes_def char_byte_def
      del: flatten_message_into_rows.simps)

end
