(* ===== verification/Messages.thy ===== *)
theory Messages
  imports Flatten
begin

text \<open>
  models/messages.py: incoming messages, how a raw topic is read, and the rows a message
  stands for; outgoing messages built from an item of the retained tree. The payload is
  \<open>bytes\<close> or \<open>None\<close> (an empty payload is read as \<open>None\<close>). \<open>loads\<close> is the JSON parser of
  the standard library, on text; nothing is assumed of it.
\<close>

record incoming_message =
  im_topic :: topic
  im_qos :: int
  im_retain :: bool
  im_graft :: bool
  im_data :: "bytes option"

record outgoing_message =
  om_topic :: string
  om_qos :: int
  om_data :: pyobj

definition msg_table :: "incoming_message \<Rightarrow> py_error + bool" where
  "msg_table m = for_table (im_topic m)"

text \<open>\<open>Topic.from_str\<close> never answers \<open>None\<close>, since splitting a text gives at least one node.\<close>

definition topic_of :: "string \<Rightarrow> topic" where
  "topic_of s = the (topic_from_str s)"

definition from_raw_data ::
    "string \<Rightarrow> bytes option \<Rightarrow> int \<Rightarrow> bool \<Rightarrow> py_error + incoming_message" where
  "from_raw_data raw_topic data qos retain =
     (if retain then
        (if raw_topic = [] then Inl IndexError
         else if last raw_topic = TOPIC_SEP then
           Inr \<lparr>im_topic = topic_of (butlast raw_topic), im_qos = qos, im_retain = True,
                im_graft = True, im_data = data\<rparr>
         else
           Inr \<lparr>im_topic = topic_of raw_topic, im_qos = qos, im_retain = True,
                im_graft = False, im_data = data\<rparr>)
      else
        Inr \<lparr>im_topic = topic_of raw_topic, im_qos = qos, im_retain = False,
             im_graft = False, im_data = data\<rparr>)"

text \<open>\<open>data.pop(LEAF_KEY, None) if isinstance(data, dict) else None\<close>, and what is left.\<close>

fun pop_flags :: "pyobj \<Rightarrow> pyobj \<times> pyobj" where
  "pop_flags (PyDict kvs) =
     ((case map_of kvs LEAF_KEY of None \<Rightarrow> PyNone | Some f \<Rightarrow> f), PyDict (AList.delete LEAF_KEY kvs))"
| "pop_flags obj = (PyNone, obj)"

definition msg_flatten_into_rows ::
    "(string \<Rightarrow> py_error + pyobj) \<Rightarrow> incoming_message \<Rightarrow> pyobj \<Rightarrow> py_error + row list" where
  "msg_flatten_into_rows loads m tree =
     (case im_data m of
        None \<Rightarrow> Inl AttributeError
      | Some raw \<Rightarrow>
          bindR (py_decode raw) (\<lambda>text. bindR (loads text) (\<lambda>obj.
            let (flags, data) = pop_flags obj
            in flatten_message_into_rows (node_list (im_topic m)) data (im_qos m) [] tree flags)))"

definition msg_get_applicable_rows :: "incoming_message \<Rightarrow> pyobj \<Rightarrow> py_error + row list" where
  "msg_get_applicable_rows m tree =
     get_applicable_rows (node_list (im_topic m)) (im_data m) (im_qos m) [] tree False"

definition as_single_row :: "incoming_message \<Rightarrow> py_error + row" where
  "as_single_row m =
     (if list_ex (\<lambda>node. \<not> is_node_static node) (node_list (im_topic m)) then Inl DynamicMessageError
      else Inr (node_list (im_topic m), im_data m, im_qos m))"

fun is_dict :: "pyobj \<Rightarrow> bool" where
  "is_dict (PyDict kvs) = True"
| "is_dict (PyRdd kvs) = True"
| "is_dict obj = False"

definition from_tree_item :: "string \<Rightarrow> int \<Rightarrow> pyobj \<Rightarrow> py_error + outgoing_message" where
  "from_tree_item topic qos tree_item =
     bindR (if is_dict tree_item then bindR (stringify tree_item) (\<lambda>b. Inr (PyBytes b))
            else Inr tree_item)
       (\<lambda>data. Inr \<lparr>om_topic = topic, om_qos = qos, om_data = data\<rparr>)"

section \<open>Reading a raw topic\<close>

lemma node_list_topic_of [simp]: "node_list (topic_of s) = topic_nodes s"
  using topic_from_str_Some [of s] by (auto simp: topic_of_def topic_nodes_def)

lemma full_str_topic_of [simp]: "full_str (topic_of s) = s"
  using topic_from_str_Some [of s] by (auto simp: topic_of_def)

lemma from_raw_data_Inr:
  "from_raw_data raw data qos retain = Inr m \<Longrightarrow>
   im_retain m = retain \<and> im_qos m = qos \<and> im_data m = data \<and>
   im_graft m = (retain \<and> last raw = TOPIC_SEP) \<and>
   full_str (im_topic m) = (if im_graft m then butlast raw else raw) \<and>
   node_list (im_topic m) = topic_nodes (if im_graft m then butlast raw else raw)"
  by (auto simp: from_raw_data_def split: if_splits)

lemma topic_nodes_path: "rdd_path (topic_nodes s)"
  using topic_nodes_clean [of LEAF_KEY s] clean_not_leaf by (auto simp: rdd_path_def)

lemma from_raw_data_path:
  "from_raw_data raw data qos retain = Inr m \<Longrightarrow> rdd_path (node_list (im_topic m))"
  by (drule from_raw_data_Inr) (simp add: topic_nodes_path)

lemma for_table_topic_of:
  "for_table (topic_of s) =
     (if s = [] \<or> hd s = TOPIC_SEP then Inl IndexError else Inr (hd s = TABLE_FLAG))"
  by (cases s) (auto simp: for_table_def topic_nodes_def split: list.splits)

text \<open>
  How a raw topic is read. A retained message with an empty topic raises; a retained topic
  with a trailing separator loses the separator and becomes a graft; in every other case the
  topic is kept as it is. The text of the topic is never changed otherwise, and payload,
  quality of service and retain flag are passed on.
\<close>

theorem from_raw_data_cases:
  "case from_raw_data raw data qos retain of
     Inl e \<Rightarrow> e = IndexError \<and> retain \<and> raw = []
   | Inr m \<Rightarrow> im_data m = data \<and> im_qos m = qos \<and> im_retain m = retain
       \<and> (im_graft m \<longleftrightarrow> retain \<and> (\<exists>pre. raw = pre @ [TOPIC_SEP]))
       \<and> raw = full_str (im_topic m) @ (if im_graft m then [TOPIC_SEP] else [])
       \<and> node_list (im_topic m) = topic_nodes (full_str (im_topic m))"
proof (cases "from_raw_data raw data qos retain")
  case (Inl e)
  then show ?thesis by (auto simp: from_raw_data_def split: if_splits)
next
  case (Inr m)
  have "retain \<Longrightarrow> raw \<noteq> []" using Inr by (auto simp: from_raw_data_def split: if_splits)
  then have "retain \<and> last raw = TOPIC_SEP \<longleftrightarrow> retain \<and> (\<exists>pre. raw = pre @ [TOPIC_SEP])"
    by (metis append_butlast_last_id last_snoc)
  with from_raw_data_Inr [OF Inr] \<open>retain \<Longrightarrow> raw \<noteq> []\<close> show ?thesis
    by (auto simp: Inr append_butlast_last_id)
qed

end
