(* ===== verification/Tree_Manager.thy ===== *)
theory Tree_Manager
  imports Messages
begin

text \<open>
  tree/manager.py: the retained tree in memory, the rows handed to the worker process, and
  what the worker writes to the database. The database is Django's (not part of the
  repository): its two statements are arguments of the worker's definition, and what the
  development relies on is the predicate \<open>store_laws\<close>.
\<close>

section \<open>The interface of a store of leaves\<close>

text \<open>
  A store that keeps a value per key: storing under a key is seen at that key and nowhere
  else. Both the retained tree and the loader that rebuilds it at start are such stores.
\<close>

locale leaf_store =
  fixes store :: "'k \<Rightarrow> 'v \<Rightarrow> 's \<Rightarrow> 's"
    and lookup :: "'s \<Rightarrow> 'k \<Rightarrow> 'v option"
    and key_ok :: "'k \<Rightarrow> bool"
    and val_ok :: "'v \<Rightarrow> bool"
    and invar :: "'s \<Rightarrow> bool"
  assumes invar_store: "invar s \<Longrightarrow> key_ok k \<Longrightarrow> val_ok v \<Longrightarrow> invar (store k v s)"
    and lookup_store: "invar s \<Longrightarrow> key_ok k \<Longrightarrow> val_ok v \<Longrightarrow> key_ok j \<Longrightarrow>
      lookup (store k v s) j = (if j = k then Some v else lookup s j)"
begin

definition store_all :: "('k \<times> 'v) list \<Rightarrow> 's \<Rightarrow> 's" where
  "store_all kvs s = foldl (\<lambda>s kv. store (fst kv) (snd kv) s) s kvs"

definition all_ok :: "('k \<times> 'v) list \<Rightarrow> bool" where
  "all_ok kvs \<longleftrightarrow> (\<forall>kv\<in>set kvs. key_ok (fst kv) \<and> val_ok (snd kv))"

lemma store_all_simps [simp]:
  "store_all [] s = s"
  "store_all (kv # kvs) s = store_all kvs (store (fst kv) (snd kv) s)"
  "store_all (kvs @ kvs') s = store_all kvs' (store_all kvs s)"
  by (simp_all add: store_all_def)

lemma all_ok_simps [simp]:
  "all_ok []" "all_ok (kv # kvs) \<longleftrightarrow> key_ok (fst kv) \<and> val_ok (snd kv) \<and> all_ok kvs"
  "all_ok (kvs @ kvs') \<longleftrightarrow> all_ok kvs \<and> all_ok kvs'"
  by (auto simp: all_ok_def)

lemma invar_store_all: "invar s \<Longrightarrow> all_ok kvs \<Longrightarrow> invar (store_all kvs s)"
  by (induction kvs arbitrary: s) (auto intro: invar_store)

text \<open>The last write to a key is the one that is read.\<close>

lemma lookup_store_all:
  "invar s \<Longrightarrow> all_ok kvs \<Longrightarrow> key_ok j \<Longrightarrow>
   lookup (store_all kvs s) j = (case map_of (rev kvs) j of Some v \<Rightarrow> Some v | None \<Rightarrow> lookup s j)"
proof (induction kvs arbitrary: s)
  case (Cons kv kvs)
  then show ?case
    by (cases kv) (auto simp: invar_store lookup_store map_add_def split: option.split)
qed simp

lemma lookup_store_all_distinct:
  "invar s \<Longrightarrow> all_ok kvs \<Longrightarrow> key_ok j \<Longrightarrow> distinct (map fst kvs) \<Longrightarrow>
   lookup (store_all kvs s) j = (case map_of kvs j of Some v \<Rightarrow> Some v | None \<Rightarrow> lookup s j)"
  by (simp add: lookup_store_all map_of_rev_distinct)

end

section \<open>The retained tree in memory\<close>

record tree_manager =
  tm_tree :: pyobj
  tm_tasks :: "row list"

definition tm_add_tasks :: "row list \<Rightarrow> tree_manager \<Rightarrow> tree_manager" where
  "tm_add_tasks rows tm = tm\<lparr>tm_tasks := tm_tasks tm @ rows\<rparr>"

text \<open>
  The body and the loop of \<open>retain_rows\<close>: an exception leaves the rows stored so far in the
  tree. The tree's \<open>default_type\<close> answers \<open>None\<close>.
\<close>

definition retain_row :: "row \<Rightarrow> pyobj \<Rightarrow> (py_error + unit) \<times> pyobj" where
  "retain_row row tree =
     rdd_truediv PyNone (fst row)
       (\<lambda>branch. if branch = PyNone then (Inr (), branch)
                 else set_leaf (obj_of_data (fst (snd row))) branch) tree"

fun retain_loop :: "row list \<Rightarrow> pyobj \<Rightarrow> (py_error + unit) \<times> pyobj" where
  "retain_loop [] tree = (Inr (), tree)"
| "retain_loop (row # rows) tree =
     (case retain_row row tree of
        (Inl e, tree') \<Rightarrow> (Inl e, tree')
      | (Inr _, tree') \<Rightarrow> retain_loop rows tree')"

text \<open>The whole of it for a thread that no other one interrupts; \<open>Publishers\<close> has the single steps.\<close>

definition retain_rows :: "row list \<Rightarrow> tree_manager \<Rightarrow> (py_error + unit) \<times> tree_manager" where
  "retain_rows rows tm =
     (let tm1 = tm_add_tasks rows tm; (r, tree') = retain_loop rows (tm_tree tm1)
      in (r, tm1\<lparr>tm_tree := tree'\<rparr>))"

definition process_message ::
    "(string \<Rightarrow> py_error + pyobj) \<Rightarrow> incoming_message \<Rightarrow> tree_manager
     \<Rightarrow> (py_error + row list) \<times> tree_manager" where
  "process_message loads m tm =
     (case (if im_graft m then msg_flatten_into_rows loads m (tm_tree tm)
            else msg_get_applicable_rows m (tm_tree tm)) of
        Inl e \<Rightarrow> (Inl e, tm)
      | Inr rows \<Rightarrow>
          (let (r, tm') = retain_rows rows tm in (bindR r (\<lambda>_. Inr rows), tm')))"

text \<open>The first half of it by itself: the rows of a message.\<close>

definition message_rows :: "(string \<Rightarrow> py_error + pyobj) \<Rightarrow> incoming_message \<Rightarrow> pyobj \<Rightarrow> py_error + row list" where
  "message_rows loads m tree =
     (if im_graft m then msg_flatten_into_rows loads m tree else msg_get_applicable_rows m tree)"

lemma process_message_rows:
  "process_message loads m tm =
     (case message_rows loads m (tm_tree tm) of
        Inl e \<Rightarrow> (Inl e, tm)
      | Inr rows \<Rightarrow> (let (r, tm') = retain_rows rows tm in (bindR r (\<lambda>_. Inr rows), tm')))"
  by (simp add: process_message_def message_rows_def)

definition tm_filter :: "topic \<Rightarrow> pyobj \<Rightarrow> py_error + pyobj" where
  "tm_filter t tree = filter_tree_with_topic (node_list t) tree False"

definition tm_get_message :: "topic \<Rightarrow> int \<Rightarrow> pyobj \<Rightarrow> py_error + outgoing_message" where
  "tm_get_message t qos tree =
     bindR (tm_filter t tree) (\<lambda>tree_item. from_tree_item (full_str t) qos tree_item)"

section \<open>Loading\<close>

text \<open>
  \<open>preload\<close>: the inner loop follows the non-empty nodes from the root, then stores the
  leaf; a stored \<open>None\<close> loads as \<open>None\<close>.
\<close>

fun preload_store :: "string list \<Rightarrow> pyobj \<Rightarrow> pyobj \<Rightarrow> pyobj" where
  "preload_store [] data (PyRdd kvs) = PyRdd (AList.update LEAF_KEY data kvs)"
| "preload_store (node # nodes) data (PyRdd kvs) =
     (let (pointer, kvs1) = rdd_getitem PyNone node kvs
      in PyRdd (AList.update node (preload_store nodes data pointer) kvs1))"
| "preload_store nodes data obj = obj"

definition preload_nodes :: "string \<Rightarrow> string list" where
  "preload_nodes topic = filter (\<lambda>node. node \<noteq> []) (split_char TOPIC_SEP topic)"

definition preload :: "(string \<times> bytes option) list \<Rightarrow> pyobj" where
  "preload messages =
     foldl (\<lambda>results m. preload_store (preload_nodes (fst m)) (obj_of_data (snd m)) results)
       (PyRdd []) messages"

section \<open>The worker\<close>

text \<open>
  \<open>run_tasks\<close>, with the delete and the upsert statement of the database as arguments: all
  deletions of the batch run before all its stores.
\<close>

definition delete_list :: "row list \<Rightarrow> string list" where
  "delete_list messages =
     map (\<lambda>r. join_char TOPIC_SEP (fst r)) (filter (\<lambda>r. fst (snd r) = None) messages)"

definition create_list :: "row list \<Rightarrow> (string \<times> bytes \<times> int) list" where
  "create_list messages =
     map (\<lambda>r. (join_char TOPIC_SEP (fst r), the (fst (snd r)), snd (snd r)))
       (filter (\<lambda>r. fst (snd r) \<noteq> None) messages)"

definition run_tasks ::
    "(string list \<Rightarrow> 'db \<Rightarrow> 'db) \<Rightarrow> ((string \<times> bytes \<times> int) list \<Rightarrow> 'db \<Rightarrow> 'db)
     \<Rightarrow> row list \<Rightarrow> 'db \<Rightarrow> 'db" where
  "run_tasks db_delete db_upsert messages db =
     (let db1 = (if delete_list messages \<noteq> [] then db_delete (delete_list messages) db else db)
      in if create_list messages \<noteq> [] then db_upsert (create_list messages) db1 else db1)"

text \<open>
  What is relied on: the delete statement removes the named topics, the upsert of rows with
  distinct topics inserts or overwrites them, and neither touches another topic.
\<close>

definition store_laws ::
    "(string list \<Rightarrow> 'db \<Rightarrow> 'db) \<Rightarrow> ((string \<times> bytes \<times> int) list \<Rightarrow> 'db \<Rightarrow> 'db)
     \<Rightarrow> ('db \<Rightarrow> string \<Rightarrow> (bytes \<times> int) option) \<Rightarrow> bool" where
  "store_laws db_delete db_upsert db_lookup \<longleftrightarrow>
     (\<forall>ts db t. db_lookup (db_delete ts db) t = (if t \<in> set ts then None else db_lookup db t)) \<and>
     (\<forall>rs db t. distinct (map fst rs) \<longrightarrow>
        db_lookup (db_upsert rs db) t =
          (case map_of rs t of Some v \<Rightarrow> Some v | None \<Rightarrow> db_lookup db t))"

section \<open>The tree is a store of leaves\<close>

definition tree_store :: "string list \<Rightarrow> pyobj \<Rightarrow> pyobj \<Rightarrow> pyobj" where
  "tree_store path v tree = snd (rdd_truediv PyNone path (set_leaf v) tree)"

interpretation retained: leaf_store tree_store leaf_at rdd_path is_data wf_tree
proof
  fix s k v assume h: "wf_tree s" "rdd_path k" "is_data v"
  from rdd_truediv_set_leaf [where P = is_data, OF h]
  show "wf_tree (tree_store k v s)" by (simp add: tree_store_def)
  fix j assume "rdd_path j"
  with rdd_truediv_set_leaf [where P = is_data, OF h]
  show "leaf_at (tree_store k v s) j = (if j = k then Some v else leaf_at s j)"
    by (simp add: tree_store_def rdd_path_def)
qed

definition leaf_path :: "string list \<Rightarrow> bool" where
  "leaf_path path \<longleftrightarrow> LEAF_KEY \<notin> set path"

lemma preload_store_Cons:
  "n \<noteq> LEAF_KEY \<Longrightarrow> preload_store (n # ns) v (PyRdd kvs) =
     PyRdd (AList.update n (preload_store ns v (child_or kvs n)) kvs)"
  using rdd_getitem_child(1) [of n PyNone kvs] rdd_getitem_child(2) [of n _ PyNone kvs]
  by (cases "rdd_getitem PyNone n kvs") auto

declare preload_store.simps(2) [simp del]

lemma preload_store_spec:
  assumes "wf_tree t" and "leaf_path k" and "is_data v"
  shows "wf_tree (preload_store k v t) \<and>
    (\<forall>j. leaf_path j \<longrightarrow> leaf_at (preload_store k v t) j = (if j = k then Some v else leaf_at t j))"
  using assms
proof (induction k arbitrary: t)
  case Nil
  then obtain kvs where "t = PyRdd kvs" by (blast dest: wf_rdd_ex)
  with Nil show ?case
    by (auto simp: leaf_path_def leaf_at_update simp del: wf_rdd.simps intro!: wf_rdd_update
        split: list.splits)
next
  case (Cons n ns)
  then obtain kvs where t: "t = PyRdd kvs" by (blast dest: wf_rdd_ex)
  have n: "n \<noteq> LEAF_KEY" "leaf_path ns" using Cons.prems(2) by (auto simp: leaf_path_def)
  have "wf_tree (child_or kvs n)" using Cons.prems(1) n by (simp add: t wf_child_or)
  from Cons.IH [OF this n(2) Cons.prems(3)] Cons.prems(1) n(1) show ?case
    by (auto simp: t preload_store_Cons leaf_path_def leaf_at_update leaf_at_child_or
        simp del: wf_rdd.simps intro!: wf_rdd_update split: list.splits)
qed

interpretation loaded: leaf_store preload_store leaf_at leaf_path is_data wf_tree
  by unfold_locales (use preload_store_spec in blast)+

section \<open>The loop stores the rows\<close>

definition row_leaf :: "row \<Rightarrow> string list \<times> pyobj" where
  "row_leaf r = (fst r, obj_of_data (fst (snd r)))"

lemma is_data_obj [simp]: "is_data (obj_of_data d)"
  by (cases d) auto

lemma map_fst_row_leaf [simp]: "map fst (map row_leaf rows) = map fst rows"
  by (simp add: row_leaf_def)

lemma rdd_truediv_agree:
  assumes "wf_rdd P t" and "rdd_path path" and "\<And>kvs. f (PyRdd kvs) = g (PyRdd kvs)"
  shows "rdd_truediv d path f t = rdd_truediv d path g t"
  using assms(1,2)
proof (induction path arbitrary: t)
  case (Cons n ns)
  from Cons.prems(1) obtain kvs where t: "t = PyRdd kvs" by (blast dest: wf_rdd_ex)
  from Cons.prems(2) have n: "n \<noteq> LEAF_KEY" by (auto simp: rdd_path_def)
  have wfc: "wf_rdd P (child_or kvs n)" using Cons.prems(1) n by (simp add: t wf_child_or)
  then obtain kvs' where c: "child_or kvs n = PyRdd kvs'" by (blast dest: wf_rdd_ex)
  have "ns \<noteq> [] \<Longrightarrow> rdd_path ns" using Cons.prems(2) by (simp add: rdd_path_def)
  with Cons.IH [OF wfc] show ?case
    using n Cons.prems(1) by (simp add: t rdd_truediv_Cons c assms(3) del: wf_rdd.simps)
qed (simp add: rdd_path_def)

lemma retain_row_eq:
  assumes "wf_tree t" and "rdd_path (fst row)"
  shows "retain_row row t = (Inr (), tree_store (fst row) (obj_of_data (fst (snd row))) t)"
proof -
  let ?v = "obj_of_data (fst (snd row))"
  have "retain_row row t = rdd_truediv PyNone (fst row) (set_leaf ?v) t"
    unfolding retain_row_def using assms by (rule rdd_truediv_agree) simp
  with rdd_truediv_set_leaf [where P = is_data and d = PyNone and v = ?v, OF assms] show ?thesis
    by (simp add: tree_store_def prod_eq_iff)
qed

definition rows_ok :: "row list \<Rightarrow> bool" where
  "rows_ok rows \<longleftrightarrow> (\<forall>r\<in>set rows. rdd_path (fst r))"

lemma rows_ok_all [simp]: "retained.all_ok (map row_leaf rows) \<longleftrightarrow> rows_ok rows"
  by (auto simp: retained.all_ok_def rows_ok_def row_leaf_def)

lemma retain_loop_eq:
  "wf_tree t \<Longrightarrow> rows_ok rows \<Longrightarrow>
   retain_loop rows t = (Inr (), retained.store_all (map row_leaf rows) t)"
proof (induction rows arbitrary: t)
  case (Cons r rows)
  then have "rdd_path (fst r)" "rows_ok rows" by (simp_all add: rows_ok_def)
  with Cons show ?case by (simp add: retain_row_eq row_leaf_def retained.invar_store)
qed simp

lemma map_of_row_leaf:
  "map_of (map row_leaf rows) p = map_option (\<lambda>v. obj_of_data (fst v)) (map_of rows p)"
  by (induction rows) (auto simp: row_leaf_def)

lemma retain_rows_aux:
  assumes "wf_tree (tm_tree tm)" and "rows_ok rows"
  shows "\<exists>tree'. retain_rows rows tm =
      (Inr (), tm\<lparr>tm_tree := tree', tm_tasks := tm_tasks tm @ rows\<rparr>)
    \<and> wf_tree tree'
    \<and> (\<forall>p. rdd_path p \<longrightarrow> leaf_at tree' p =
         (case map_of (rev rows) p of
            Some v \<Rightarrow> Some (obj_of_data (fst v)) | None \<Rightarrow> leaf_at (tm_tree tm) p))"
proof -
  let ?t = "retained.store_all (map row_leaf rows) (tm_tree tm)"
  have "leaf_at ?t p = (case map_of (rev rows) p of
      Some v \<Rightarrow> Some (obj_of_data (fst v)) | None \<Rightarrow> leaf_at (tm_tree tm) p)" if "rdd_path p" for p
    using assms that retained.lookup_store_all [of "tm_tree tm" "map row_leaf rows" p]
    by (simp add: rev_map map_of_row_leaf split: option.split)
  moreover have "wf_tree ?t" using assms by (simp add: retained.invar_store_all)
  ultimately show ?thesis
    using assms
    by (cases tm) (auto simp: retain_rows_def tm_add_tasks_def retain_loop_eq intro!: exI [of _ ?t])
qed

text \<open>All rows of one message carry the same payload.\<close>

lemma map_of_uniform:
  assumes "distinct (map fst rows)" and "set rows = {(p, v) | p. Q p}"
  shows "map_of rows p = (if Q p then Some v else None)"
proof (cases "Q p")
  case True
  then have "(p, v) \<in> set rows" using assms(2) by blast
  with assms(1) True show ?thesis by simp
next
  case False
  with assms(2) have "p \<notin> fst ` set rows" by auto
  with False show ?thesis by (simp add: map_of_eq_None_iff)
qed

lemma retain_uniform:
  assumes "wf_tree (tm_tree tm)" and "distinct (map fst rows)"
    and "set rows = {(p, data, qos) | p. Q p}" and "\<And>p. Q p \<Longrightarrow> rdd_path p"
  shows "\<exists>tree'. retain_rows rows tm =
      (Inr (), tm\<lparr>tm_tree := tree', tm_tasks := tm_tasks tm @ rows\<rparr>)
    \<and> wf_tree tree'
    \<and> (\<forall>p. rdd_path p \<longrightarrow> leaf_at tree' p =
         (if Q p then Some (obj_of_data data) else leaf_at (tm_tree tm) p))"
proof -
  have "rows_ok rows" using assms(3,4) by (auto simp: rows_ok_def)
  moreover have "map_of (rev rows) p = (if Q p then Some (data, qos) else None)" for p
    using map_of_uniform [OF assms(2,3)] map_of_rev_distinct [OF assms(2)] by simp
  ultimately show ?thesis
    using retain_rows_aux [OF assms(1), of rows] by (force split: if_splits)
qed

lemma applicable_path: "topic \<noteq> [] \<Longrightarrow> applicable fw topic tree p \<Longrightarrow> rdd_path p"
  by (cases topic) (auto simp: applicable_def rdd_path_def topic_match_Cons)

lemma process_publish_aux:
  assumes "wf_tree (tm_tree tm)" and "from_raw_data raw data qos True = Inr m"
    and "\<not> im_graft m" and "EVERYTHING_CARD \<notin> set (topic_nodes raw)"
  shows "\<exists>rows tree'. process_message loads m tm =
      (Inr rows, tm\<lparr>tm_tree := tree', tm_tasks := tm_tasks tm @ rows\<rparr>)
    \<and> set rows = {(p, data, qos) | p. applicable False (topic_nodes raw) (tm_tree tm) p}
    \<and> distinct (map fst rows) \<and> wf_tree tree'
    \<and> (\<forall>p. rdd_path p \<longrightarrow> leaf_at tree' p =
         (if applicable False (topic_nodes raw) (tm_tree tm) p then Some (obj_of_data data)
          else leaf_at (tm_tree tm) p))"
proof -
  have m: "im_data m = data" "im_qos m = qos" "node_list (im_topic m) = topic_nodes raw"
    using from_raw_data_Inr [OF assms(2)] assms(3) by auto
  obtain rows where rows: "msg_get_applicable_rows m (tm_tree tm) = Inr rows"
    "set rows = {(p, data, qos) | p. applicable False (topic_nodes raw) (tm_tree tm) p}"
    "distinct (map fst rows)"
    using get_applicable_rows_spec [OF assms(1) topic_nodes_path assms(4), of data qos "[]" False] m
    by (auto simp: msg_get_applicable_rows_def)
  have "\<exists>tree'. retain_rows rows tm =
      (Inr (), tm\<lparr>tm_tree := tree', tm_tasks := tm_tasks tm @ rows\<rparr>)
    \<and> wf_tree tree'
    \<and> (\<forall>p. rdd_path p \<longrightarrow> leaf_at tree' p =
         (if applicable False (topic_nodes raw) (tm_tree tm) p then Some (obj_of_data data)
          else leaf_at (tm_tree tm) p))"
    using assms(1) rows(3,2) by (rule retain_uniform) (auto intro: applicable_path [OF topic_nodes_not_Nil])
  with rows assms(3) show ?thesis by (force simp: process_message_def)
qed

text \<open>The answer of a subscription to a filter without \<open>#\<close>.\<close>

lemma filter_answers:
  assumes "wf_tree tree" and "EVERYTHING_CARD \<notin> set (topic_nodes f)"
  shows "\<exists>r. tm_filter (topic_of f) tree = Inr r
    \<and> (\<forall>p b. topic_match (topic_nodes f) p \<and> LEAF_KEY \<notin> set p \<and> b \<noteq> [] \<longrightarrow>
         obj_at r (captures (topic_nodes f) p) = Some (PyBytes b) \<longleftrightarrow> leaf_at tree p = Some (PyBytes b))"
proof -
  have "case filter_tree_with_topic (topic_nodes f) tree False of
           Inr r \<Rightarrow> True
         | Inl e \<Rightarrow> e = InvalidEverythingCard \<and> EVERYTHING_CARD \<in> set (butlast (topic_nodes f))"
    by (rule filter_tree_total_aux [OF assms(1) topic_nodes_path])
  then obtain r where r: "filter_tree_with_topic (topic_nodes f) tree False = Inr r"
    using assms(2) by (auto split: sum.splits dest: in_set_butlastD)
  then show ?thesis
    using filter_tree_leaf_aux [OF assms(1) topic_nodes_path assms(2) _ _ _ r]
    by (auto simp: tm_filter_def)
qed

text \<open>A publish to \<open>pre/#\<close> rewrites the leaves strictly below the paths that match \<open>pre\<close>.\<close>

lemma process_everything_aux:
  assumes "wf_tree (tm_tree tm)" and "from_raw_data raw data qos True = Inr m"
    and "\<not> im_graft m" and "topic_nodes raw = pre @ [EVERYTHING_CARD]"
    and "EVERYTHING_CARD \<notin> set pre"
  shows "\<exists>rows tree'. process_message loads m tm =
      (Inr rows, tm\<lparr>tm_tree := tree', tm_tasks := tm_tasks tm @ rows\<rparr>)
    \<and> set rows = {(p, data, qos) | p. below pre (tm_tree tm) p}
    \<and> distinct (map fst rows) \<and> wf_tree tree'
    \<and> (\<forall>p. rdd_path p \<longrightarrow> leaf_at tree' p =
         (if below pre (tm_tree tm) p then Some (obj_of_data data) else leaf_at (tm_tree tm) p))"
proof -
  have m: "im_data m = data" "im_qos m = qos" "node_list (im_topic m) = pre @ [EVERYTHING_CARD]"
    using from_raw_data_Inr [OF assms(2)] assms(3,4) by auto
  have "LEAF_KEY \<notin> set pre" using topic_nodes_path [of raw] assms(4) by (auto simp: rdd_path_def)
  then obtain rows where rows: "msg_get_applicable_rows m (tm_tree tm) = Inr rows"
    "set rows = {(p, data, qos) | p. below pre (tm_tree tm) p}" "distinct (map fst rows)"
    using get_applicable_rows_everything [OF assms(1) _ assms(5), of data qos "[]" False] m
    by (auto simp: msg_get_applicable_rows_def)
  have "\<exists>tree'. retain_rows rows tm =
      (Inr (), tm\<lparr>tm_tree := tree', tm_tasks := tm_tasks tm @ rows\<rparr>)
    \<and> wf_tree tree'
    \<and> (\<forall>p. rdd_path p \<longrightarrow> leaf_at tree' p =
         (if below pre (tm_tree tm) p then Some (obj_of_data data) else leaf_at (tm_tree tm) p))"
    using assms(1) rows(3,2) by (rule retain_uniform) (auto simp: below_def rdd_path_def)
  with rows assms(3) show ?thesis by (force simp: process_message_def)
qed

section \<open>Grafting a JSON tree\<close>

lemma distinct_payload_leaves: "payload n obj \<Longrightarrow> distinct (map fst (payload_leaves obj))"
proof (induction obj arbitrary: n rule: payload_leaves.induct)
  case (2 kvs)
  then obtain m where n: "n = Suc m" by (cases n) auto
  have "distinct (map fst (concat (map (\<lambda>(k, v). map (\<lambda>(p, s). (k # p, s)) (payload_leaves v)) kvs)))"
  proof (rule distinct_concat_branches [where kf = hd])
    show "distinct (dkeys kvs)" using "2.prems" by (simp add: n)
    fix k v assume kv: "(k, v) \<in> set kvs"
    have "payload m v" using "2.prems" kv by (auto simp: n)
    with "2.IH" [OF kv refl]
    show "distinct (map fst ((\<lambda>(k, v). map (\<lambda>(p, s). (k # p, s)) (payload_leaves v)) (k, v)))
      \<and> (\<forall>y\<in>set ((\<lambda>(k, v). map (\<lambda>(p, s). (k # p, s)) (payload_leaves v)) (k, v)). hd (fst y) = k)"
      by (auto simp: comp_def case_prod_beta' distinct_map inj_on_def)
  qed
  then show ?case by simp
qed auto

definition graft_rows :: "string list \<Rightarrow> pyobj \<Rightarrow> int \<Rightarrow> row list" where
  "graft_rows topic data qos =
     map (\<lambda>(p, s). (fill topic p, Some (raw_bytes s), qos)) (payload_leaves data)"

lemma fill_path:
  assumes "rdd_path topic" and "LEAF_KEY \<notin> set p" and "length p = wilds topic"
  shows "rdd_path (fill topic p)"
proof -
  have "LEAF_KEY \<notin> set topic \<Longrightarrow> LEAF_KEY \<notin> set p \<Longrightarrow> length p = wilds topic
      \<Longrightarrow> LEAF_KEY \<notin> set (fill topic p)"
    by (induction topic p rule: fill.induct) (auto simp: wilds_def split: list.splits if_splits)
  moreover have "topic \<noteq> [] \<Longrightarrow> fill topic p \<noteq> []" by (cases topic) (auto split: list.splits)
  ultimately show ?thesis using assms by (simp add: rdd_path_def)
qed

lemma pop_flags_payload: "payload n data \<Longrightarrow> pop_flags data = (PyNone, data)"
proof (cases data)
  case (PyDict kvs)
  moreover assume "payload n data"
  ultimately have "LEAF_KEY \<notin> set (dkeys kvs)" by (cases n) auto
  moreover from this have "map_of kvs LEAF_KEY = None" by (simp add: map_of_eq_None_iff)
  ultimately show ?thesis using PyDict by (simp add: AList.delete_id)
qed auto

lemma graft_rows_props:
  assumes "payload (wilds topic) data" and "rdd_path topic" and "EVERYTHING_CARD \<notin> set topic"
  shows "distinct (map fst (graft_rows topic data qos))" and "rows_ok (graft_rows topic data qos)"
proof -
  have len: "length p = wilds topic \<and> LEAF_KEY \<notin> set p" if "(p, s) \<in> set (payload_leaves data)" for p s
    using payload_leaves_props [OF assms(1) that] by simp
  have "inj_on (fill topic) (fst ` set (payload_leaves data))"
    by (rule inj_on_inverseI [where g = "captures topic"]) (use len fill_props(3) [OF assms(3)] in auto)
  then have "distinct (map (fill topic) (map fst (payload_leaves data)))"
    using distinct_payload_leaves [OF assms(1)]
    by (subst distinct_map) (simp add: image_image)
  then show "distinct (map fst (graft_rows topic data qos))"
    by (simp add: graft_rows_def comp_def case_prod_beta')
  show "rows_ok (graft_rows topic data qos)"
    using len fill_path [OF assms(2)] by (auto simp: rows_ok_def graft_rows_def)
qed

lemma process_graft_aux:
  fixes qos :: int
  assumes "wf_tree (tm_tree tm)" and "from_raw_data raw (Some bs) qos True = Inr m"
    and "im_graft m" and "py_decode bs = Inr text" and "loads text = Inr data"
    and "payload (wilds (topic_nodes (butlast raw))) data"
    and "EVERYTHING_CARD \<notin> set (topic_nodes (butlast raw))"
  defines "rows \<equiv> graft_rows (topic_nodes (butlast raw)) data qos"
  shows "\<exists>tree'. process_message loads m tm =
      (Inr rows, tm\<lparr>tm_tree := tree', tm_tasks := tm_tasks tm @ rows\<rparr>)
    \<and> wf_tree tree'
    \<and> (\<forall>p. rdd_path p \<longrightarrow> leaf_at tree' p =
         (case map_of rows p of Some v \<Rightarrow> Some (obj_of_data (fst v)) | None \<Rightarrow> leaf_at (tm_tree tm) p))"
proof -
  have m: "im_data m = Some bs" "im_qos m = qos" "node_list (im_topic m) = topic_nodes (butlast raw)"
    using from_raw_data_Inr [OF assms(2)] assms(3) by auto
  have flat: "msg_flatten_into_rows loads m (tm_tree tm) = Inr rows"
    using flatten_rows [OF assms(6) topic_nodes_not_Nil _ assms(7), of "tm_tree tm" PyNone qos "[]"]
      topic_nodes_path [of "butlast raw"] assms(1)
    by (simp add: msg_flatten_into_rows_def m assms(4,5) pop_flags_payload [OF assms(6)] rows_def
        graft_rows_def ok_tree_def rdd_path_def)
  note props = graft_rows_props [OF assms(6) topic_nodes_path assms(7), of qos, folded rows_def]
  have "\<exists>tree'. retain_rows rows tm =
      (Inr (), tm\<lparr>tm_tree := tree', tm_tasks := tm_tasks tm @ rows\<rparr>)
    \<and> wf_tree tree'
    \<and> (\<forall>p. rdd_path p \<longrightarrow> leaf_at tree' p =
         (case map_of rows p of Some v \<Rightarrow> Some (obj_of_data (fst v)) | None \<Rightarrow> leaf_at (tm_tree tm) p))"
    using retain_rows_aux [OF assms(1) props(2)] map_of_rev_distinct [OF props(1)] by simp
  with flat assms(3) show ?thesis by (force simp: process_message_def)
qed

section \<open>Memory and database\<close>

text \<open>
  The database agrees with the tree when every topic has in the database the bytes its leaf
  holds in memory, and no row when the leaf is missing or \<open>None\<close>.
\<close>

fun leaf_bytes :: "pyobj option \<Rightarrow> bytes option" where
  "leaf_bytes (Some (PyBytes b)) = Some b"
| "leaf_bytes _ = None"

definition coherent :: "pyobj \<Rightarrow> (string \<Rightarrow> (bytes \<times> int) option) \<Rightarrow> bool" where
  "coherent tree look \<longleftrightarrow>
     (\<forall>topic. map_option fst (look topic) = leaf_bytes (leaf_at tree (topic_nodes topic)))"

lemma leaf_bytes_obj [simp]: "leaf_bytes (Some (obj_of_data d)) = d"
  by (cases d) auto

definition clean_rows :: "row list \<Rightarrow> bool" where
  "clean_rows rows \<longleftrightarrow> (\<forall>r\<in>set rows. fst r \<noteq> [] \<and> (\<forall>n\<in>set (fst r). clean_node n))"

lemma clean_rows_ok: "clean_rows rows \<Longrightarrow> rows_ok rows"
  by (auto simp: clean_rows_def rows_ok_def rdd_path_def dest: clean_not_leaf)

lemma clean_row_key:
  "clean_rows rows \<Longrightarrow> r \<in> set rows \<Longrightarrow> join_char TOPIC_SEP (fst r) = t \<longleftrightarrow> fst r = topic_nodes t"
  by (metis clean_rows_def join_topic_nodes topic_nodes_join)

lemma map_of_create_list:
  assumes "clean_rows rows" and "distinct (map fst rows)"
  shows "map_of (create_list rows) t =
    (case map_of rows (topic_nodes t) of Some (Some b, q) \<Rightarrow> Some (b, q) | _ \<Rightarrow> None)"
  using assms
proof (induction rows)
  case (Cons r rows)
  obtain p d q where r: "r = (p, d, q)" by (cases r)
  have "clean_rows rows" using Cons.prems(1) by (simp add: clean_rows_def)
  then have IH: "map_of (create_list rows) t =
      (case map_of rows (topic_nodes t) of Some (Some b, q) \<Rightarrow> Some (b, q) | _ \<Rightarrow> None)"
    using Cons.IH Cons.prems(2) by simp
  have key: "join_char TOPIC_SEP p = t \<longleftrightarrow> p = topic_nodes t"
    using clean_row_key [OF Cons.prems(1), of r t] by (simp add: r)
  show ?case
  proof (cases "p = topic_nodes t")
    case True
    then have "map_of rows (topic_nodes t) = None"
      using Cons.prems(2) by (simp add: r map_of_eq_None_iff)
    with True key IH show ?thesis by (cases d) (simp_all add: create_list_def r)
  next
    case False
    with key IH show ?thesis by (cases d) (auto simp add: create_list_def r)
  qed
qed (simp add: create_list_def)

lemma distinct_create_list:
  assumes "clean_rows rows" and "distinct (map fst rows)"
  shows "distinct (map fst (create_list rows))"
proof -
  have "inj_on (join_char TOPIC_SEP) (fst ` set rows)"
    by (rule inj_on_inverseI [where g = topic_nodes])
       (use assms(1) topic_nodes_join in \<open>force simp: clean_rows_def\<close>)
  then have "distinct (map (\<lambda>r. join_char TOPIC_SEP (fst r)) rows)"
    using assms(2) by (simp add: distinct_map inj_on_def)
  then show ?thesis by (simp add: create_list_def comp_def distinct_map_filter)
qed

lemma delete_list_mem:
  assumes "clean_rows rows"
  shows "t \<in> set (delete_list rows) \<longleftrightarrow> (\<exists>q. (topic_nodes t, None, q) \<in> set rows)"
proof -
  have "t \<in> set (delete_list rows) \<longleftrightarrow>
      (\<exists>r\<in>set rows. join_char TOPIC_SEP (fst r) = t \<and> fst (snd r) = None)"
    unfolding delete_list_def set_map set_filter image_iff by blast
  also have "\<dots> \<longleftrightarrow> (\<exists>r\<in>set rows. fst r = topic_nodes t \<and> fst (snd r) = None)"
    using clean_row_key [OF assms] by (intro bex_cong refl) simp
  finally show ?thesis unfolding Bex_def split_paired_Ex fst_conv snd_conv by blast
qed

lemma delete_list_iff:
  "clean_rows rows \<Longrightarrow> distinct (map fst rows) \<Longrightarrow>
   t \<in> set (delete_list rows) \<longleftrightarrow> (\<exists>q. map_of rows (topic_nodes t) = Some (None, q))"
  by (simp add: delete_list_mem)

lemma run_tasks_aux:
  assumes "store_laws db_delete db_upsert db_lookup"
    and "clean_rows rows" and "distinct (map fst rows)"
  shows "db_lookup (run_tasks db_delete db_upsert rows db) t =
    (case map_of rows (topic_nodes t) of
       Some (Some b, q) \<Rightarrow> Some (b, q) | Some (None, q) \<Rightarrow> None | None \<Rightarrow> db_lookup db t)"
proof -
  have del: "db_lookup (db_delete ts db) t = (if t \<in> set ts then None else db_lookup db t)" for ts db
    using assms(1) by (simp add: store_laws_def)
  have ups: "db_lookup (db_upsert (create_list rows) db) t =
      (case map_of (create_list rows) t of Some v \<Rightarrow> Some v | None \<Rightarrow> db_lookup db t)" for db
    using assms(1) distinct_create_list [OF assms(2,3)] by (simp add: store_laws_def)
  have "db_lookup (run_tasks db_delete db_upsert rows db) t =
      (case map_of (create_list rows) t of Some v \<Rightarrow> Some v
       | None \<Rightarrow> if t \<in> set (delete_list rows) then None else db_lookup db t)"
    by (auto simp: run_tasks_def Let_def del ups split: option.split)
  then show ?thesis
    by (auto simp: map_of_create_list [OF assms(2,3)] delete_list_iff [OF assms(2,3)]
        split: option.splits)
qed

lemma flush_aux:
  assumes "store_laws db_delete db_upsert db_lookup" and "wf_tree tree"
    and "clean_rows rows" and "distinct (map fst rows)" and "coherent tree (db_lookup db)"
  shows "\<exists>tree'. retain_loop rows tree = (Inr (), tree') \<and> wf_tree tree'
    \<and> coherent tree' (db_lookup (run_tasks db_delete db_upsert rows db))"
proof -
  let ?t = "retained.store_all (map row_leaf rows) tree"
  have ok: "rows_ok rows" using assms(3) by (rule clean_rows_ok)
  have wf: "wf_tree ?t" using assms(2) ok by (simp add: retained.invar_store_all)
  have look: "leaf_at ?t (topic_nodes t) = (case map_of rows (topic_nodes t) of
      Some v \<Rightarrow> Some (obj_of_data (fst v)) | None \<Rightarrow> leaf_at tree (topic_nodes t))" for t
    using retained.lookup_store_all_distinct [OF assms(2), of "map row_leaf rows" "topic_nodes t"]
      ok assms(4) topic_nodes_path [of t]
    by (simp add: map_of_row_leaf comp_def row_leaf_def split: option.split)
  have "map_option fst (db_lookup (run_tasks db_delete db_upsert rows db) t) =
      leaf_bytes (leaf_at ?t (topic_nodes t))" for t
    using assms(5)
    by (simp add: run_tasks_aux [OF assms(1,3,4)] look coherent_def split: option.split)
  with wf retain_loop_eq [OF assms(2) ok] show ?thesis by (simp add: coherent_def)
qed

lemma preload_store_all:
  "preload ms = loaded.store_all (map (\<lambda>m. (preload_nodes (fst m), obj_of_data (snd m))) ms) (PyRdd [])"
  by (simp add: preload_def loaded.store_all_def foldl_map)

lemma preload_nodes_full: "[] \<notin> set (topic_nodes t) \<Longrightarrow> preload_nodes t = topic_nodes t"
  by (auto simp: preload_nodes_def topic_nodes_def filter_id_conv)

lemma map_of_topics:
  "map_of (map (\<lambda>m. (topic_nodes (fst m), g (snd m))) ms) (topic_nodes t) = map_option g (map_of ms t)"
proof (induction ms)
  case (Cons m ms)
  moreover have "topic_nodes (fst m) = topic_nodes t \<longleftrightarrow> fst m = t"
    by (metis join_topic_nodes)
  ultimately show ?case by (cases m) auto
qed simp

lemma preload_aux:
  assumes "distinct (map fst ms)" and "\<And>t. t \<in> set (map fst ms) \<Longrightarrow> [] \<notin> set (topic_nodes t)"
  shows "wf_tree (preload ms)"
    and "leaf_at (preload ms) (topic_nodes topic) = map_option obj_of_data (map_of ms topic)"
proof -
  let ?kvs = "map (\<lambda>m. (topic_nodes (fst m), obj_of_data (snd m))) ms"
  have kvs: "map (\<lambda>m. (preload_nodes (fst m), obj_of_data (snd m))) ms = ?kvs"
    using assms(2) by (auto simp: preload_nodes_full)
  have path: "leaf_path (topic_nodes t)" for t
    using topic_nodes_path [of t] by (simp add: leaf_path_def rdd_path_def)
  have ok: "loaded.all_ok ?kvs" using path by (auto simp: loaded.all_ok_def)
  have "inj_on topic_nodes (set (map fst ms))"
    by (rule inj_on_inverseI [where g = "join_char TOPIC_SEP"]) simp
  with assms(1) have "distinct (map topic_nodes (map fst ms))" by (simp only: distinct_map)
  then have dist: "distinct (map fst ?kvs)" by (simp add: comp_def)
  show "wf_tree (preload ms)"
    using ok by (simp add: preload_store_all kvs loaded.invar_store_all)
  show "leaf_at (preload ms) (topic_nodes topic) = map_option obj_of_data (map_of ms topic)"
    using loaded.lookup_store_all_distinct [OF _ ok path dist, of "PyRdd []" topic]
    by (simp add: preload_store_all kvs map_of_topics split: option.split)
qed

section \<open>The properties of the tree manager\<close>

definition house_tree :: pyobj where
  "house_tree = PyRdd [(''house'', PyRdd
     [(''kitchen'', PyRdd [(''lamp'', PyRdd [(''/'', PyBytes [48])])]),
      (''hall'', PyRdd [(''lamp'', PyRdd [(''/'', PyNone)]), (''door'', PyRdd [(''/'', PyBytes [50])])])])]"

definition house_tm :: tree_manager where
  "house_tm = \<lparr>tm_tree = house_tree, tm_tasks = []\<rparr>"

definition no_json :: "string \<Rightarrow> py_error + pyobj" where
  "no_json text = Inl JSONDecodeError"

lemmas house_simps = house_tree_def const_defs topic_nodes_def applicable_def rdd_path_def

lemma house_wf [simp]: "wf_tree house_tree"
  by (simp add: house_tree_def const_defs)

lemma house_paths [simp]:
  "rdd_path [''house'', ''hall'', ''lamp'']" "rdd_path [''house'', ''hall'', ''door'']"
  by (simp_all add: house_simps)

text \<open>
  C18: A retained publish to a topic without a trailing \<open>#\<close> never fails on a well-formed tree:
  it queues for the worker, and hands to the broadcast, exactly one row for each path the
  topic stands for, each such leaf becomes the payload, and every other leaf is as before.
\<close>

theorem retained_publish:
  assumes "wf_tree (tm_tree tm)" and "from_raw_data raw data qos True = Inr m"
    and "\<not> im_graft m" and "EVERYTHING_CARD \<notin> set (topic_nodes raw)"
  shows "\<exists>rows tree'. process_message loads m tm =
      (Inr rows, tm\<lparr>tm_tree := tree', tm_tasks := tm_tasks tm @ rows\<rparr>)
    \<and> set rows = {(p, data, qos) | p. applicable False (topic_nodes raw) (tm_tree tm) p}
    \<and> distinct (map fst rows) \<and> wf_tree tree'
    \<and> (\<forall>p. rdd_path p \<longrightarrow> leaf_at tree' p =
         (if applicable False (topic_nodes raw) (tm_tree tm) p then Some (obj_of_data data)
          else leaf_at (tm_tree tm) p))"
  using assms by (rule process_publish_aux)


lemma retained_publish_witness:
  "\<exists>rows tree'. process_message no_json
      \<lparr>im_topic = topic_of ''house/+/lamp'', im_qos = 1, im_retain = True, im_graft = False,
       im_data = Some [49]\<rparr> house_tm =
      (Inr rows, house_tm\<lparr>tm_tree := tree', tm_tasks := rows\<rparr>)
    \<and> leaf_at tree' [''house'', ''hall'', ''lamp''] = Some (PyBytes [49])
    \<and> leaf_at tree' [''house'', ''hall'', ''door''] = Some (PyBytes [50])"
proof -
  let ?nodes = "topic_nodes ''house/+/lamp''"
  have a: "applicable False ?nodes house_tree [''house'', ''hall'', ''lamp'']"
    "\<not> applicable False ?nodes house_tree [''house'', ''hall'', ''door'']"
    "leaf_at house_tree [''house'', ''hall'', ''door''] = Some (PyBytes [50])"
    "EVERYTHING_CARD \<notin> set ?nodes" by (simp_all add: house_simps)
  have "from_raw_data ''house/+/lamp'' (Some [49]) 1 True = Inr
      \<lparr>im_topic = topic_of ''house/+/lamp'', im_qos = 1, im_retain = True, im_graft = False,
       im_data = Some [49]\<rparr>" by (simp add: from_raw_data_def const_defs)
  from retained_publish [OF _ this _ a(4), of house_tm no_json]
  obtain rows tree' where r: "process_message no_json
      \<lparr>im_topic = topic_of ''house/+/lamp'', im_qos = 1, im_retain = True, im_graft = False,
       im_data = Some [49]\<rparr> house_tm =
      (Inr rows, house_tm\<lparr>tm_tree := tree', tm_tasks := rows\<rparr>)"
    and p: "\<And>p. rdd_path p \<Longrightarrow> leaf_at tree' p =
         (if applicable False ?nodes house_tree p then Some (obj_of_data (Some [49]))
          else leaf_at house_tree p)"
    by (auto simp: house_tm_def)
  show ?thesis
    using r p [OF house_paths(1)] p [OF house_paths(2)] a by auto
qed

text \<open>
  C17: After a retained publish of a non-empty payload, the immediate answer to a subscription
  without \<open>#\<close> holds, at the keys its wildcards captured, the published payload for every path
  the publish stood for, and the payload that was retained before for every other path; an
  answer always exists.
\<close>

theorem publish_then_subscribe:
  assumes "wf_tree (tm_tree tm)" and "from_raw_data raw (Some b) qos True = Inr m"
    and "\<not> im_graft m" and "EVERYTHING_CARD \<notin> set (topic_nodes raw)" and "b \<noteq> []"
    and "EVERYTHING_CARD \<notin> set (topic_nodes f)"
  shows "\<exists>rows tm' r. process_message loads m tm = (Inr rows, tm')
    \<and> tm_filter (topic_of f) (tm_tree tm') = Inr r
    \<and> (\<forall>p c. topic_match (topic_nodes f) p \<and> LEAF_KEY \<notin> set p \<and> c \<noteq> [] \<longrightarrow>
        (obj_at r (captures (topic_nodes f) p) = Some (PyBytes c) \<longleftrightarrow>
         (if applicable False (topic_nodes raw) (tm_tree tm) p then c = b
          else leaf_at (tm_tree tm) p = Some (PyBytes c))))"
proof -
  from process_publish_aux [OF assms(1-4), of loads] obtain rows tree' where
    pm: "process_message loads m tm =
      (Inr rows, tm\<lparr>tm_tree := tree', tm_tasks := tm_tasks tm @ rows\<rparr>)"
    and wf: "wf_tree tree'"
    and leaf: "\<And>p. rdd_path p \<Longrightarrow> leaf_at tree' p =
         (if applicable False (topic_nodes raw) (tm_tree tm) p then Some (obj_of_data (Some b))
          else leaf_at (tm_tree tm) p)" by blast
  from filter_answers [OF wf assms(6)] obtain r where
    r: "tm_filter (topic_of f) tree' = Inr r" and
    at: "\<And>p c. topic_match (topic_nodes f) p \<Longrightarrow> LEAF_KEY \<notin> set p \<Longrightarrow> c \<noteq> [] \<Longrightarrow>
         obj_at r (captures (topic_nodes f) p) = Some (PyBytes c) \<longleftrightarrow> leaf_at tree' p = Some (PyBytes c)"
    by blast
  have "rdd_path p" if "topic_match (topic_nodes f) p" "LEAF_KEY \<notin> set p" for p
    using that topic_match_length [OF that(1)] topic_nodes_not_Nil [of f] by (auto simp: rdd_path_def)
  with pm r at leaf show ?thesis by (intro exI [of _ rows] exI) auto
qed

lemma publish_then_subscribe_witness:
  "\<exists>rows tm' r. process_message no_json
      \<lparr>im_topic = topic_of ''house/hall/lamp'', im_qos = 1, im_retain = True, im_graft = False,
       im_data = Some [49]\<rparr> house_tm = (Inr rows, tm')
    \<and> tm_filter (topic_of ''house/+/lamp'') (tm_tree tm') = Inr r
    \<and> obj_at r [''hall''] = Some (PyBytes [49])"
proof -
  let ?raw = "''house/hall/lamp''" and ?f = "''house/+/lamp''"
  let ?p = "[''house'', ''hall'', ''lamp'']"
  have h: "applicable False (topic_nodes ?raw) house_tree ?p" "EVERYTHING_CARD \<notin> set (topic_nodes ?raw)"
    "EVERYTHING_CARD \<notin> set (topic_nodes ?f)" "topic_match (topic_nodes ?f) ?p" "LEAF_KEY \<notin> set ?p"
    "captures (topic_nodes ?f) ?p = [''hall'']"
    by (simp_all add: house_simps)
  have "from_raw_data ?raw (Some [49]) 1 True = Inr
      \<lparr>im_topic = topic_of ?raw, im_qos = 1, im_retain = True, im_graft = False, im_data = Some [49]\<rparr>"
    by (simp add: from_raw_data_def const_defs)
  from publish_then_subscribe [OF _ this _ h(2) _ h(3), of house_tm no_json] obtain rows tm' r where
    "process_message no_json \<lparr>im_topic = topic_of ?raw, im_qos = 1, im_retain = True,
       im_graft = False, im_data = Some [49]\<rparr> house_tm = (Inr rows, tm')"
    "tm_filter (topic_of ?f) (tm_tree tm') = Inr r"
    "\<And>p c. topic_match (topic_nodes ?f) p \<Longrightarrow> LEAF_KEY \<notin> set p \<Longrightarrow> c \<noteq> [] \<Longrightarrow>
        (obj_at r (captures (topic_nodes ?f) p) = Some (PyBytes c) \<longleftrightarrow>
         (if applicable False (topic_nodes ?raw) house_tree p then c = [49]
          else leaf_at house_tree p = Some (PyBytes c)))"
    by (auto simp: house_tm_def)
  from this(1,2) this(3) [OF h(4,5), of "[49]"] h(1,6) show ?thesis by auto
qed

text \<open>
  A retained publish to \<open>pre/#\<close> rewrites exactly the leaves strictly below the paths that
  match \<open>pre\<close>, one row each, and leaves every other one alone.
\<close>

theorem retained_publish_everything:
  assumes "wf_tree (tm_tree tm)" and "from_raw_data raw data qos True = Inr m"
    and "\<not> im_graft m" and "topic_nodes raw = pre @ [EVERYTHING_CARD]"
    and "EVERYTHING_CARD \<notin> set pre"
  shows "\<exists>rows tree'. process_message loads m tm =
      (Inr rows, tm\<lparr>tm_tree := tree', tm_tasks := tm_tasks tm @ rows\<rparr>)
    \<and> set rows = {(p, data, qos) | p. below pre (tm_tree tm) p}
    \<and> distinct (map fst rows) \<and> wf_tree tree'
    \<and> (\<forall>p. rdd_path p \<longrightarrow> leaf_at tree' p =
         (if below pre (tm_tree tm) p then Some (obj_of_data data) else leaf_at (tm_tree tm) p))"
  using assms by (rule process_everything_aux)

lemma retained_publish_everything_witness:
  "\<exists>rows tree'. process_message no_json
      \<lparr>im_topic = topic_of ''house/#'', im_qos = 0, im_retain = True, im_graft = False,
       im_data = None\<rparr> house_tm =
      (Inr rows, house_tm\<lparr>tm_tree := tree', tm_tasks := rows\<rparr>)
    \<and> leaf_at tree' [''house'', ''hall'', ''door''] = Some PyNone"
proof -
  let ?p = "[''house'', ''hall'', ''door'']"
  have h: "topic_nodes ''house/#'' = [''house''] @ [EVERYTHING_CARD]"
    "EVERYTHING_CARD \<notin> set [''house'']" by (simp_all add: house_simps)
  have b: "below [''house''] house_tree ?p"
    by (simp add: house_tree_def below_Cons below_Nil const_defs)
  have "from_raw_data ''house/#'' None 0 True = Inr
      \<lparr>im_topic = topic_of ''house/#'', im_qos = 0, im_retain = True, im_graft = False, im_data = None\<rparr>"
    by (simp add: from_raw_data_def const_defs)
  from retained_publish_everything [OF _ this _ h, of house_tm no_json]
  obtain rows tree' where "process_message no_json
      \<lparr>im_topic = topic_of ''house/#'', im_qos = 0, im_retain = True, im_graft = False,
       im_data = None\<rparr> house_tm =
      (Inr rows, house_tm\<lparr>tm_tree := tree', tm_tasks := rows\<rparr>)"
    "\<And>p. rdd_path p \<Longrightarrow> leaf_at tree' p =
         (if below [''house''] house_tree p then Some (obj_of_data None) else leaf_at house_tree p)"
    by (auto simp: house_tm_def)
  with this(2) [OF house_paths(2)] b show ?thesis by auto
qed

text \<open>
  A JSON tree published to a topic with a trailing separator, as deep as the topic has
  wildcards and with text at its ends, is spread over one row per text, and afterwards each
  text is the leaf at its path while every other leaf is as before.
\<close>

theorem graft_publish:
  fixes qos :: int
  assumes "wf_tree (tm_tree tm)" and "from_raw_data raw (Some bs) qos True = Inr m"
    and "im_graft m" and "py_decode bs = Inr text" and "loads text = Inr data"
    and "payload (wilds (topic_nodes (butlast raw))) data"
    and "EVERYTHING_CARD \<notin> set (topic_nodes (butlast raw))"
  shows "\<exists>tree'. process_message loads m tm =
      (Inr (graft_rows (topic_nodes (butlast raw)) data qos),
       tm\<lparr>tm_tree := tree', tm_tasks := tm_tasks tm @ graft_rows (topic_nodes (butlast raw)) data qos\<rparr>)
    \<and> wf_tree tree'
    \<and> (\<forall>p s. (p, s) \<in> set (payload_leaves data) \<longrightarrow>
         leaf_at tree' (fill (topic_nodes (butlast raw)) p) = Some (PyBytes (raw_bytes s)))
    \<and> (\<forall>q. rdd_path q \<and> q \<notin> fill (topic_nodes (butlast raw)) ` fst ` set (payload_leaves data) \<longrightarrow>
         leaf_at tree' q = leaf_at (tm_tree tm) q)"
proof -
  let ?topic = "topic_nodes (butlast raw)" and ?rows = "graft_rows (topic_nodes (butlast raw)) data qos"
  from process_graft_aux [where loads = loads, OF assms] obtain tree' where
    pm: "process_message loads m tm =
      (Inr ?rows, tm\<lparr>tm_tree := tree', tm_tasks := tm_tasks tm @ ?rows\<rparr>)" "wf_tree tree'"
    and leaf: "\<And>p. rdd_path p \<Longrightarrow> leaf_at tree' p =
      (case map_of ?rows p of Some v \<Rightarrow> Some (obj_of_data (fst v)) | None \<Rightarrow> leaf_at (tm_tree tm) p)"
    by blast
  note props = graft_rows_props [OF assms(6) topic_nodes_path assms(7), of qos]
  have "leaf_at tree' (fill ?topic p) = Some (PyBytes (raw_bytes s))"
    if "(p, s) \<in> set (payload_leaves data)" for p s
  proof -
    have "(fill ?topic p, Some (raw_bytes s), qos) \<in> set ?rows" using that by (force simp: graft_rows_def)
    with props(1) have "map_of ?rows (fill ?topic p) = Some (Some (raw_bytes s), qos)" by simp
    moreover have "rdd_path (fill ?topic p)"
      using fill_path [OF topic_nodes_path] payload_leaves_props [OF assms(6) that] by simp
    ultimately show ?thesis using leaf by simp
  qed
  moreover have "map_of ?rows q = None" if "q \<notin> fill ?topic ` fst ` set (payload_leaves data)" for q
    using that by (force simp: map_of_eq_None_iff graft_rows_def)
  ultimately show ?thesis using pm leaf by auto
qed

definition hall_json :: "string \<Rightarrow> py_error + pyobj" where
  "hall_json text = (if text = ''{\"hall\": \"on\"}'' then Inr (PyDict [(''hall'', PyStr ''on'')]) else Inl JSONDecodeError)"

lemma graft_publish_witness:
  "\<exists>rows tree'. process_message hall_json
      \<lparr>im_topic = topic_of ''house/+'', im_qos = 0, im_retain = True, im_graft = True,
       im_data = Some (raw_bytes ''{\"hall\": \"on\"}'')\<rparr> house_tm =
      (Inr rows, house_tm\<lparr>tm_tree := tree', tm_tasks := rows\<rparr>)
    \<and> rows = [([''house'', ''hall''], Some [111, 110], 0)]
    \<and> leaf_at tree' [''house'', ''hall''] = Some (PyBytes [111, 110])"
proof -
  let ?m = "\<lparr>im_topic = topic_of ''house/+'', im_qos = 0, im_retain = True, im_graft = True,
       im_data = Some (raw_bytes ''{\"hall\": \"on\"}'')\<rparr>"
  let ?data = "PyDict [(''hall'', PyStr ''on'')]"
  have h: "topic_nodes (butlast ''house/+/'') = [''house'', ''+'']" by (simp add: house_simps)
  have m: "from_raw_data ''house/+/'' (Some (raw_bytes ''{\"hall\": \"on\"}'')) 0 True = Inr ?m"
    by (simp add: from_raw_data_def const_defs)
  have d: "py_decode (raw_bytes ''{\"hall\": \"on\"}'') = Inr ''{\"hall\": \"on\"}''"
    by (simp add: py_decode_def ascii_valid)
  have p: "payload (wilds [''house'', ''+'']) ?data" "EVERYTHING_CARD \<notin> set [''house'', ''+'']"
    by (simp_all add: wilds_def const_defs raw_bytes_def char_byte_def)
  have r: "graft_rows [''house'', ''+''] ?data 0 = [([''house'', ''hall''], Some [111, 110], 0)]"
    by (simp add: graft_rows_def const_defs raw_bytes_def char_byte_def)
  from graft_publish [OF _ m _ d, of house_tm hall_json ?data, unfolded h, OF _ _ _ p] 
  obtain tree' where "process_message hall_json ?m house_tm =
      (Inr [([''house'', ''hall''], Some [111, 110], 0)],
       house_tm\<lparr>tm_tree := tree', tm_tasks := [([''house'', ''hall''], Some [111, 110], 0)]\<rparr>)"
    "leaf_at tree' (fill [''house'', ''+''] [''hall'']) = Some (PyBytes (raw_bytes ''on''))"
    by (auto simp: house_tm_def hall_json_def r)
  moreover have "fill [''house'', ''+''] [''hall''] = [''house'', ''hall'']" "raw_bytes ''on'' = [111, 110]"
    by (simp_all add: const_defs raw_bytes_def char_byte_def)
  ultimately show ?thesis by auto
qed

text \<open>
  When the database agrees with the retained tree and a batch of rows with pairwise
  different topics is stored in memory and flushed by the worker, the database agrees with
  the tree again, clears included.
\<close>

theorem flush_coherent:
  assumes "store_laws db_delete db_upsert db_lookup" and "wf_tree tree"
    and "clean_rows rows" and "distinct (map fst rows)" and "coherent tree (db_lookup db)"
  shows "\<exists>tree'. retain_loop rows tree = (Inr (), tree') \<and> wf_tree tree'
    \<and> coherent tree' (db_lookup (run_tasks db_delete db_upsert rows db))"
  using assms by (rule flush_aux)

text \<open>A database as a map, to show that the laws can hold.\<close>

type_synonym map_db = "string \<Rightarrow> (bytes \<times> int) option"

definition map_delete :: "string list \<Rightarrow> map_db \<Rightarrow> map_db" where
  "map_delete ts db = (\<lambda>t. if t \<in> set ts then None else db t)"

definition map_upsert :: "(string \<times> bytes \<times> int) list \<Rightarrow> map_db \<Rightarrow> map_db" where
  "map_upsert rs db = db ++ map_of rs"

lemma map_store_laws: "store_laws map_delete map_upsert (\<lambda>db. db)"
  by (auto simp: store_laws_def map_delete_def map_upsert_def map_add_def)

lemma coherent_empty: "coherent (PyRdd []) (\<lambda>t. None)"
  by (simp add: coherent_def)

lemma flush_coherent_witness:
  "\<exists>tree'. retain_loop [([''a'', ''b''], Some [1], 0), ([''a''], None, 2)] (PyRdd []) = (Inr (), tree')
    \<and> coherent tree' (run_tasks map_delete map_upsert
        [([''a'', ''b''], Some [1], 0), ([''a''], None, 2)] (\<lambda>t. None))"
  using flush_coherent [OF map_store_laws wf_rdd_Nil,
      of "[([''a'', ''b''], Some [1], 0), ([''a''], None, 2)]" "\<lambda>t. None"] coherent_empty
  by (simp add: clean_rows_def clean_node_def const_defs) blast

text \<open>
  In a batch that stores a topic and clears it afterwards, the worker runs the deletion
  first: the database keeps the payload while the tree in memory, rightly, holds none.
\<close>

theorem batched_clear_is_lost:
  assumes "store_laws db_delete db_upsert db_lookup" and "wf_tree tree"
  shows "db_lookup (run_tasks db_delete db_upsert
      [(topic_nodes t, Some b, q), (topic_nodes t, None, q')] db) t = Some (b, q)
    \<and> leaf_at (snd (retain_loop [(topic_nodes t, Some b, q), (topic_nodes t, None, q')] tree))
        (topic_nodes t) = Some PyNone"
proof -
  let ?rows = "[(topic_nodes t, Some b, q), (topic_nodes t, None, q')]"
  have "create_list ?rows = [(t, b, q)]" by (simp add: create_list_def)
  then have "db_lookup (run_tasks db_delete db_upsert ?rows db) t = Some (b, q)"
    using assms(1) by (simp add: run_tasks_def Let_def store_laws_def)
  moreover have ok: "rows_ok ?rows" by (simp add: rows_ok_def topic_nodes_path)
  ultimately show ?thesis
    using retained.lookup_store_all [OF assms(2), of "map row_leaf ?rows" "topic_nodes t"]
    by (simp add: retain_loop_eq [OF assms(2) ok] topic_nodes_path row_leaf_def retained.all_ok_def
        del: retain_loop.simps)
qed

lemma batched_clear_is_lost_witness:
  "run_tasks map_delete map_upsert [(topic_nodes ''a'', Some [1], 0), (topic_nodes ''a'', None, 0)]
     (\<lambda>t. None) ''a'' = Some ([1], 0)"
  using batched_clear_is_lost [OF map_store_laws wf_rdd_Nil, of "''a''" "[1]" 0 0] by simp

text \<open>
  What survives a restart. Loading the rows of a database that agrees with the tree gives
  a well-formed tree with the same payload at every topic, when no stored topic has an empty
  node.
\<close>

theorem restart_restores:
  assumes "coherent tree (db_lookup db)"
    and "distinct (map fst ms)" and "\<And>t. map_of ms t = map_option (\<lambda>v. Some (fst v)) (db_lookup db t)"
    and "\<And>t. t \<in> set (map fst ms) \<Longrightarrow> [] \<notin> set (topic_nodes t)"
  shows "wf_tree (preload ms)
    \<and> leaf_bytes (leaf_at (preload ms) (topic_nodes topic)) = leaf_bytes (leaf_at tree (topic_nodes topic))"
proof -
  have wf: "wf_tree (preload ms)" by (rule preload_aux(1)) (use assms in auto)
  have "leaf_at (preload ms) (topic_nodes topic) = map_option obj_of_data (map_of ms topic)"
    by (rule preload_aux(2)) (use assms in auto)
  then have "leaf_bytes (leaf_at (preload ms) (topic_nodes topic)) = map_option fst (db_lookup db topic)"
    by (cases "db_lookup db topic") (simp_all add: assms(3))
  then show ?thesis using wf assms(1) by (simp add: coherent_def)
qed

lemma restart_restores_witness:
  "leaf_bytes (leaf_at (preload [(''a/b'', Some [1])]) [''a'', ''b'']) = Some [1]"
proof -
  let ?tree = "PyRdd [(''a'', PyRdd [(''b'', PyRdd [(''/'', PyBytes [1])])])]"
  let ?db = "\<lambda>t. if t = ''a/b'' then Some ([1], 0) else None"
  have nodes: "topic_nodes ''a/b'' = [''a'', ''b'']" by (simp add: house_simps)
  have "leaf_bytes (leaf_at ?tree p) = (if p = [''a'', ''b''] then Some [1] else None)" if "LEAF_KEY \<notin> set p" for p
    using that by (cases p; cases "tl p"; cases "tl (tl p)") (auto simp: const_defs)
  moreover have "LEAF_KEY \<notin> set (topic_nodes t)" for t
    using topic_nodes_path [of t] by (simp add: rdd_path_def)
  moreover have "topic_nodes t = [''a'', ''b''] \<longleftrightarrow> t = ''a/b''" for t
    by (metis nodes join_topic_nodes)
  ultimately have "coherent ?tree ?db"
    unfolding coherent_def by simp
  from restart_restores [where db_lookup = "\<lambda>db. db", OF this, of "[(''a/b'', Some [1])]" "''a/b''"]
  show ?thesis by (simp add: nodes LEAF_KEY_def TOPIC_SEP_def split: if_splits)
qed

text \<open>
  The loader drops empty nodes, so a topic with one comes back under another path, where
  it replaces what that path held.
\<close>

theorem preload_merges_empty_nodes:
  "leaf_at (preload [(''a/b'', Some b), (''a//b'', Some c)]) [''a'', ''b''] = Some (PyBytes c)
   \<and> leaf_at (preload [(''a/b'', Some b), (''a//b'', Some c)]) [''a'', '''', ''b''] = None"
proof -
  have nodes: "preload_nodes ''a/b'' = [''a'', ''b'']" "preload_nodes ''a//b'' = [''a'', ''b'']"
    by (simp_all add: preload_nodes_def const_defs)
  show ?thesis
    by (simp add: preload_def nodes preload_store.simps(2) rdd_getitem_def rdd_missing_def
        Let_def LEAF_KEY_def TOPIC_SEP_def)
qed

end
