(* ===== verification/Broker.thy ===== *)
theory Broker
  imports Tree_Manager
begin

text \<open>
  broker/broker.py, broker/context.py and the message queue of models/client.py: the client
  list, the subscription tree, publishing, and the delivery of rows to the clients' queues. A
  client object is a reference (a number); its queue is part of the state. The table worker's
  answer to a query and the call \<open>override_connection\<close> on a client are arguments of the
  operations that use them; the second is modelled in the theory \<open>Session\<close>.
\<close>

section \<open>State\<close>

type_synonym ref = nat

record broker =
  br_clients :: "string \<Rightarrow> ref option"
  br_subs :: pyobj
  br_tm :: tree_manager
  br_table_tasks :: "(topic \<times> bytes option \<times> int) list"
  br_broadcast :: "row list list"
  br_queues :: "ref \<Rightarrow> outgoing_message list"
  br_warnings :: "string list"

definition new_broker :: broker where
  "new_broker = \<lparr>br_clients = (\<lambda>_. None), br_subs = PyRdd [],
     br_tm = \<lparr>tm_tree = PyRdd [], tm_tasks = []\<rparr>, br_table_tasks = [], br_broadcast = [],
     br_queues = (\<lambda>_. []), br_warnings = []\<rparr>"

definition queue_message :: "ref \<Rightarrow> outgoing_message \<Rightarrow> broker \<Rightarrow> broker" where
  "queue_message ref m br = br\<lparr>br_queues := (br_queues br)(ref := br_queues br ref @ [m])\<rparr>"

definition broker_warn :: "string \<Rightarrow> broker \<Rightarrow> broker" where
  "broker_warn text br = br\<lparr>br_warnings := br_warnings br @ [text]\<rparr>"

section \<open>Clients\<close>

definition add_client :: "(ref \<Rightarrow> broker \<Rightarrow> broker) \<Rightarrow> string \<Rightarrow> ref \<Rightarrow> broker \<Rightarrow> broker" where
  "add_client override_connection cid ref br =
     (let br1 = (case br_clients br cid of
                   None \<Rightarrow> br | Some prev_client \<Rightarrow> override_connection prev_client br)
      in br1\<lparr>br_clients := (br_clients br1)(cid \<mapsto> ref)\<rparr>)"

definition client_str :: "string \<Rightarrow> string" where
  "client_str cid = ''Client '' @ cid"

text \<open>A client that has not sent its CONNECT packet has no id (\<open>None\<close>).\<close>

definition remove_client :: "string option \<Rightarrow> broker \<Rightarrow> broker" where
  "remove_client cid br =
     (case cid of
        None \<Rightarrow> br
      | Some c \<Rightarrow>
          if c = [] then br
          else if br_clients br c = None then
            broker_warn (''Client '' @ client_str c @ '' is not in client list'') br
          else br\<lparr>br_clients := (br_clients br)(c := None)\<rparr>)"

section \<open>Delivery\<close>

text \<open>\<open>str(Topic.from_nodes(topic_nodes))\<close>.\<close>

definition str_from_nodes :: "string list \<Rightarrow> string" where
  "str_from_nodes nodes = (case topic_from_nodes nodes None of None \<Rightarrow> ''None'' | Some t \<Rightarrow> full_str t)"

text \<open>
  The qualities in the client lists are integers, since \<open>subscribe\<close> stores nothing else
  (\<open>broker_ok\<close>), so the last branch is never reached (\<open>deliver_to_eq\<close>).
\<close>

fun deliver_to :: "string \<Rightarrow> bytes option \<Rightarrow> pydict \<Rightarrow> broker \<Rightarrow> (py_error + unit) \<times> broker" where
  "deliver_to topic data [] br = (Inr (), br)"
| "deliver_to topic data ((client_id, qos) # rest) br =
     (case br_clients br client_id of
        None \<Rightarrow> deliver_to topic data rest br
      | Some client \<Rightarrow>
          (case qos of
             PyInt q \<Rightarrow> deliver_to topic data rest
               (queue_message client \<lparr>om_topic = topic, om_qos = q, om_data = obj_of_data data\<rparr> br)
           | _ \<Rightarrow> (Inl OutsideModel, br)))"

fun deliver_messages :: "sub_message list \<Rightarrow> broker \<Rightarrow> (py_error + unit) \<times> broker" where
  "deliver_messages [] br = (Inr (), br)"
| "deliver_messages ((client_list, nodes, data) # rest) br =
     (case py_items client_list of
        Inl e \<Rightarrow> (Inl e, br)
      | Inr items \<Rightarrow>
          (case deliver_to (str_from_nodes nodes) data items br of
             (Inl e, br') \<Rightarrow> (Inl e, br')
           | (Inr _, br') \<Rightarrow> deliver_messages rest br'))"

definition process_outgoing_rows :: "row list \<Rightarrow> broker \<Rightarrow> (py_error + unit) \<times> broker" where
  "process_outgoing_rows rows br =
     (case create_messages_for_subscriptions (br_subs br) rows of
        Inl e \<Rightarrow> (Inl e, br)
      | Inr messages \<Rightarrow> deliver_messages messages br)"

text \<open>
  One round of the main loop: \<open>None\<close> while the queue is empty (the call blocks). An exception
  of the delivery is logged and the loop goes on.
\<close>

definition main_loop_round :: "broker \<Rightarrow> broker option" where
  "main_loop_round br =
     (case br_broadcast br of
        [] \<Rightarrow> None
      | rows # rest \<Rightarrow>
          (let br1 = br\<lparr>br_broadcast := rest\<rparr>
           in Some (if rows \<noteq> [] then snd (process_outgoing_rows rows br1) else br1)))"

section \<open>Publishing\<close>

definition publish ::
    "(string \<Rightarrow> py_error + pyobj) \<Rightarrow> incoming_message \<Rightarrow> broker \<Rightarrow> (py_error + unit) \<times> broker" where
  "publish loads m br =
     (case msg_table m of
        Inl e \<Rightarrow> (Inl e, br)
      | Inr True \<Rightarrow>
          (Inr (), br\<lparr>br_table_tasks := br_table_tasks br @ [(im_topic m, im_data m, im_qos m)]\<rparr>)
      | Inr False \<Rightarrow>
          (let (r, tm') = (if im_retain m then process_message loads m (br_tm br)
                           else (bindR (as_single_row m) (\<lambda>row. Inr [row]), br_tm br));
               br1 = br\<lparr>br_tm := tm'\<rparr>
           in case r of
                Inl e \<Rightarrow> (Inl e, br1)
              | Inr rows \<Rightarrow> (Inr (), br1\<lparr>br_broadcast := br_broadcast br1 @ [rows]\<rparr>)))"

section \<open>Subscribing\<close>

text \<open>\<open>client_set[client.id] = qos\<close>, and \<open>client_set.pop(client.id, False)\<close> with the tests after it.\<close>

fun set_client :: "string \<Rightarrow> int \<Rightarrow> pyobj \<Rightarrow> (py_error + unit) \<times> pyobj" where
  "set_client cid qos (PyDict kvs) = (Inr (), PyDict (AList.update cid (PyInt qos) kvs))"
| "set_client cid qos (PyRdd kvs) = (Inr (), PyRdd (AList.update cid (PyInt qos) kvs))"
| "set_client cid qos obj = (Inl TypeError, obj)"

fun pop_client :: "string \<Rightarrow> pyobj \<Rightarrow> (py_error + bool \<times> bool) \<times> pyobj" where
  "pop_client cid (PyDict kvs) =
     (let got_id = (case map_of kvs cid of None \<Rightarrow> PyBool False | Some v \<Rightarrow> v);
          client_set = PyDict (AList.delete cid kvs)
      in (Inr (py_truthy got_id, py_truthy client_set), client_set))"
| "pop_client cid (PyRdd kvs) =
     (let got_id = (case map_of kvs cid of None \<Rightarrow> PyBool False | Some v \<Rightarrow> v);
          client_set = PyRdd (AList.delete cid kvs)
      in (Inr (py_truthy got_id, py_truthy client_set), client_set))"
| "pop_client cid obj = (Inl AttributeError, obj)"

definition subscribe_tree :: "string list \<Rightarrow> string \<Rightarrow> int \<Rightarrow> pyobj \<Rightarrow> (py_error + unit) \<times> pyobj" where
  "subscribe_tree nodes cid qos subs = rdd_lshift (PyDict []) nodes (set_client cid qos) subs"

text \<open>\<open>TableManager.get_message\<close>; \<open>table_query\<close> is the method \<open>query\<close> of the manager.\<close>

definition table_get_message ::
    "(string \<Rightarrow> py_error + pyobj) \<Rightarrow> topic \<Rightarrow> int \<Rightarrow> py_error + outgoing_message" where
  "table_get_message table_query topic qos =
     (let topic_str = full_str topic
      in bindR (table_query topic_str) (\<lambda>data. Inr \<lparr>om_topic = topic_str, om_qos = qos, om_data = data\<rparr>))"

definition subscribe ::
    "(string \<Rightarrow> py_error + pyobj) \<Rightarrow> string \<Rightarrow> ref \<Rightarrow> string \<Rightarrow> int \<Rightarrow> bool \<Rightarrow> broker
     \<Rightarrow> (py_error + bool) \<times> broker" where
  "subscribe table_query cid ref topic_str qos tree br =
     (let topic = topic_of topic_str;
          answer = (if tree then
                      bindR (tm_get_message topic qos (tm_tree (br_tm br))) (\<lambda>m. Inr (Some m))
                    else bindR (for_table topic) (\<lambda>table.
                      if table then bindR (table_get_message table_query topic qos) (\<lambda>m. Inr (Some m))
                      else Inr None))
      in case answer of
           Inl e \<Rightarrow> (Inl e, br)
         | Inr reply \<Rightarrow>
             (let br1 = (case reply of None \<Rightarrow> br | Some m \<Rightarrow> queue_message ref m br);
                  (r, subs') = subscribe_tree (node_list topic) cid qos (br_subs br1)
              in (bindR r (\<lambda>_. Inr True), br1\<lparr>br_subs := subs'\<rparr>)))"

text \<open>
  One round of the loop of \<open>unsubscribe\<close>. \<open>got_id\<close> is the quality of service that was stored,
  tested as a boolean.
\<close>

definition unsubscribe_topic :: "string \<Rightarrow> string \<Rightarrow> broker \<Rightarrow> (py_error + unit) \<times> broker" where
  "unsubscribe_topic cid topic_str br =
     (let nodes = node_list (topic_of topic_str)
      in case rdd_lshift (PyDict []) nodes (pop_client cid) (br_subs br) of
           (Inl e, subs1) \<Rightarrow> (Inl e, br\<lparr>br_subs := subs1\<rparr>)
         | (Inr (got_id, nonempty), subs1) \<Rightarrow>
             (let br1 = br\<lparr>br_subs := subs1\<rparr>;
                  br2 = (if got_id then br1
                         else broker_warn (''Subscription '' @ topic_str @ '' not found for '' @ client_str cid) br1)
              in if nonempty then (Inr (), br2)
                 else (let (r, subs2) = cascade_delete (PyDict []) nodes subs1
                       in (r, br2\<lparr>br_subs := subs2\<rparr>))))"

fun unsubscribe :: "string \<Rightarrow> string list \<Rightarrow> broker \<Rightarrow> (py_error + bool) \<times> broker" where
  "unsubscribe cid [] br = (Inr True, br)"
| "unsubscribe cid (topic_str # topics) br =
     (case unsubscribe_topic cid topic_str br of
        (Inl e, br') \<Rightarrow> (Inl e, br')
      | (Inr _, br') \<Rightarrow> unsubscribe cid topics br')"

section \<open>The interface of a registry of subscriptions\<close>

datatype ('p, 'i, 'q) reg_op = Register 'p 'i 'q | Unregister 'p 'i

text \<open>What a sequence of operations means: a map from paths and ids to a quality of service.\<close>

fun reg_spec :: "('p, 'i, 'q) reg_op list \<Rightarrow> ('p \<Rightarrow> 'i \<Rightarrow> 'q option) \<Rightarrow> ('p \<Rightarrow> 'i \<Rightarrow> 'q option)" where
  "reg_spec [] m = m"
| "reg_spec (Register p i q # ops) m = reg_spec ops (m(p := (m p)(i \<mapsto> q)))"
| "reg_spec (Unregister p i # ops) m = reg_spec ops (m(p := (m p)(i := None)))"

fun op_path :: "('p, 'i, 'q) reg_op \<Rightarrow> 'p" where
  "op_path (Register p i q) = p"
| "op_path (Unregister p i) = p"

locale registry =
  fixes register :: "'p \<Rightarrow> 'i \<Rightarrow> 'q \<Rightarrow> 's \<Rightarrow> 's"
    and unregister :: "'p \<Rightarrow> 'i \<Rightarrow> 's \<Rightarrow> 's"
    and registered :: "'s \<Rightarrow> 'p \<Rightarrow> 'i \<Rightarrow> 'q option"
    and path_ok :: "'p \<Rightarrow> bool"
    and invar :: "'s \<Rightarrow> bool"
  assumes invar_register: "invar s \<Longrightarrow> path_ok p \<Longrightarrow> invar (register p i q s)"
    and invar_unregister: "invar s \<Longrightarrow> path_ok p \<Longrightarrow> invar (unregister p i s)"
    and registered_register: "invar s \<Longrightarrow> path_ok p \<Longrightarrow> path_ok p' \<Longrightarrow>
      registered (register p i q s) p' i' = (if p' = p \<and> i' = i then Some q else registered s p' i')"
    and registered_unregister: "invar s \<Longrightarrow> path_ok p \<Longrightarrow> path_ok p' \<Longrightarrow>
      registered (unregister p i s) p' i' = (if p' = p \<and> i' = i then None else registered s p' i')"
begin

fun run :: "('p, 'i, 'q) reg_op list \<Rightarrow> 's \<Rightarrow> 's" where
  "run [] s = s"
| "run (Register p i q # ops) s = run ops (register p i q s)"
| "run (Unregister p i # ops) s = run ops (unregister p i s)"

lemma run_invar: "invar s \<Longrightarrow> \<forall>x\<in>set ops. path_ok (op_path x) \<Longrightarrow> invar (run ops s)"
  by (induction ops s rule: run.induct) (auto intro: invar_register invar_unregister)

lemma reg_spec_agree:
  "(\<And>i. m p i = m' p i) \<Longrightarrow> reg_spec ops m p i = reg_spec ops m' p i"
proof (induction ops m arbitrary: m' rule: reg_spec.induct)
  case (2 p' i' q ops m)
  show ?case by simp (rule "2.IH", use "2.prems" in auto)
next
  case (3 p' i' ops m)
  show ?case by simp (rule "3.IH", use "3.prems" in auto)
qed simp

text \<open>The registry implements the map.\<close>

lemma run_registered:
  "invar s \<Longrightarrow> \<forall>x\<in>set ops. path_ok (op_path x) \<Longrightarrow> path_ok p \<Longrightarrow>
   registered (run ops s) p i = reg_spec ops (registered s) p i"
proof (induction ops s rule: run.induct)
  case (2 p' i' q ops s)
  then show ?case
    by (auto simp: invar_register registered_register intro!: reg_spec_agree)
next
  case (3 p' i' ops s)
  then show ?case
    by (auto simp: invar_unregister registered_unregister intro!: reg_spec_agree)
qed simp

end

section \<open>The subscription tree is a registry\<close>

fun is_clients :: "pyobj \<Rightarrow> bool" where
  "is_clients (PyDict kvs) \<longleftrightarrow> distinct (dkeys kvs) \<and> (\<forall>x\<in>set kvs. \<exists>q. snd x = PyInt q)"
| "is_clients obj \<longleftrightarrow> False"

definition subs_ok :: "pyobj \<Rightarrow> bool" where
  "subs_ok subs \<longleftrightarrow> wf_rdd is_clients subs \<and> pruned subs"

fun client_qos :: "pyobj \<Rightarrow> string \<Rightarrow> int option" where
  "client_qos (PyDict kvs) cid = (case map_of kvs cid of Some (PyInt q) \<Rightarrow> Some q | _ \<Rightarrow> None)"
| "client_qos obj cid = None"

definition registered :: "pyobj \<Rightarrow> string list \<Rightarrow> string \<Rightarrow> int option" where
  "registered subs path cid =
     (case leaf_at subs path of None \<Rightarrow> None | Some clients \<Rightarrow> client_qos clients cid)"

definition unsubscribe_tree :: "string list \<Rightarrow> string \<Rightarrow> pyobj \<Rightarrow> (py_error + unit) \<times> pyobj" where
  "unsubscribe_tree nodes cid subs =
     (case rdd_lshift (PyDict []) nodes (pop_client cid) subs of
        (Inl e, subs1) \<Rightarrow> (Inl e, subs1)
      | (Inr (got_id, nonempty), subs1) \<Rightarrow>
          if nonempty then (Inr (), subs1) else cascade_delete (PyDict []) nodes subs1)"

lemma is_clients_ex: "is_clients c \<Longrightarrow> \<exists>kvs. c = PyDict kvs"
  by (cases c) auto

lemma set_client_ok:
  assumes "is_clients c"
  shows "fst (set_client cid q c) = Inr ()" and "is_clients (snd (set_client cid q c))"
    and "client_qos (snd (set_client cid q c)) i = (if i = cid then Some q else client_qos c i)"
    and "py_truthy (snd (set_client cid q c))"
proof -
  obtain kvs where c: "c = PyDict kvs" using is_clients_ex [OF assms] by blast
  show "fst (set_client cid q c) = Inr ()" "py_truthy (snd (set_client cid q c))"
    "client_qos (snd (set_client cid q c)) i = (if i = cid then Some q else client_qos c i)"
    by (simp_all add: c)
  show "is_clients (snd (set_client cid q c))"
    using assms set_update_subset [of cid "PyInt q" kvs] by (auto simp: c)
qed

lemma pop_client_ok:
  assumes "is_clients c"
  shows "fst (pop_client cid c) =
      Inr (client_qos c cid \<noteq> None \<and> client_qos c cid \<noteq> Some 0, py_truthy (snd (pop_client cid c)))"
    and "is_clients (snd (pop_client cid c))"
    and "client_qos (snd (pop_client cid c)) i = (if i = cid then None else client_qos c i)"
    and "\<not> py_truthy (snd (pop_client cid c)) \<Longrightarrow> i \<noteq> cid \<Longrightarrow> client_qos c i = None"
proof -
  obtain kvs where c: "c = PyDict kvs" using is_clients_ex [OF assms] by blast
  have val: "map_of kvs cid = Some v \<Longrightarrow> \<exists>q. v = PyInt q" for v
    using assms by (auto simp: c dest: map_of_in_set)
  then show "fst (pop_client cid c) =
      Inr (client_qos c cid \<noteq> None \<and> client_qos c cid \<noteq> Some 0, py_truthy (snd (pop_client cid c)))"
    by (cases "map_of kvs cid") (fastforce simp: c Let_def)+
  show pop: "client_qos (snd (pop_client cid c)) i = (if i = cid then None else client_qos c i)" for i
    by (simp add: c Let_def)
  show "is_clients (snd (pop_client cid c))"
    using assms distinct_delete [of kvs cid] by (auto simp: c Let_def) (auto simp: AList.delete_eq)
  show "client_qos c i = None" if "\<not> py_truthy (snd (pop_client cid c))" "i \<noteq> cid"
    using that map_of_delete [of cid kvs] by (auto simp: c Let_def dest: fun_cong [of _ _ i])
qed

lemma registered_no_leaf [simp]: "leaf_at subs p = None \<Longrightarrow> registered subs p i = None"
  by (simp add: registered_def)

lemma leaf_or_clients:
  "wf_rdd is_clients subs \<Longrightarrow> LEAF_KEY \<notin> set p \<Longrightarrow> is_clients (leaf_or (PyDict []) subs p)"
  by (auto simp: leaf_or_def split: option.split dest: leaf_at_P)

lemma registered_leaf_or: "registered subs p i = client_qos (leaf_or (PyDict []) subs p) i"
  by (simp add: registered_def leaf_or_def split: option.split)

text \<open>A tree pruned off a path is pruned when the leaf at the end of the path is not empty.\<close>

lemma pruned_off_leaf:
  assumes "wf_rdd P t" and "LEAF_KEY \<notin> set path" and "leaf_at t path = Some v"
    and "py_truthy v" and "pruned_off path t"
  shows "pruned t"
  using assms(1-3,5)
proof (induction path arbitrary: t)
  case Nil
  then obtain kvs where t: "t = PyRdd kvs" by (blast dest: wf_rdd_ex)
  have dist: "distinct (dkeys kvs)" using Nil.prems(1) by (simp add: t)
  have "w = v" if "(LEAF_KEY, w) \<in> set kvs" for w
    using dist that Nil.prems(3) by (simp add: t)
  with Nil.prems(4) assms(4) show ?case by (auto simp: t pruned.simps pruned_off.simps)
next
  case (Cons n ns)
  then obtain kvs where t: "t = PyRdd kvs" by (blast dest: wf_rdd_ex)
  have n: "n \<noteq> LEAF_KEY" "LEAF_KEY \<notin> set ns" using Cons.prems(2) by auto
  have dist: "distinct (dkeys kvs)" using Cons.prems(1) by (simp add: t)
  have "py_truthy r \<and> pruned r" if r: "(n, r) \<in> set kvs" for r
  proof -
    have m: "map_of kvs n = Some r" using dist r by simp
    have w: "wf_rdd P r" using Cons.prems(1) n(1) m by (auto simp: t dest: wf_rdd_child)
    have l: "leaf_at r ns = Some v" using Cons.prems(3) m by (simp add: t)
    have "pruned_off ns r" using Cons.prems(4) r by (fastforce simp: t pruned_off.simps)
    moreover obtain kvs' where "r = PyRdd kvs'" using w by (blast dest: wf_rdd_ex)
    moreover from this l have "kvs' \<noteq> []" by auto
    ultimately show ?thesis using Cons.IH [OF w n(2) l] by simp
  qed
  moreover have "\<forall>x\<in>set kvs. if fst x = n then pruned_off ns (snd x)
      else py_truthy (snd x) \<and> (fst x \<noteq> LEAF_KEY \<longrightarrow> pruned (snd x))"
    using Cons.prems(4) by (simp add: t pruned_off.simps)
  ultimately show ?case unfolding t pruned.simps by (metis prod.collapse)
qed

lemma subscribe_tree_spec:
  assumes "subs_ok subs" and "rdd_path path"
  shows "fst (subscribe_tree path cid q subs) = Inr ()
    \<and> subs_ok (snd (subscribe_tree path cid q subs))
    \<and> (\<forall>p i. LEAF_KEY \<notin> set p \<longrightarrow> registered (snd (subscribe_tree path cid q subs)) p i =
         (if p = path \<and> i = cid then Some q else registered subs p i))"
proof -
  let ?r = "rdd_lshift (PyDict []) path (set_client cid q) subs"
  have wf: "wf_rdd is_clients subs" and pr: "pruned subs" using assms(1) by (simp_all add: subs_ok_def)
  have path: "LEAF_KEY \<notin> set path" using assms(2) by (simp add: rdd_path_def)
  note c = set_client_ok [OF leaf_or_clients [OF wf path]]
  have s: "fst ?r = Inr ()" "wf_rdd is_clients (snd ?r)"
    "\<And>p. LEAF_KEY \<notin> set p \<Longrightarrow> leaf_at (snd ?r) p =
         (if p = path then Some (snd (set_client cid q (leaf_or (PyDict []) subs path))) else leaf_at subs p)"
    using rdd_lshift_spec [where f = "set_client cid q", OF wf assms(2) _ set_client_ok(2)] c(1) by auto
  have "pruned (snd ?r)"
    by (rule pruned_off_leaf [OF s(2) path])
       (use s(3) [OF path] c(4) rdd_lshift_pruned_off [OF wf assms(2) pr] in auto)
  moreover have "registered (snd ?r) p i = (if p = path \<and> i = cid then Some q else registered subs p i)"
    if "LEAF_KEY \<notin> set p" for p i
  proof -
    have "leaf_or (PyDict []) (snd ?r) p = (if p = path
        then snd (set_client cid q (leaf_or (PyDict []) subs path)) else leaf_or (PyDict []) subs p)"
      by (simp add: leaf_or_def [of _ "snd ?r"] leaf_or_def [of _ subs p] s(3) [OF that])
    then show ?thesis by (simp add: registered_leaf_or c(3))
  qed
  ultimately show ?thesis using s by (simp add: subscribe_tree_def subs_ok_def)
qed

lemma unsubscribe_tree_spec:
  assumes "subs_ok subs" and "rdd_path path"
  shows "fst (unsubscribe_tree path cid subs) = Inr ()
    \<and> subs_ok (snd (unsubscribe_tree path cid subs))
    \<and> (\<forall>p i. LEAF_KEY \<notin> set p \<longrightarrow> registered (snd (unsubscribe_tree path cid subs)) p i =
         (if p = path \<and> i = cid then None else registered subs p i))"
proof -
  let ?r = "rdd_lshift (PyDict []) path (pop_client cid) subs"
  let ?old = "leaf_or (PyDict []) subs path"
  let ?c = "snd (pop_client cid ?old)"
  have wf: "wf_rdd is_clients subs" and pr: "pruned subs" using assms(1) by (simp_all add: subs_ok_def)
  have path: "LEAF_KEY \<notin> set path" using assms(2) by (simp add: rdd_path_def)
  note c = pop_client_ok [OF leaf_or_clients [OF wf path], of cid]
  obtain got where s: "fst ?r = Inr (got, py_truthy ?c)" and w: "wf_rdd is_clients (snd ?r)"
    and l: "\<And>p. LEAF_KEY \<notin> set p \<Longrightarrow>
         leaf_at (snd ?r) p = (if p = path then Some ?c else leaf_at subs p)"
    using rdd_lshift_spec [where f = "pop_client cid", OF wf assms(2) _ pop_client_ok(2)] c(1) by auto
  have off: "pruned_off path (snd ?r)" by (rule rdd_lshift_pruned_off [OF wf assms(2) pr])
  have reg: "registered t p i = client_qos (leaf_or (PyDict []) t p) i" for t p i
    by (rule registered_leaf_or)
  show ?thesis
  proof (cases "py_truthy ?c")
    case True
    then have eq: "unsubscribe_tree path cid subs = (Inr (), snd ?r)"
      using s by (cases ?r) (simp add: unsubscribe_tree_def)
    have "pruned (snd ?r)"
      by (rule pruned_off_leaf [OF w path]) (use l [OF path] True off in auto)
    moreover have "registered (snd ?r) p i = (if p = path \<and> i = cid then None else registered subs p i)"
      if "LEAF_KEY \<notin> set p" for p i
    proof -
      have "leaf_or (PyDict []) (snd ?r) p = (if p = path then ?c else leaf_or (PyDict []) subs p)"
        by (simp add: leaf_or_def [of _ "snd ?r"] leaf_or_def [of _ subs p] l [OF that])
      then show ?thesis by (simp add: reg c(3))
    qed
    ultimately show ?thesis using w by (simp add: eq subs_ok_def)
  next
    case False
    then have eq: "unsubscribe_tree path cid subs = cascade_delete (PyDict []) path (snd ?r)"
      using s by (cases ?r) (simp add: unsubscribe_tree_def)
    have some: "leaf_at (snd ?r) path \<noteq> None" using l [OF path] by simp
    note d = cascade_delete_spec [OF w assms(2) some, of "PyDict []"]
    have "registered (snd (cascade_delete (PyDict []) path (snd ?r))) p i =
        (if p = path \<and> i = cid then None else registered subs p i)" if "LEAF_KEY \<notin> set p" for p i
    proof -
      have "leaf_or (PyDict []) (snd (cascade_delete (PyDict []) path (snd ?r))) p =
          (if p = path then PyDict [] else leaf_or (PyDict []) subs p)"
        using d l [OF that] that by (simp add: leaf_or_def)
      then show ?thesis using c(4) [OF False, of i] by (simp add: reg)
    qed
    with d cascade_delete_pruned [OF w assms(2) some off] show ?thesis
      by (simp add: eq subs_ok_def)
  qed
qed

interpretation subs: registry
  "\<lambda>p i q s. snd (subscribe_tree p i q s)" "\<lambda>p i s. snd (unsubscribe_tree p i s)"
  registered rdd_path subs_ok
  by unfold_locales (simp_all add: subscribe_tree_spec unsubscribe_tree_spec rdd_path_def)

section \<open>Messages can be built\<close>

text \<open>
  \<open>data_tree n\<close>: dicts nested \<open>n\<close> deep around \<open>None\<close> or bytes that decode. What the rows of a
  subscription with \<open>n\<close> wildcards build.
\<close>

definition row_data_ok :: "row list \<Rightarrow> bool" where
  "row_data_ok rows \<longleftrightarrow>
     (\<forall>r\<in>set rows. LEAF_KEY \<notin> set (fst r) \<and> (\<forall>b. fst (snd r) = Some b \<longrightarrow> utf8_valid b))"

fun data_tree :: "nat \<Rightarrow> pyobj \<Rightarrow> bool" where
  "data_tree 0 PyNone \<longleftrightarrow> True"
| "data_tree 0 (PyBytes b) \<longleftrightarrow> utf8_valid b"
| "data_tree (Suc n) (PyRdd kvs) \<longleftrightarrow> (\<forall>x\<in>set kvs. fst x \<noteq> LEAF_KEY \<and> data_tree n (snd x))"
| "data_tree _ _ \<longleftrightarrow> False"

lemma data_tree_Suc: "data_tree (Suc n) t \<Longrightarrow> \<exists>kvs. t = PyRdd kvs"
  by (cases t) auto

lemma data_tree_update:
  "data_tree (Suc n) (PyRdd kvs) \<Longrightarrow> k \<noteq> LEAF_KEY \<Longrightarrow> data_tree n v \<Longrightarrow>
   data_tree (Suc n) (PyRdd (AList.update k v kvs))"
  using set_update_subset [of k v kvs] by fastforce

lemma set_path_data_tree:
  assumes "data_tree (length ks) t" and "ks \<noteq> []" and "LEAF_KEY \<notin> set ks" and "data_tree 0 d"
  shows "\<exists>t'. set_path ks d t = Inr t' \<and> data_tree (length ks) t'"
  using assms
proof (induction ks d t rule: set_path.induct)
  case (2 k d kvs)
  then show ?case using data_tree_update [of 0 kvs k d] by simp
next
  case (3 k k' ks d kvs)
  let ?n = "length (k' # ks)"
  have k: "k \<noteq> LEAF_KEY" "LEAF_KEY \<notin> set (k' # ks)" using "3.prems"(3) by auto
  obtain r kvs1 where g: "rdd_getitem PyNone k kvs = (r, kvs1)" by fastforce
  have r: "data_tree ?n r \<and> data_tree (Suc ?n) (PyRdd kvs1)"
  proof (cases "map_of kvs k")
    case None
    then have "r = PyRdd [] \<and> kvs1 = AList.update k r kvs"
      using g None k(1) by (auto simp: rdd_getitem_def rdd_missing_def Let_def)
    then show ?thesis
      using data_tree_update [of ?n kvs k "PyRdd []"] "3.prems"(1) k(1) by simp
  next
    case (Some v)
    then have "r = v \<and> kvs1 = kvs" using g by (simp add: rdd_getitem_def)
    with "3.prems"(1) map_of_in_set [OF Some] show ?thesis by fastforce
  qed
  with "3.IH" [OF g [symmetric] refl _ _ k(2) "3.prems"(4)] obtain t'
    where "set_path (k' # ks) d r = Inr t'" "data_tree ?n t'" by auto
  with r k(1) show ?case using data_tree_update [of ?n kvs1 k t'] by (simp add: g)
qed (auto dest: data_tree_Suc)

lemma data_tree_encodes: "data_tree n t \<Longrightarrow> \<exists>s. json_encode t = Inr s \<and> ascii s"
proof (induction n t rule: data_tree.induct)
  case (3 n kvs)
  have "\<exists>s. bindR (json_encode v) (\<lambda>s. Inr (json_str k @ '': '' @ s)) = Inr s \<and> ascii s"
    if "(k, v) \<in> set kvs" for k v
    using "3.IH" [OF that] "3.prems" that by fastforce
  then have "\<exists>ps. mapR (\<lambda>(k, v). bindR (json_encode v) (\<lambda>s. Inr (json_str k @ '': '' @ s))) kvs = Inr ps
      \<and> (\<forall>p\<in>set ps. ascii p)"
    by (induction kvs) fastforce+
  then show ?case by (auto intro!: ascii_join)
qed (auto simp: py_decode_def)

lemma length_wild_nodes:
  "topic_match path topic \<Longrightarrow>
   length (wild_nodes path topic) = length (filter (\<lambda>n. \<not> is_node_static n) path)"
  by (induction path topic rule: list_induct2') (auto simp: wild_nodes_def topic_match_def)

lemma set_wild_nodes: "set (wild_nodes path topic) \<subseteq> set topic"
  by (auto simp: wild_nodes_def dest: set_zip_rightD)

lemma build_message_data_ok:
  assumes "rs \<noteq> []" and "\<And>r. r \<in> set rs \<Longrightarrow> topic_match path (fst r)" and "row_data_ok rs"
  shows "\<exists>d. build_message_data rs path (MANY_CARD \<in> set path) = Inr d"
proof (cases "MANY_CARD \<in> set path")
  case True
  let ?n = "length (filter (\<lambda>n. \<not> is_node_static n) path)"
  have n: "?n \<noteq> 0" using True by (auto simp: filter_empty_conv intro!: bexI [of _ MANY_CARD])
  have "\<exists>t'. foldR (\<lambda>tree row. set_path (wild_nodes path (fst row)) (obj_of_data (fst (snd row))) tree) t rs
      = Inr t' \<and> data_tree ?n t'" if "data_tree ?n t" for t
    using assms(2,3) that
  proof (induction rs arbitrary: t)
    case (Cons r rs)
    have len: "length (wild_nodes path (fst r)) = ?n" using Cons.prems(1) by (simp add: length_wild_nodes)
    have rok: "LEAF_KEY \<notin> set (wild_nodes path (fst r))" "data_tree 0 (obj_of_data (fst (snd r)))"
      using Cons.prems(2) set_wild_nodes [of path "fst r"]
      by (auto simp: row_data_ok_def) (cases "fst (snd r)"; auto)
    obtain t1 where t1: "set_path (wild_nodes path (fst r)) (obj_of_data (fst (snd r))) t = Inr t1"
      "data_tree ?n t1"
      using set_path_data_tree [OF _ _ rok, of t] len n Cons.prems(3) by (metis length_0_conv)
    have "row_data_ok rs" using Cons.prems(2) by (simp add: row_data_ok_def)
    with Cons.IH [OF _ this t1(2)] Cons.prems(1) t1(1) show ?case by simp
  qed simp
  moreover have "data_tree ?n (PyRdd [])" using n by (cases ?n) auto
  ultimately obtain t' where t': "foldR (\<lambda>tree row. set_path (wild_nodes path (fst row))
      (obj_of_data (fst (snd row))) tree) (PyRdd []) rs = Inr t'" "data_tree ?n t'" by blast
  from data_tree_encodes [OF t'(2)] obtain s where "stringify t' = Inr s"
    by (auto dest: stringify_ascii)
  with t'(1) True show ?thesis by (simp add: build_message_data_def)
qed (simp add: build_message_data_def assms(1))

section \<open>What is delivered\<close>

text \<open>
  The reference: for every subscription that some row matches, one message per connected
  client registered for it, in the order of the trees.
\<close>

definition reply_data :: "string list \<Rightarrow> row list \<Rightarrow> bytes option" where
  "reply_data path rows = projr (build_message_data (rows_for path rows) path (MANY_CARD \<in> set path))"

definition the_qos :: "pyobj \<Rightarrow> int" where
  "the_qos q = (case q of PyInt i \<Rightarrow> i | _ \<Rightarrow> 0)"

definition client_messages :: "(string \<Rightarrow> ref option) \<Rightarrow> string list \<Rightarrow> bytes option \<Rightarrow> pydict
    \<Rightarrow> (ref \<times> outgoing_message) list" where
  "client_messages conn path data items =
     concat (map (\<lambda>(cid, q). case conn cid of None \<Rightarrow> []
       | Some r \<Rightarrow> [(r, \<lparr>om_topic = join_char TOPIC_SEP path, om_qos = the_qos q, om_data = obj_of_data data\<rparr>)])
       items)"

definition deliveries :: "broker \<Rightarrow> row list \<Rightarrow> (ref \<times> outgoing_message) list" where
  "deliveries br rows =
     concat (map (\<lambda>(path, clients).
       if rows_for path rows = [] then []
       else client_messages (br_clients br) path (reply_data path rows) (projr (py_items clients)))
       (sub_leaves (br_subs br)))"

definition queue_all :: "(ref \<times> outgoing_message) list \<Rightarrow> broker \<Rightarrow> broker" where
  "queue_all ds br = foldl (\<lambda>br d. queue_message (fst d) (snd d) br) br ds"

lemma queue_all_simps [simp]:
  "queue_all [] br = br"
  "queue_all (d # ds) br = queue_all ds (queue_message (fst d) (snd d) br)"
  "queue_all (ds @ es) br = queue_all es (queue_all ds br)"
  by (simp_all add: queue_all_def)

lemma queue_all_eq:
  "queue_all ds br = br\<lparr>br_queues := (\<lambda>r. br_queues br r @ map snd (filter (\<lambda>d. fst d = r) ds))\<rparr>"
  by (induction ds arbitrary: br) (auto simp: queue_message_def fun_eq_iff)

lemma str_from_nodes_join: "nodes \<noteq> [] \<Longrightarrow> str_from_nodes nodes = join_char TOPIC_SEP nodes"
  using topic_from_nodes_Some [of nodes None] by (auto simp: str_from_nodes_def)

lemma deliver_to_eq:
  "(\<And>x. x \<in> set items \<Longrightarrow> \<exists>q. snd x = PyInt q) \<Longrightarrow> path \<noteq> [] \<Longrightarrow>
   deliver_to (str_from_nodes path) data items br =
     (Inr (), queue_all (client_messages (br_clients br) path data items) br)"
proof (induction items arbitrary: br)
  case (Cons x items)
  obtain cid q where x: "x = (cid, PyInt q)" using Cons.prems(1) [of x] by (cases x) auto
  show ?case
  proof (cases "br_clients br cid")
    case None
    with Cons show ?thesis by (simp add: x client_messages_def)
  next
    case (Some r)
    define br1 where "br1 = queue_message r \<lparr>om_topic = str_from_nodes path, om_qos = q,
      om_data = obj_of_data data\<rparr> br"
    have c: "br_clients br1 = br_clients br" by (simp add: br1_def queue_message_def)
    have "deliver_to (str_from_nodes path) data items br1 =
       (Inr (), queue_all (client_messages (br_clients br) path data items) br1)"
      using Cons.IH [of br1] Cons.prems by (simp add: c)
    with Some Cons.prems(2) show ?thesis
      by (simp add: x client_messages_def the_qos_def br1_def str_from_nodes_join)
  qed
qed (simp add: client_messages_def)

lemma deliver_messages_eq:
  "(\<And>x. x \<in> set ms \<Longrightarrow> is_clients (fst x) \<and> fst (snd x) \<noteq> []) \<Longrightarrow>
   deliver_messages ms br = (Inr (), queue_all
     (concat (map (\<lambda>(c, p, d). client_messages (br_clients br) p d (projr (py_items c))) ms)) br)"
proof (induction ms arbitrary: br)
  case (Cons m ms)
  obtain c p d where m: "m = (c, p, d)" by (cases m)
  with Cons.prems [of m] have c: "is_clients c" "p \<noteq> []" by auto
  then obtain kvs where kvs: "c = PyDict kvs" by (blast dest: is_clients_ex)
  let ?br = "queue_all (client_messages (br_clients br) p d kvs) br"
  have "deliver_to (str_from_nodes p) d kvs br = (Inr (), ?br)"
    by (rule deliver_to_eq) (use c in \<open>auto simp: kvs\<close>)
  moreover have "br_clients ?br = br_clients br" by (simp add: queue_all_eq)
  moreover have "deliver_messages ms ?br = (Inr (), queue_all
      (concat (map (\<lambda>(c, p, d). client_messages (br_clients ?br) p d (projr (py_items c))) ms)) ?br)"
    by (rule Cons.IH) (rule Cons.prems, simp)
  ultimately show ?case by (simp add: m kvs)
qed simp

lemma sub_leaves_iff:
  "wf_rdd P t \<Longrightarrow> (p, l) \<in> set (sub_leaves t) \<longleftrightarrow> LEAF_KEY \<notin> set p \<and> leaf_at t p = Some l"
proof (induction t arbitrary: p rule: sub_leaves.induct)
  case (1 kvs)
  have d: "distinct (dkeys kvs)" using "1.prems" by simp
  show ?case
  proof (cases p)
    case Nil
    then show ?thesis using d by (force split: if_splits)
  next
    case (Cons n ns)
    have "(p, l) \<in> set (sub_leaves (PyRdd kvs)) \<longleftrightarrow>
        (\<exists>v. (n, v) \<in> set kvs \<and> n \<noteq> LEAF_KEY \<and> (ns, l) \<in> set (sub_leaves v))"
      by (fastforce simp: Cons split: if_splits)
    also have "\<dots> \<longleftrightarrow> (\<exists>v. (n, v) \<in> set kvs \<and> n \<noteq> LEAF_KEY \<and> LEAF_KEY \<notin> set ns \<and> leaf_at v ns = Some l)"
      using "1.IH" "1.prems" by fastforce
    also have "\<dots> \<longleftrightarrow> LEAF_KEY \<notin> set p \<and> leaf_at (PyRdd kvs) p = Some l"
      using d by (auto simp: Cons split: option.splits
          dest: map_of_in_set eq_key_imp_eq_value)
    finally show ?thesis .
  qed
qed auto

lemma message_for_ok:
  assumes "row_data_ok rows"
  shows "message_for rows (path, clients) =
    Inr (if rows_for path rows = [] then [] else [(clients, path, reply_data path rows)])"
proof (cases "rows_for path rows = []")
  case False
  have "row_data_ok (rows_for path rows)" using assms by (auto simp: row_data_ok_def rows_for_def)
  then obtain d where "build_message_data (rows_for path rows) path (MANY_CARD \<in> set path) = Inr d"
    using build_message_data_ok [OF False] by (auto simp: rows_for_def)
  with False show ?thesis by (simp add: message_for_def reply_data_def Let_def)
qed (simp add: message_for_def)

lemma concat_concat_map: "concat (map g (concat (map f xs))) = concat (map (\<lambda>x. concat (map g (f x))) xs)"
  by (induction xs) auto

lemma process_outgoing_rows_aux:
  assumes "subs_ok (br_subs br)" and "row_data_ok rows" and "\<forall>r\<in>set rows. fst r \<noteq> []"
  shows "process_outgoing_rows rows br = (Inr (), queue_all (deliveries br rows) br)"
proof -
  have wf: "wf_rdd is_clients (br_subs br)" using assms(1) by (simp add: subs_ok_def)
  let ?ms = "concat (map (\<lambda>(path, clients). if rows_for path rows = [] then []
      else [(clients, path, reply_data path rows)]) (sub_leaves (br_subs br)))"
  have "create_messages_for_subscriptions (br_subs br) rows =
      concat_mapR (message_for rows) (sub_leaves (br_subs br))"
    using create_messages_spec [OF wf, of rows "[]" 0 False] assms(2)
    by (simp add: create_messages_for_subscriptions_def message_from_0 row_data_ok_def)
  also have "\<dots> = Inr ?ms"
    by (rule concat_mapR_all_Inr) (auto simp: message_for_ok [OF assms(2)])
  finally have cm: "create_messages_for_subscriptions (br_subs br) rows = Inr ?ms" .
  have "is_clients (fst x) \<and> fst (snd x) \<noteq> []" if x: "x \<in> set ?ms" for x
  proof -
    obtain c p d where cpd: "x = (c, p, d)" by (cases x)
    have sub: "(p, c) \<in> set (sub_leaves (br_subs br))" and match: "rows_for p rows \<noteq> []"
      using x by (auto simp: cpd split: if_splits)
    then have "is_clients c" using wf by (auto simp: sub_leaves_iff dest: leaf_at_P)
    moreover from match assms(3) have "p \<noteq> []" by (auto simp: rows_for_def filter_empty_conv)
    ultimately show ?thesis by (simp add: cpd)
  qed
  from deliver_messages_eq [OF this] have "deliver_messages ?ms br = (Inr (), queue_all
     (concat (map (\<lambda>(c, p, d). client_messages (br_clients br) p d (projr (py_items c))) ?ms)) br)"
    by blast
  moreover have "concat (map (\<lambda>(c, p, d). client_messages (br_clients br) p d (projr (py_items c))) ?ms)
      = deliveries br rows"
    unfolding deliveries_def concat_concat_map
    by (rule arg_cong [of _ _ concat], rule map_cong) auto
  ultimately show ?thesis by (simp only: process_outgoing_rows_def cm sum.case)
qed

section \<open>Subscriptions as a list\<close>

text \<open>Every registration of the tree once, in the order of the dicts.\<close>

definition sub_list :: "pyobj \<Rightarrow> (string list \<times> string \<times> int) list" where
  "sub_list subs = concat (map (\<lambda>(p, c). map (\<lambda>(cid, q). (p, cid, the_qos q)) (projr (py_items c)))
     (sub_leaves subs))"

definition sub_message_of :: "row list \<Rightarrow> string list \<Rightarrow> int \<Rightarrow> outgoing_message" where
  "sub_message_of rows p q = \<lparr>om_topic = join_char TOPIC_SEP p, om_qos = q,
     om_data = obj_of_data (reply_data p rows)\<rparr>"

lemma distinct_sub_leaves: "wf_rdd P t \<Longrightarrow> distinct (map fst (sub_leaves t))"
proof (induction t rule: sub_leaves.induct)
  case (1 kvs)
  have "distinct (map fst (concat (map (\<lambda>(k, v). if k = LEAF_KEY then [([], v)]
                            else map (\<lambda>(p, l). (k # p, l)) (sub_leaves v)) kvs)))"
  proof (rule distinct_concat_branches [where kf = "\<lambda>p. case p of [] \<Rightarrow> LEAF_KEY | k # _ \<Rightarrow> k"])
    show "distinct (dkeys kvs)" using "1.prems" by simp
    fix k v assume kv: "(k, v) \<in> set kvs"
    have "k \<noteq> LEAF_KEY \<Longrightarrow> distinct (map fst (sub_leaves v))" using 1 kv by auto
    then show "distinct (map fst ((\<lambda>(k, v). if k = LEAF_KEY then [([], v)]
          else map (\<lambda>(p, l). (k # p, l)) (sub_leaves v)) (k, v)))
      \<and> (\<forall>y\<in>set ((\<lambda>(k, v). if k = LEAF_KEY then [([], v)]
          else map (\<lambda>(p, l). (k # p, l)) (sub_leaves v)) (k, v)).
          (case fst y of [] \<Rightarrow> LEAF_KEY | k # _ \<Rightarrow> k) = k)"
      by (auto simp: comp_def case_prod_beta' distinct_map inj_on_def)
  qed
  then show ?case by simp
qed auto

lemma sub_list_iff:
  assumes "subs_ok subs"
  shows "(p, cid, q) \<in> set (sub_list subs) \<longleftrightarrow> LEAF_KEY \<notin> set p \<and> registered subs p cid = Some q"
proof -
  have wf: "wf_rdd is_clients subs" using assms by (simp add: subs_ok_def)
  have reg: "(\<exists>v. (cid, v) \<in> set (projr (py_items c)) \<and> the_qos v = q) \<longleftrightarrow> client_qos c cid = Some q"
    if c: "is_clients c" for c
  proof -
    obtain kvs where kvs: "c = PyDict kvs" using is_clients_ex [OF c] by blast
    have "distinct (dkeys kvs)" "\<And>k v. (k, v) \<in> set kvs \<Longrightarrow> \<exists>i. v = PyInt i"
      using c by (auto simp: kvs)
    then have "(\<exists>v. (cid, v) \<in> set kvs \<and> the_qos v = q) \<longleftrightarrow> map_of kvs cid = Some (PyInt q)"
      by (fastforce simp: the_qos_def)
    moreover have "map_of kvs cid = Some v \<Longrightarrow> \<exists>i. v = PyInt i" for v
      using c by (auto simp: kvs dest: map_of_in_set)
    ultimately show ?thesis by (cases "map_of kvs cid") (fastforce simp: kvs)+
  qed
  have "(p, cid, q) \<in> set (sub_list subs) \<longleftrightarrow>
      (\<exists>c. (p, c) \<in> set (sub_leaves subs) \<and> (\<exists>v. (cid, v) \<in> set (projr (py_items c)) \<and> the_qos v = q))"
    by (fastforce simp: sub_list_def)
  also have "\<dots> \<longleftrightarrow> (\<exists>c. LEAF_KEY \<notin> set p \<and> leaf_at subs p = Some c \<and> client_qos c cid = Some q)"
    using reg leaf_at_P [OF wf] by (auto simp: sub_leaves_iff [OF wf])
  finally show ?thesis by (auto simp: registered_def split: option.split)
qed

lemma distinct_sub_list:
  assumes "subs_ok subs"
  shows "distinct (map (\<lambda>(p, cid, q). (p, cid)) (sub_list subs))"
proof -
  have wf: "wf_rdd is_clients subs" using assms by (simp add: subs_ok_def)
  have "distinct (map (\<lambda>(p, cid, q). (p, cid)) (concat (map (\<lambda>(p, c).
      map (\<lambda>(cid, q). (p, cid, the_qos q)) (projr (py_items c))) (sub_leaves subs))))"
  proof (rule distinct_concat_branches [where kf = fst])
    show "distinct (map fst (sub_leaves subs))" by (rule distinct_sub_leaves [OF wf])
    fix p c assume "(p, c) \<in> set (sub_leaves subs)"
    then have "is_clients c" using wf by (auto simp: sub_leaves_iff dest: leaf_at_P)
    then obtain kvs where "c = PyDict kvs" "distinct (dkeys kvs)" using is_clients_ex by fastforce
    then show "distinct (map (\<lambda>(p, cid, q). (p, cid)) ((\<lambda>(p, c).
        map (\<lambda>(cid, q). (p, cid, the_qos q)) (projr (py_items c))) (p, c)))
      \<and> (\<forall>y\<in>set ((\<lambda>(p, c). map (\<lambda>(cid, q). (p, cid, the_qos q)) (projr (py_items c))) (p, c)).
          fst ((\<lambda>(p, cid, q). (p, cid)) y) = p)"
      by (auto simp: comp_def case_prod_beta' distinct_map inj_on_def)
  qed
  then show ?thesis by (simp add: sub_list_def)
qed

lemma deliveries_sub_list:
  "map snd (filter (\<lambda>d. fst d = r) (deliveries br rows)) =
   map (\<lambda>(p, cid, q). sub_message_of rows p q)
     (filter (\<lambda>(p, cid, q). rows_for p rows \<noteq> [] \<and> br_clients br cid = Some r) (sub_list (br_subs br)))"
proof -
  have items: "map snd (filter (\<lambda>d. fst d = r) (client_messages (br_clients br) p (reply_data p rows) kvs)) =
      map (\<lambda>(p, cid, q). sub_message_of rows p q)
        (filter (\<lambda>(p, cid, q). br_clients br cid = Some r) (map (\<lambda>(cid, q). (p, cid, the_qos q)) kvs))"
    for p kvs
    by (induction kvs) (auto simp: client_messages_def sub_message_of_def split: option.splits)
  have one: "map snd (filter (\<lambda>d. fst d = r) ((\<lambda>(p, c). if rows_for p rows = [] then []
        else client_messages (br_clients br) p (reply_data p rows) (projr (py_items c))) x)) =
      map (\<lambda>(p, cid, q). sub_message_of rows p q)
        (filter (\<lambda>(p, cid, q). rows_for p rows \<noteq> [] \<and> br_clients br cid = Some r)
          ((\<lambda>(p, c). map (\<lambda>(cid, q). (p, cid, the_qos q)) (projr (py_items c))) x))" for x
  proof (cases x)
    case (Pair p c)
    show ?thesis
    proof (cases "rows_for p rows = []")
      case True
      then show ?thesis by (auto simp: Pair filter_empty_conv case_prod_beta')
    next
      case False
      then show ?thesis by (simp add: Pair items filter_map comp_def case_prod_beta')
    qed
  qed
  show ?thesis
    unfolding deliveries_def sub_list_def filter_concat map_concat map_map comp_def one ..
qed

section \<open>The invariant\<close>

definition broker_ok :: "broker \<Rightarrow> bool" where
  "broker_ok br \<longleftrightarrow> subs_ok (br_subs br) \<and> wf_tree (tm_tree (br_tm br))"

lemma new_broker_ok: "broker_ok new_broker"
  by (simp add: broker_ok_def new_broker_def subs_ok_def)

text \<open>
  Storing a row keeps the tree well-formed even when it raises: a path with the leaf key in
  it, which a grafted JSON key can be, ends at a leaf.
\<close>

lemma rdd_truediv_keeps:
  assumes "\<And>x. wf_tree x \<Longrightarrow> wf_tree (snd (f x))" and "\<And>x. is_data x \<Longrightarrow> is_data (snd (f x))"
  shows "(wf_tree t \<longrightarrow> wf_tree (snd (rdd_truediv PyNone path f t)))
    \<and> (is_data t \<longrightarrow> is_data (snd (rdd_truediv PyNone path f t)))"
proof (induction path arbitrary: t)
  case Nil
  then show ?case by (cases t) auto
next
  case (Cons n ns)
  show ?case
  proof (cases "\<exists>kvs. t = PyRdd kvs")
    case False
    then show ?thesis by (cases t) auto
  next
    case True
    then obtain kvs where t: "t = PyRdd kvs" by blast
    obtain b kvs1 where g: "rdd_getitem PyNone n kvs = (b, kvs1)" by fastforce
    define r' where "r' = snd (if ns \<noteq> [] then
        (if b = PyNone then (fst (f PyNone), b) else rdd_truediv PyNone ns f b) else f b)"
    have "wf_tree (PyRdd (AList.update n r' kvs1))" if wf: "wf_tree (PyRdd kvs)"
    proof -
      have "wf_tree (PyRdd kvs1) \<and> (if n = LEAF_KEY then is_data b else wf_tree b)"
      proof (cases "map_of kvs n")
        case None
        then have "b = rdd_missing PyNone n \<and> kvs1 = AList.update n b kvs"
          using g by (auto simp: rdd_getitem_def Let_def)
        with wf show ?thesis
          by (auto simp: rdd_missing_def simp del: wf_rdd.simps intro!: wf_rdd_update)
      next
        case (Some v)
        then have "b = v \<and> kvs1 = kvs" using g by (simp add: rdd_getitem_def)
        with Some wf show ?thesis by (auto dest: wf_rdd_leaf wf_rdd_child)
      qed
      moreover from this have "if n = LEAF_KEY then is_data r' else wf_tree r'"
        using assms Cons.IH [of b] by (auto simp: r'_def split: if_splits)
      ultimately show ?thesis by (auto simp del: wf_rdd.simps intro!: wf_rdd_update split: if_splits)
    qed
    moreover have "snd (rdd_truediv PyNone (n # ns) f t) = PyRdd (AList.update n r' kvs1)"
      by (simp add: t rdd_truediv.simps(2) g r'_def split_beta Let_def)
    ultimately show ?thesis by (simp add: t)
  qed
qed

lemma set_leaf_keeps:
  "wf_tree x \<Longrightarrow> is_data v \<Longrightarrow> wf_tree (snd (set_leaf v x))"
  "is_data x \<Longrightarrow> is_data (snd (set_leaf v x))"
proof -
  assume w: "wf_tree x" "is_data v"
  then obtain kvs where "x = PyRdd kvs" by (blast dest: wf_rdd_ex)
  with w show "wf_tree (snd (set_leaf v x))" by (auto simp del: wf_rdd.simps intro!: wf_rdd_update)
qed (auto dest!: is_data_cases)

lemma retain_row_keeps:
  assumes "wf_tree t"
  shows "wf_tree (snd (retain_row row t))"
proof -
  let ?f = "\<lambda>branch. if branch = PyNone then (Inr (), branch)
                 else set_leaf (obj_of_data (fst (snd row))) branch"
  have "wf_tree x \<Longrightarrow> wf_tree (snd (?f x))" "is_data x \<Longrightarrow> is_data (snd (?f x))" for x
    by (auto simp: set_leaf_keeps)
  from rdd_truediv_keeps [of ?f, OF this] assms show ?thesis by (simp add: retain_row_def)
qed

lemma retain_loop_keeps: "wf_tree t \<Longrightarrow> wf_tree (snd (retain_loop rows t))"
proof (induction rows arbitrary: t)
  case (Cons row rows)
  have "wf_tree (snd (retain_row row t))" by (rule retain_row_keeps [OF Cons.prems])
  with Cons.IH show ?case by (auto split: prod.split sum.split)
qed simp

lemma process_message_keeps:
  "wf_tree (tm_tree tm) \<Longrightarrow> wf_tree (tm_tree (snd (process_message loads m tm)))"
  using retain_loop_keeps [of "tm_tree tm"]
  by (auto simp: process_message_def retain_rows_def tm_add_tasks_def Let_def split_beta split: sum.split)

lemma publish_keeps: "broker_ok br \<Longrightarrow> broker_ok (snd (publish loads m br))"
  using process_message_keeps [of "br_tm br" loads m]
  by (auto simp: publish_def broker_ok_def Let_def split_beta split: sum.split bool.split)

lemma queue_message_ok [simp]: "broker_ok (queue_message r m br) = broker_ok br"
  by (simp add: broker_ok_def queue_message_def)

lemma subscribe_keeps: "broker_ok br \<Longrightarrow> broker_ok (snd (subscribe tq cid r t q tree br))"
  using subscribe_tree_spec [OF _ topic_nodes_path [of t], of _ cid q]
  by (auto simp: subscribe_def broker_ok_def queue_message_def Let_def split_beta
      split: sum.split option.split)

lemma broker_warn_fields [simp]:
  "br_subs (broker_warn w br) = br_subs br" "br_tm (broker_warn w br) = br_tm br"
  "br_clients (broker_warn w br) = br_clients br" "br_queues (broker_warn w br) = br_queues br"
  "br_broadcast (broker_warn w br) = br_broadcast br"
  by (simp_all add: broker_warn_def)

lemma unsubscribe_topic_tree:
  "fst (unsubscribe_topic cid t br) = fst (unsubscribe_tree (topic_nodes t) cid (br_subs br))"
  "br_subs (snd (unsubscribe_topic cid t br)) = snd (unsubscribe_tree (topic_nodes t) cid (br_subs br))"
  "br_tm (snd (unsubscribe_topic cid t br)) = br_tm br"
  "br_clients (snd (unsubscribe_topic cid t br)) = br_clients br"
  "br_queues (snd (unsubscribe_topic cid t br)) = br_queues br"
  "br_broadcast (snd (unsubscribe_topic cid t br)) = br_broadcast br"
  by (auto simp: unsubscribe_topic_def unsubscribe_tree_def Let_def split_beta split: sum.split)

lemma unsubscribe_eq:
  "subs_ok (br_subs br) \<Longrightarrow>
   fst (unsubscribe cid ts br) = Inr True
   \<and> br_subs (snd (unsubscribe cid ts br)) =
       subs.run (map (\<lambda>t. Unregister (topic_nodes t) cid) ts) (br_subs br)
   \<and> br_tm (snd (unsubscribe cid ts br)) = br_tm br
   \<and> br_clients (snd (unsubscribe cid ts br)) = br_clients br
   \<and> br_queues (snd (unsubscribe cid ts br)) = br_queues br
   \<and> br_broadcast (snd (unsubscribe cid ts br)) = br_broadcast br"
proof (induction ts arbitrary: br)
  case (Cons t ts)
  note u = unsubscribe_topic_tree [of cid t br]
  have s: "fst (unsubscribe_tree (topic_nodes t) cid (br_subs br)) = Inr ()"
    "subs_ok (snd (unsubscribe_tree (topic_nodes t) cid (br_subs br)))"
    using unsubscribe_tree_spec [OF Cons.prems topic_nodes_path [of t]] by simp_all
  obtain br' where b: "unsubscribe_topic cid t br = (Inr (), br')"
    using u(1) s(1) by (cases "unsubscribe_topic cid t br") simp
  then have u': "br_subs br' = snd (unsubscribe_tree (topic_nodes t) cid (br_subs br))"
    "br_tm br' = br_tm br" "br_clients br' = br_clients br" "br_queues br' = br_queues br"
    "br_broadcast br' = br_broadcast br"
    using u(2-) by simp_all
  have "subs_ok (br_subs br')" using s(2) u'(1) by simp
  from Cons.IH [OF this] show ?case by (simp add: b u')
qed simp

lemma unsubscribe_keeps: "broker_ok br \<Longrightarrow> broker_ok (snd (unsubscribe cid ts br))"
proof -
  assume "broker_ok br"
  then have ok: "subs_ok (br_subs br)" "wf_tree (tm_tree (br_tm br))" by (simp_all add: broker_ok_def)
  have "subs_ok (subs.run (map (\<lambda>t. Unregister (topic_nodes t) cid) ts) (br_subs br))"
    by (rule subs.run_invar [OF ok(1)]) (simp add: topic_nodes_path)
  with unsubscribe_eq [OF ok(1), of cid ts] ok(2) show ?thesis by (simp add: broker_ok_def)
qed

lemma deliver_to_fields:
  "br_subs (snd (deliver_to t d items br)) = br_subs br \<and> br_tm (snd (deliver_to t d items br)) = br_tm br"
  by (induction t d items br rule: deliver_to.induct)
     (auto simp: queue_message_def split: option.split pyobj.split)

lemma deliver_messages_fields:
  "br_subs (snd (deliver_messages ms br)) = br_subs br \<and> br_tm (snd (deliver_messages ms br)) = br_tm br"
proof (induction ms br rule: deliver_messages.induct)
  case (2 c nodes d ms br)
  show ?case
  proof (cases "py_items c")
    case (Inr items)
    obtain x br' where d: "deliver_to (str_from_nodes nodes) d items br = (x, br')" by fastforce
    have f: "br_subs br' = br_subs br" "br_tm br' = br_tm br"
      using deliver_to_fields [of "str_from_nodes nodes" d items br] by (simp_all add: d)
    show ?thesis
    proof (cases x)
      case r: (Inr u)
      from "2.IH" [OF Inr d [symmetric] r] show ?thesis by (simp add: Inr d r f)
    qed (simp add: Inr d f)
  qed simp
qed simp

lemma main_loop_round_keeps: "broker_ok br \<Longrightarrow> main_loop_round br = Some br' \<Longrightarrow> broker_ok br'"
  by (auto simp: main_loop_round_def process_outgoing_rows_def broker_ok_def Let_def
      deliver_messages_fields split: list.splits sum.splits if_splits)

lemma remove_client_keeps: "broker_ok br \<Longrightarrow> broker_ok (remove_client c br)"
  by (auto simp: remove_client_def broker_ok_def split: option.split)

section \<open>The properties of the broker\<close>

definition demo_subs :: pyobj where
  "demo_subs = PyRdd [(''house'', PyRdd
     [(''+'', PyRdd [(''lamp'', PyRdd [(''/'', PyDict [(''c1'', PyInt 1)])])]),
      (''hall'', PyRdd [(''lamp'', PyRdd [(''/'', PyDict [(''c2'', PyInt 0)])])])])]"

definition demo_broker :: broker where
  "demo_broker = new_broker\<lparr>br_subs := demo_subs, br_clients := [''c1'' \<mapsto> 0, ''c2'' \<mapsto> 1]\<rparr>"

definition demo_rows :: "bytes \<Rightarrow> row list" where
  "demo_rows b = [([''house'', ''hall'', ''lamp''], Some b, 0)]"

lemma demo_ok [simp]: "subs_ok demo_subs" "subs_ok (br_subs demo_broker)" "broker_ok demo_broker"
  by (simp_all add: demo_broker_def new_broker_def broker_ok_def subs_ok_def demo_subs_def const_defs
      pruned.simps)

lemma demo_sub_list: "sub_list demo_subs =
  [([''house'', ''+'', ''lamp''], ''c1'', 1), ([''house'', ''hall'', ''lamp''], ''c2'', 0)]"
  by (simp add: sub_list_def demo_subs_def const_defs the_qos_def)

text \<open>
  C8: Delivery is exact. When the payloads of the broadcast rows decode, and no row has the
  tree's leaf key for a node (a JSON tree can bring one, see \<open>leaf_key_stops_delivery\<close>) or no node
  at all, no exception is raised and every client's queue grows by one message for each
  registration under its id whose filter matches some row, with the filter as topic and the
  registered quality of service, and by nothing else; the registrations are listed once each.
\<close>

theorem delivery_exact:
  assumes "subs_ok (br_subs br)" and "row_data_ok rows" and "\<forall>r\<in>set rows. fst r \<noteq> []"
  shows "process_outgoing_rows rows br = (Inr (), br\<lparr>br_queues := (\<lambda>r. br_queues br r @
      map (\<lambda>(p, cid, q). sub_message_of rows p q)
        (filter (\<lambda>(p, cid, q). rows_for p rows \<noteq> [] \<and> br_clients br cid = Some r)
          (sub_list (br_subs br))))\<rparr>)
    \<and> distinct (map (\<lambda>(p, cid, q). (p, cid)) (sub_list (br_subs br)))
    \<and> (\<forall>p cid q. (p, cid, q) \<in> set (sub_list (br_subs br)) \<longleftrightarrow>
         LEAF_KEY \<notin> set p \<and> registered (br_subs br) p cid = Some q)"
  using process_outgoing_rows_aux [OF assms] distinct_sub_list [OF assms(1)] sub_list_iff [OF assms(1)]
  by (simp add: queue_all_eq deliveries_sub_list)

lemma demo_rows_ok: "utf8_valid b \<Longrightarrow> row_data_ok (demo_rows b)"
  by (simp add: row_data_ok_def demo_rows_def const_defs)

lemma delivery_exact_witness:
  "br_queues (snd (process_outgoing_rows (demo_rows [49]) demo_broker)) 1 =
     [\<lparr>om_topic = ''house/hall/lamp'', om_qos = 0, om_data = PyBytes [49]\<rparr>]"
proof -
  let ?p1 = "[''house'', ''+'', ''lamp'']" and ?p2 = "[''house'', ''hall'', ''lamp'']"
  have r: "row_data_ok (demo_rows [49])" "\<forall>r\<in>set (demo_rows [49]). fst r \<noteq> []"
    by (rule demo_rows_ok) (simp_all add: demo_rows_def)
  have c: "br_subs demo_broker = demo_subs" "br_clients demo_broker = [''c1'' \<mapsto> 0, ''c2'' \<mapsto> 1]"
    "br_queues demo_broker = (\<lambda>_. [])"
    by (simp_all add: demo_broker_def new_broker_def)
  have m: "rows_for ?p2 (demo_rows [49]) = demo_rows [49]"
    by (simp add: rows_for_def demo_rows_def const_defs)
  have "sub_message_of (demo_rows [49]) ?p2 0 =
      \<lparr>om_topic = ''house/hall/lamp'', om_qos = 0, om_data = PyBytes [49]\<rparr>"
    unfolding sub_message_of_def reply_data_def m
    by (simp add: build_message_data_def demo_rows_def const_defs)
  with delivery_exact [OF demo_ok(2) r] m show ?thesis
    by (simp add: c demo_sub_list) (simp add: demo_rows_def)
qed

text \<open>
  A key of a published JSON tree may be the key the tree has its leaves under. Such a tree is
  grafted, but the delivery to a subscriber of the same topic ends in an exception, though every
  payload decodes.
\<close>

lemma leaf_key_stops_delivery:
  assumes "br_subs br =
    PyRdd [(''a'', PyRdd [(''+'', PyRdd [(''+'', PyRdd [(''+'', PyRdd [(''/'', PyDict [(''c'', PyInt 0)])])])])])]"
  shows "flatten_message_into_rows [''a'', ''+'', ''+'', ''+'']
      (PyDict [(''x'', PyDict [(''/'', PyDict [(''y'', PyStr ''v'')])])]) 0 [] (PyRdd []) PyNone =
        Inr [([''a'', ''x'', ''/'', ''y''], Some [118], 0)]"
    and "process_outgoing_rows [([''a'', ''x'', ''/'', ''y''], Some [118], 0)] br = (Inl TypeError, br)"
proof -
  show "flatten_message_into_rows [''a'', ''+'', ''+'', ''+'']
      (PyDict [(''x'', PyDict [(''/'', PyDict [(''y'', PyStr ''v'')])])]) 0 [] (PyRdd []) PyNone =
        Inr [([''a'', ''x'', ''/'', ''y''], Some [118], 0)]" by code_simp
  have "create_messages_for_subscriptions
      (PyRdd [(''a'', PyRdd [(''+'', PyRdd [(''+'', PyRdd [(''+'', PyRdd [(''/'', PyDict [(''c'', PyInt 0)])])])])])])
      [([''a'', ''x'', ''/'', ''y''], Some [118], 0)] = Inl TypeError" by code_simp
  then show "process_outgoing_rows [([''a'', ''x'', ''/'', ''y''], Some [118], 0)] br = (Inl TypeError, br)"
    by (simp add: process_outgoing_rows_def assms)
qed

text \<open>
  One payload that does not decode, published to a topic that some subscription with a
  wildcard matches, aborts the whole delivery: no queue changes, not even those of the
  clients that named the topic exactly.
\<close>

theorem binary_payload_lost:
  assumes "subs_ok (br_subs br)" and "LEAF_KEY \<notin> set topic" and "\<not> utf8_valid b"
    and "registered (br_subs br) path cid = Some q" and "LEAF_KEY \<notin> set path"
    and "topic_match path topic" and "MANY_CARD \<in> set path"
  shows "process_outgoing_rows [(topic, Some b, qos)] br = (Inl UnicodeDecodeError, br)"
proof -
  let ?rows = "[(topic, Some b, qos)]"
  have wf: "wf_rdd is_clients (br_subs br)" using assms(1) by (simp add: subs_ok_def)
  have enc: "\<exists>t'. set_path ks (PyBytes b) (PyRdd []) = Inr t' \<and> json_encode t' = Inl UnicodeDecodeError"
    if "ks \<noteq> []" "LEAF_KEY \<notin> set ks" for ks
    using that
  proof (induction ks)
    case (Cons k ks)
    then show ?case
      using assms(3) by (cases ks) (auto simp: rdd_getitem_def rdd_missing_def py_decode_def Let_def)
  qed simp
  have fail: "build_message_data (rows_for p ?rows) p True = Inl UnicodeDecodeError"
    if "topic_match p topic" "MANY_CARD \<in> set p" for p
  proof -
    have "length (wild_nodes p topic) \<noteq> 0"
      using that by (auto simp: length_wild_nodes filter_empty_conv intro!: bexI [of _ MANY_CARD])
    then have "wild_nodes p topic \<noteq> []" by simp
    moreover have "LEAF_KEY \<notin> set (wild_nodes p topic)" using set_wild_nodes [of p topic] assms(2) by blast
    ultimately obtain t' where "set_path (wild_nodes p topic) (PyBytes b) (PyRdd []) = Inr t'"
      "json_encode t' = Inl UnicodeDecodeError" using enc by blast
    then show ?thesis using that(1) by (simp add: build_message_data_def rows_for_def stringify_def)
  qed
  have sub: "message_for ?rows (p, c) = Inl UnicodeDecodeError \<or> (\<exists>ms. message_for ?rows (p, c) = Inr ms)"
    for p c
    using fail [of p] by (auto simp: message_for_def rows_for_def build_message_data_def Let_def)
  obtain c where c: "leaf_at (br_subs br) path = Some c"
    using assms(4) by (auto simp: registered_def split: option.splits)
  then have mem: "(path, c) \<in> set (sub_leaves (br_subs br))" using assms(5) by (simp add: sub_leaves_iff [OF wf])
  have msg: "message_for ?rows (path, c) = Inl UnicodeDecodeError"
    using fail [OF assms(6,7)] assms(6,7) by (simp add: message_for_def rows_for_def)
  have "concat_mapR (message_for ?rows) (sub_leaves (br_subs br)) = Inl UnicodeDecodeError"
  proof (cases "concat_mapR (message_for ?rows) (sub_leaves (br_subs br))")
    case (Inl e)
    then obtain x where "message_for ?rows x = Inl e" by (blast dest: concat_mapR_InlD)
    with sub [of "fst x" "snd x"] Inl show ?thesis by simp
  next
    case (Inr ms)
    from concat_mapR_InrD [OF this mem] msg show ?thesis by simp
  qed
  moreover have "create_messages_for_subscriptions (br_subs br) ?rows =
      concat_mapR (message_for ?rows) (sub_leaves (br_subs br))"
    using create_messages_spec [OF wf, of ?rows "[]" 0 False] assms(2)
    by (simp add: create_messages_for_subscriptions_def message_from_0)
  ultimately show ?thesis by (simp add: process_outgoing_rows_def)
qed

lemma binary_payload_lost_witness:
  "process_outgoing_rows [([''house'', ''hall'', ''lamp''], Some [255], 0)] demo_broker =
     (Inl UnicodeDecodeError, demo_broker)"
  by (rule binary_payload_lost [where path = "[''house'', ''+'', ''lamp'']" and cid = "''c1''" and q = 1])
     (simp_all add: const_defs registered_def demo_broker_def [THEN arg_cong [where f = br_subs]]
       demo_subs_def [THEN arg_cong [where f = "\<lambda>t. leaf_at t p" for p]] new_broker_def)

text \<open>
  Calls in the order the lock admits them, and the registry operations they stand for: a
  subscription that raised (its immediate answer did) registers nothing.
\<close>

datatype call = CallSubscribe string ref string int bool | CallUnsubscribe string "string list"

fun serve :: "(string \<Rightarrow> py_error + pyobj) \<Rightarrow> call list \<Rightarrow> broker
    \<Rightarrow> (string list, string, int) reg_op list \<times> broker" where
  "serve table_query [] br = ([], br)"
| "serve table_query (CallSubscribe cid r t q tree # calls) br =
     (let (x, br1) = subscribe table_query cid r t q tree br;
          (ops, br2) = serve table_query calls br1
      in ((case x of Inl e \<Rightarrow> [] | Inr _ \<Rightarrow> [Register (topic_nodes t) cid q]) @ ops, br2))"
| "serve table_query (CallUnsubscribe cid ts # calls) br =
     (let (x, br1) = unsubscribe cid ts br; (ops, br2) = serve table_query calls br1
      in (map (\<lambda>t. Unregister (topic_nodes t) cid) ts @ ops, br2))"

lemma run_append: "subs.run (ops @ ops') s = subs.run ops' (subs.run ops s)"
  by (induction ops s rule: subs.run.induct) auto

lemma subscribe_eq:
  assumes "subs_ok (br_subs br)"
  shows "br_subs (snd (subscribe tq cid r t q tree br)) =
    (case fst (subscribe tq cid r t q tree br) of Inl e \<Rightarrow> br_subs br
     | Inr _ \<Rightarrow> subs.run [Register (topic_nodes t) cid q] (br_subs br))"
  using subscribe_tree_spec [OF assms topic_nodes_path [of t], of cid q]
  by (auto simp: subscribe_def queue_message_def Let_def split_beta split: sum.split option.split)

lemma serve_eq:
  "subs_ok (br_subs br) \<Longrightarrow>
   br_subs (snd (serve tq calls br)) = subs.run (fst (serve tq calls br)) (br_subs br)
   \<and> (\<forall>x\<in>set (fst (serve tq calls br)). rdd_path (op_path x))"
proof (induction tq calls br rule: serve.induct)
  case (2 tq cid r t q tree calls br)
  obtain x br1 where s: "subscribe tq cid r t q tree br = (x, br1)" by fastforce
  obtain ops br2 where r: "serve tq calls br1 = (ops, br2)" by fastforce
  have b: "br_subs br1 = (case x of Inl e \<Rightarrow> br_subs br
      | Inr _ \<Rightarrow> subs.run [Register (topic_nodes t) cid q] (br_subs br))"
    using subscribe_eq [OF "2.prems", of tq cid r t q tree] by (simp add: s)
  have "subs_ok (br_subs br1)"
    using "2.prems" subs.invar_register topic_nodes_path [of t] by (simp add: b split: sum.split)
  from "2.IH" [OF s [symmetric] refl this] show ?case
    by (auto simp: s r b topic_nodes_path split: sum.split)
next
  case (3 tq cid ts calls br)
  obtain x br1 where s: "unsubscribe cid ts br = (x, br1)" by fastforce
  obtain ops br2 where r: "serve tq calls br1 = (ops, br2)" by fastforce
  let ?u = "map (\<lambda>t. Unregister (topic_nodes t) cid) ts"
  have b: "br_subs br1 = subs.run ?u (br_subs br)"
    using unsubscribe_eq [OF "3.prems", of cid ts] by (simp add: s)
  have "subs_ok (br_subs br1)"
    unfolding b by (rule subs.run_invar [OF "3.prems"]) (simp add: topic_nodes_path)
  from "3.IH" [OF s [symmetric] refl this] show ?case
    by (auto simp: s r b run_append topic_nodes_path)
qed simp

text \<open>
  C11: The subscription tree implements a table. After any sequence of subscribe and
  unsubscribe calls the registrations are those the sequence of successful calls leaves in a
  map from paths and client ids to qualities of service, and the tree is again well-formed
  and without an empty branch.
\<close>

theorem serve_refines_registry:
  assumes "subs_ok (br_subs br)" and "LEAF_KEY \<notin> set p" and "p \<noteq> []"
  shows "registered (br_subs (snd (serve tq calls br))) p cid =
      reg_spec (fst (serve tq calls br)) (registered (br_subs br)) p cid
    \<and> subs_ok (br_subs (snd (serve tq calls br)))"
  using serve_eq [OF assms(1), of tq calls] subs.run_registered [OF assms(1), of _ p cid]
    subs.run_invar [OF assms(1)] assms(2,3) by (simp add: rdd_path_def)

definition no_tables :: "string \<Rightarrow> py_error + pyobj" where
  "no_tables topic = Inl UnknownOperation"

lemma serve_refines_registry_witness:
  "registered (br_subs (snd (serve no_tables
      [CallSubscribe ''c1'' 0 ''a/+'' 1 False, CallSubscribe ''c2'' 1 ''a/+'' 2 False,
       CallUnsubscribe ''c1'' [''a/+'']] new_broker))) [''a'', ''+''] ''c2'' = Some 2"
proof -
  let ?calls = "[CallSubscribe ''c1'' 0 ''a/+'' 1 False, CallSubscribe ''c2'' 1 ''a/+'' 2 False,
       CallUnsubscribe ''c1'' [''a/+'']]"
  have ok: "subs_ok (br_subs new_broker)" by (simp add: new_broker_def subs_ok_def)
  have t: "topic_nodes ''a/+'' = [''a'', ''+'']" by (simp add: topic_nodes_def const_defs)
  have s: "fst (subscribe no_tables cid r ''a/+'' q False br) = Inr True" if "subs_ok (br_subs br)" for cid r q br
    using subscribe_tree_spec [OF that topic_nodes_path [of "''a/+''"], of cid q]
    by (simp add: subscribe_def for_table_topic_of const_defs Let_def split_beta t)
  have "subs_ok (br_subs (snd (subscribe no_tables ''c1'' 0 ''a/+'' 1 False new_broker)))"
    using subscribe_keeps [OF new_broker_ok] by (simp add: broker_ok_def)
  then have "fst (serve no_tables ?calls new_broker) =
      [Register [''a'', ''+''] ''c1'' 1, Register [''a'', ''+''] ''c2'' 2, Unregister [''a'', ''+''] ''c1'']"
    using s [OF ok] s by (simp add: split_beta Let_def t)
  with serve_refines_registry [OF ok, of "[''a'', ''+'']" no_tables ?calls "''c2''"] show ?thesis
    by (simp add: const_defs)
qed

text \<open>
  A call of \<open>subscribe\<close> answers or raises as the retained tree does: when building the
  immediate answer raises, nothing changes; otherwise the answer, with the topic as it was
  given, is queued for the calling client before the registration, and no other queue grows.
\<close>

theorem subscribe_answers:
  assumes "broker_ok br"
  shows "case tm_get_message (topic_of t) q (tm_tree (br_tm br)) of
      Inl e \<Rightarrow> subscribe tq cid r t q True br = (Inl e, br)
    | Inr m \<Rightarrow> om_topic m = t \<and> om_qos m = q \<and>
        (\<exists>subs'. subscribe tq cid r t q True br =
           (Inr True, br\<lparr>br_queues := (br_queues br)(r := br_queues br r @ [m]), br_subs := subs'\<rparr>)
         \<and> subs_ok subs'
         \<and> (\<forall>p i. LEAF_KEY \<notin> set p \<longrightarrow> registered subs' p i =
              (if p = topic_nodes t \<and> i = cid then Some q else registered (br_subs br) p i)))"
proof (cases "tm_get_message (topic_of t) q (tm_tree (br_tm br))")
  case (Inr m)
  have m: "om_topic m = t \<and> om_qos m = q"
    using Inr by (auto simp: tm_get_message_def from_tree_item_def res_simps)
  have "subs_ok (br_subs br)" using assms by (simp add: broker_ok_def)
  from subscribe_tree_spec [OF this topic_nodes_path [of t], of cid q] Inr m show ?thesis
    by (simp add: subscribe_def Let_def split_beta queue_message_def)
       (rule exI [of _ "snd (subscribe_tree (topic_nodes t) cid q (br_subs br))"], auto)
qed (simp add: subscribe_def)

lemma subscribe_answers_witness:
  "fst (subscribe no_tables ''c1'' 0 ''#/a'' 1 True demo_broker) = Inl InvalidEverythingCard
   \<and> fst (subscribe no_tables ''c1'' 0 ''a'' 1 True demo_broker) = Inr True"
proof -
  have tr: "tm_tree (br_tm demo_broker) = PyRdd []" by (simp add: demo_broker_def new_broker_def)
  have n: "topic_nodes ''#/a'' = [EVERYTHING_CARD, ''a'']" "topic_nodes ''a'' = [''a'']"
    by (simp_all add: topic_nodes_def const_defs)
  have "tm_get_message (topic_of ''#/a'') 1 (tm_tree (br_tm demo_broker)) = Inl InvalidEverythingCard"
    by (simp add: tr tm_get_message_def tm_filter_def n filter_tree_with_topic.simps)
  moreover have "\<exists>m. tm_get_message (topic_of ''a'') 1 (tm_tree (br_tm demo_broker)) = Inr m"
    by (simp add: tr tm_get_message_def tm_filter_def n filter_tree_with_topic.simps from_tree_item_def
        const_defs)
  ultimately show ?thesis
    using subscribe_answers [OF demo_ok(3), where t = "''#/a''" and q = 1 and tq = no_tables and cid = "''c1''" and r = 0]
      subscribe_answers [OF demo_ok(3), where t = "''a''" and q = 1 and tq = no_tables and cid = "''c1''" and r = 0] by auto
qed

text \<open>
  Unsubscribing always succeeds and removes exactly this registration, but the warning
  that the subscription was not found is also given for one that was found, when its quality
  of service is 0.
\<close>

theorem unsubscribe_warns:
  assumes "subs_ok (br_subs br)"
  shows "fst (unsubscribe cid [t] br) = Inr True
    \<and> (\<forall>p i. LEAF_KEY \<notin> set p \<longrightarrow> registered (br_subs (snd (unsubscribe cid [t] br))) p i =
         (if p = topic_nodes t \<and> i = cid then None else registered (br_subs br) p i))
    \<and> br_warnings (snd (unsubscribe cid [t] br)) = br_warnings br @
        (if registered (br_subs br) (topic_nodes t) cid \<in> {None, Some 0}
         then [''Subscription '' @ t @ '' not found for '' @ client_str cid] else [])"
proof -
  let ?old = "leaf_or (PyDict []) (br_subs br) (topic_nodes t)"
  have wf: "wf_rdd is_clients (br_subs br)" using assms by (simp add: subs_ok_def)
  have path: "LEAF_KEY \<notin> set (topic_nodes t)" using topic_nodes_path [of t] by (simp add: rdd_path_def)
  have "fst (rdd_lshift (PyDict []) (topic_nodes t) (pop_client cid) (br_subs br)) =
      Inr (registered (br_subs br) (topic_nodes t) cid \<notin> {None, Some 0}, py_truthy (snd (pop_client cid ?old)))"
    using rdd_lshift_spec [where f = "pop_client cid", OF wf topic_nodes_path [of t] _ pop_client_ok(2)]
      pop_client_ok(1) [OF leaf_or_clients [OF wf path], of cid]
    by (simp add: registered_leaf_or)
  then have "br_warnings (snd (unsubscribe_topic cid t br)) = br_warnings br @
        (if registered (br_subs br) (topic_nodes t) cid \<in> {None, Some 0}
         then [''Subscription '' @ t @ '' not found for '' @ client_str cid] else [])"
    by (auto simp: unsubscribe_topic_def Let_def split_beta broker_warn_def)
  moreover obtain br' where u: "unsubscribe_topic cid t br = (Inr (), br')"
    "br_subs br' = snd (unsubscribe_tree (topic_nodes t) cid (br_subs br))"
    using unsubscribe_topic_tree(1,2) [of cid t br] unsubscribe_tree_spec [OF assms topic_nodes_path [of t], of cid]
    by (cases "unsubscribe_topic cid t br") auto
  ultimately show ?thesis
    using unsubscribe_tree_spec [OF assms topic_nodes_path [of t], of cid] by (simp add: u)
qed

lemma unsubscribe_warns_witness:
  "br_warnings (snd (unsubscribe ''c2'' [''house/hall/lamp''] demo_broker)) =
     [''Subscription house/hall/lamp not found for Client c2'']
   \<and> registered demo_subs [''house'', ''hall'', ''lamp''] ''c2'' = Some 0"
proof -
  have n: "topic_nodes ''house/hall/lamp'' = [''house'', ''hall'', ''lamp'']"
    by (simp add: topic_nodes_def const_defs)
  have r: "registered demo_subs [''house'', ''hall'', ''lamp''] ''c2'' = Some 0"
    by (simp add: registered_def demo_subs_def const_defs)
  have d: "br_subs demo_broker = demo_subs" "br_warnings demo_broker = []"
    by (simp_all add: demo_broker_def new_broker_def)
  from unsubscribe_warns [OF demo_ok(2), of "''c2''" "''house/hall/lamp''"] show ?thesis
    by (simp add: n r d client_str_def)
qed

lemma round_delivers:
  assumes "subs_ok (br_subs br)" and "br_broadcast br = [rows]" and "rows \<noteq> []"
    and "row_data_ok rows" and "\<forall>r\<in>set rows. fst r \<noteq> []"
  shows "main_loop_round br = Some (br\<lparr>br_broadcast := [],
      br_queues := (\<lambda>r. br_queues br r @ map (\<lambda>(p, cid, q). sub_message_of rows p q)
        (filter (\<lambda>(p, cid, q). rows_for p rows \<noteq> [] \<and> br_clients br cid = Some r)
          (sub_list (br_subs br))))\<rparr>)"
proof -
  let ?br = "br\<lparr>br_broadcast := []\<rparr>"
  have "process_outgoing_rows rows ?br = (Inr (), queue_all (deliveries ?br rows) ?br)"
    by (rule process_outgoing_rows_aux) (use assms in auto)
  then show ?thesis
    using assms(2,3) by (simp add: main_loop_round_def queue_all_eq deliveries_sub_list)
qed

lemma topic_match_literal: "MANY_CARD \<notin> set p \<Longrightarrow> topic_match p t \<Longrightarrow> p = t"
  by (induction p arbitrary: t) (auto simp: topic_match_Cons)

lemma msg_table_topic_of:
  "im_topic m = topic_of s \<Longrightarrow> s \<noteq> [] \<Longrightarrow> hd s \<notin> {TABLE_FLAG, TOPIC_SEP} \<Longrightarrow> msg_table m = Inr False"
  by (simp add: msg_table_def for_table_topic_of)

text \<open>The messages a batch of rows puts into the queue of a connection, and a plain publish.\<close>

definition messages_for :: "row list \<Rightarrow> broker \<Rightarrow> ref \<Rightarrow> outgoing_message list" where
  "messages_for rows br r = map (\<lambda>(p, cid, q). sub_message_of rows p q)
     (filter (\<lambda>(p, cid, q). rows_for p rows \<noteq> [] \<and> br_clients br cid = Some r) (sub_list (br_subs br)))"

lemma plain_publish_round:
  assumes "broker_ok br" and "br_broadcast br = []" and "from_raw_data raw data qos False = Inr m"
    and "raw \<noteq> []" and "hd raw \<notin> {TABLE_FLAG, TOPIC_SEP}"
    and "list_all is_node_static (topic_nodes raw)" and "\<And>b. data = Some b \<Longrightarrow> utf8_valid b"
  defines "rows \<equiv> [(topic_nodes raw, data, qos)]"
  shows "publish loads m br = (Inr (), br\<lparr>br_broadcast := [rows]\<rparr>)"
    and "main_loop_round (br\<lparr>br_broadcast := [rows]\<rparr>) =
      Some (br\<lparr>br_queues := (\<lambda>r. br_queues br r @ messages_for rows br r)\<rparr>)"
proof -
  have m: "im_topic m = topic_of raw" "\<not> im_retain m" "im_data m = data" "im_qos m = qos"
    using assms(3) by (auto simp: from_raw_data_def)
  have "as_single_row m = Inr (topic_nodes raw, data, qos)"
    using assms(6) by (auto simp: as_single_row_def m list_ex_iff list_all_iff)
  then show "publish loads m br = (Inr (), br\<lparr>br_broadcast := [rows]\<rparr>)"
    using msg_table_topic_of [OF m(1) assms(4,5)] m(2) assms(2) by (simp add: publish_def rows_def Let_def)
  have ok: "row_data_ok rows" "\<forall>r\<in>set rows. fst r \<noteq> []" "rows \<noteq> []"
    using topic_nodes_path [of raw] assms(7) by (auto simp: rows_def row_data_ok_def rdd_path_def)
  have "subs_ok (br_subs (br\<lparr>br_broadcast := [rows]\<rparr>))" using assms(1) by (simp add: broker_ok_def)
  from round_delivers [OF this _ ok(3,1,2)] assms(2)
  show "main_loop_round (br\<lparr>br_broadcast := [rows]\<rparr>) =
      Some (br\<lparr>br_queues := (\<lambda>r. br_queues br r @ messages_for rows br r)\<rparr>)"
    by (cases br) (simp add: messages_for_def)
qed

text \<open>
  From publisher to subscriber. A plain publish to a topic without wildcards, outside the
  tables, and one round of the main loop put one message into the queue of every connected
  client for each of its registrations that matches the topic; a registration without a
  wildcard gets the topic and the payload as they were published. The retained tree does not
  change.
\<close>

theorem publish_reaches_subscribers:
  assumes "broker_ok br" and "br_broadcast br = []" and "from_raw_data raw data qos False = Inr m"
    and "raw \<noteq> []" and "hd raw \<notin> {TABLE_FLAG, TOPIC_SEP}"
    and "list_all is_node_static (topic_nodes raw)" and "\<And>b. data = Some b \<Longrightarrow> utf8_valid b"
  defines "rows \<equiv> [(topic_nodes raw, data, qos)]"
  shows "\<exists>br1 br2. publish loads m br = (Inr (), br1) \<and> main_loop_round br1 = Some br2
    \<and> br_tm br2 = br_tm br \<and> br_broadcast br2 = []
    \<and> (\<forall>r. br_queues br2 r = br_queues br r @ map (\<lambda>(p, cid, q). sub_message_of rows p q)
        (filter (\<lambda>(p, cid, q). topic_match p (topic_nodes raw) \<and> br_clients br cid = Some r)
          (sub_list (br_subs br))))
    \<and> (\<forall>p q. MANY_CARD \<notin> set p \<and> topic_match p (topic_nodes raw) \<longrightarrow>
         sub_message_of rows p q = \<lparr>om_topic = raw, om_qos = q, om_data = obj_of_data data\<rparr>)"
proof -
  have match: "rows_for p rows \<noteq> [] \<longleftrightarrow> topic_match p (topic_nodes raw)" for p
    by (simp add: rows_for_def rows_def)
  have lit: "sub_message_of rows p q = \<lparr>om_topic = raw, om_qos = q, om_data = obj_of_data data\<rparr>"
    if p: "MANY_CARD \<notin> set p" "topic_match p (topic_nodes raw)" for p q
  proof -
    have "p = topic_nodes raw" using topic_match_literal [OF p] .
    moreover have "reply_data p rows = data"
      using p by (simp add: reply_data_def rows_for_def rows_def build_message_data_def)
    ultimately show ?thesis by (simp add: sub_message_of_def)
  qed
  show ?thesis
    using plain_publish_round(1) [OF assms(1-7), of loads] plain_publish_round(2) [OF assms(1-7)] assms(2) lit
    by (auto simp: rows_def [symmetric] messages_for_def match)
qed

lemma publish_reaches_subscribers_witness:
  "\<exists>br1 br2. publish no_json \<lparr>im_topic = topic_of ''house/hall/lamp'', im_qos = 0,
       im_retain = False, im_graft = False, im_data = Some [49]\<rparr> demo_broker = (Inr (), br1)
    \<and> main_loop_round br1 = Some br2
    \<and> br_queues br2 1 = [\<lparr>om_topic = ''house/hall/lamp'', om_qos = 0, om_data = PyBytes [49]\<rparr>]"
proof -
  let ?raw = "''house/hall/lamp''"
  let ?m = "\<lparr>im_topic = topic_of ?raw, im_qos = 0, im_retain = False, im_graft = False, im_data = Some [49]\<rparr>"
  have n: "topic_nodes ?raw = [''house'', ''hall'', ''lamp'']" by (simp add: topic_nodes_def const_defs)
  have d: "br_subs demo_broker = demo_subs" "br_queues demo_broker = (\<lambda>_. [])" "br_broadcast demo_broker = []"
    "br_clients demo_broker = [''c1'' \<mapsto> 0, ''c2'' \<mapsto> 1]"
    by (simp_all add: demo_broker_def new_broker_def)
  have s: "hd ?raw \<notin> {TABLE_FLAG, TOPIC_SEP}" "list_all is_node_static (topic_nodes ?raw)" "?raw \<noteq> []"
    "MANY_CARD \<notin> set (topic_nodes ?raw)" "topic_match (topic_nodes ?raw) (topic_nodes ?raw)"
    by (simp_all add: n const_defs is_node_static_def)
  have "from_raw_data ?raw (Some [49]) 0 False = Inr ?m" by (simp add: from_raw_data_def)
  note p = publish_reaches_subscribers [OF demo_ok(3) d(3) this s(3,1,2), of no_json]
  then obtain br1 br2 where "publish no_json ?m demo_broker = (Inr (), br1)" "main_loop_round br1 = Some br2"
    "br_queues br2 1 = map (\<lambda>(p, cid, q). sub_message_of [(topic_nodes ?raw, Some [49], 0)] p q)
        (filter (\<lambda>(p, cid, q). topic_match p (topic_nodes ?raw) \<and> br_clients demo_broker cid = Some 1)
          (sub_list demo_subs))"
    "sub_message_of [(topic_nodes ?raw, Some [49], 0)] (topic_nodes ?raw) 0 =
        \<lparr>om_topic = ?raw, om_qos = 0, om_data = PyBytes [49]\<rparr>"
    using s(4,5) by (simp add: d) blast
  then show ?thesis by (intro exI [of _ br1] exI [of _ br2]) (simp add: d demo_sub_list n)
qed




text \<open>
  A publish to the empty topic or to one that starts with the separator always raises, in
  the test for the table flag, and changes nothing: it is neither retained nor broadcast.
\<close>

theorem publish_needs_first_node:
  assumes "from_raw_data raw data qos retain = Inr m"
    and "full_str (im_topic m) = [] \<or> hd (full_str (im_topic m)) = TOPIC_SEP"
  shows "publish loads m br = (Inl IndexError, br)"
proof -
  have "im_topic m = topic_of (full_str (im_topic m))"
    using assms(1) by (auto simp: from_raw_data_def split: if_splits)
  then have "msg_table m = Inl IndexError"
    using assms(2) for_table_topic_of [of "full_str (im_topic m)"] by (simp add: msg_table_def)
  then show ?thesis by (simp add: publish_def)
qed

lemma publish_needs_first_node_witness:
  "publish no_json \<lparr>im_topic = topic_of ''/a'', im_qos = 0, im_retain = False, im_graft = False,
     im_data = None\<rparr> demo_broker = (Inl IndexError, demo_broker)"
  by (rule publish_needs_first_node [where raw = "''/a''" and data = None and qos = 0 and retain = False])
     (simp_all add: from_raw_data_def const_defs)

end
