(* ===== verification/Streams.thy ===== *)
theory Streams
  imports Py_Values
begin

unbundle bit_operations_syntax

text \<open>
  servers/streams.py: the reader a connection offers to the packet classes, on the bytes that
  the peer has sent. The abstract method \<open>read(n)\<close> answers the next \<open>n\<close> bytes; when the
  connection ends before, it raises. Then the remaining length of a packet's header, which
  packet/base_packet.py writes.
\<close>

section \<open>Reading\<close>

type_synonym 'a parser = "bytes \<Rightarrow> py_error + 'a \<times> bytes"

definition returnP :: "'a \<Rightarrow> 'a parser" where
  "returnP x s = Inr (x, s)"

definition failP :: "py_error \<Rightarrow> 'a parser" where
  "failP e s = Inl e"

definition bindP :: "'a parser \<Rightarrow> ('a \<Rightarrow> 'b parser) \<Rightarrow> 'b parser" where
  "bindP p f s = bindR (p s) (\<lambda>(x, s'). f x s')"

definition liftP :: "py_error + 'a \<Rightarrow> 'a parser" where
  "liftP r s = bindR r (\<lambda>x. Inr (x, s))"

definition read_bytes :: "nat \<Rightarrow> bytes parser" where
  "read_bytes n s = (if n \<le> length s then Inr (take n s, drop n s) else Inl ConnectionClosed)"

text \<open>\<open>int.from_bytes(data, "big")\<close>, and \<open>unpack\<close> of one or two bytes.\<close>

definition from_big_endian :: "bytes \<Rightarrow> nat" where
  "from_big_endian bs = foldl (\<lambda>n b. n * 256 + unat b) 0 bs"

definition unpack_B :: "bytes \<Rightarrow> py_error + nat" where
  "unpack_B bs = (if length bs = 1 then Inr (from_big_endian bs) else Inl StructError)"

definition unpack_H :: "bytes \<Rightarrow> py_error + nat" where
  "unpack_H bs = (if length bs = 2 then Inr (from_big_endian bs) else Inl StructError)"

definition read_int :: "nat \<Rightarrow> nat parser" where
  "read_int n = bindP (read_bytes n) (\<lambda>data. returnP (from_big_endian data))"

text \<open>\<open>str(byte_str)\<close>, the text of a bytes literal.\<close>

definition hex_char :: "nat \<Rightarrow> char" where
  "hex_char d = (if d < 10 then char_of (48 + d) else char_of (87 + d))"

definition repr_byte :: "char \<Rightarrow> byte \<Rightarrow> string" where
  "repr_byte quote b =
     (let c = byte_char b in
      if c = quote \<or> c = CHR 0x5C then [CHR 0x5C, c]
      else if b = 9 then [CHR 0x5C, CHR ''t'']
      else if b = 10 then [CHR 0x5C, CHR ''n'']
      else if b = 13 then [CHR 0x5C, CHR ''r'']
      else if b < 32 \<or> 127 \<le> b then
        [CHR 0x5C, CHR ''x'', hex_char (unat b div 16), hex_char (unat b mod 16)]
      else [c])"

definition bytes_repr :: "bytes \<Rightarrow> string" where
  "bytes_repr bs =
     (let quote = (if 39 \<in> set bs \<and> 34 \<notin> set bs then CHR 0x22 else CHR 0x27)
      in CHR ''b'' # quote # concat (map (repr_byte quote) bs) @ [quote])"

definition decode_str :: "(string \<times> nat) parser" where
  "decode_str =
     bindP (read_bytes 2) (\<lambda>length_bytes. bindP (liftP (unpack_H length_bytes)) (\<lambda>len.
       if len \<noteq> 0 then
         bindP (read_bytes len) (\<lambda>byte_str.
           returnP (case py_decode byte_str of Inr s \<Rightarrow> (s, len + 2)
                    | Inl _ \<Rightarrow> (bytes_repr byte_str, len + 2)))
       else returnP ([], 2)))"

definition decode_bytes :: "(bytes \<times> nat) parser" where
  "decode_bytes =
     bindP (read_bytes 2) (\<lambda>length_bytes. bindP (liftP (unpack_H length_bytes)) (\<lambda>len.
       bindP (read_bytes len) (\<lambda>data. returnP (data, 2 + len))))"

text \<open>The loop of \<open>decode_packet_length\<close>; every round reads one byte.\<close>

fun decode_length_loop :: "nat \<Rightarrow> nat \<Rightarrow> nat parser" where
  "decode_length_loop multiplier value [] = Inl ConnectionClosed"
| "decode_length_loop multiplier value (encoded_byte # s) =
     (let value' = value + unat (encoded_byte AND 0x7F) * multiplier in
      if encoded_byte AND 0x80 = 0 then Inr (value', s)
      else if multiplier * 128 > 128 * 128 * 128 then Inl OSError
      else decode_length_loop (multiplier * 128) value' s)"

definition decode_packet_length :: "nat parser" where
  "decode_packet_length = decode_length_loop 1 0"

definition decode_header :: "(nat \<times> nat) parser" where
  "decode_header =
     bindP (read_bytes 1) (\<lambda>byte1. bindP (liftP (unpack_B byte1)) (\<lambda>int1.
       let w = word_of_nat int1 :: byte
       in returnP (unat (drop_bit 4 (w AND 0xF0)), unat (w AND 0x0F))))"

text \<open>The loop of \<open>get_header_bytes\<close> that writes the remaining length.\<close>

function length_bytes :: "nat \<Rightarrow> bytes" where
  "length_bytes len =
     (let length_byte = word_of_nat (len mod 0x80); len' = len div 0x80 in
      if len' > 0 then (length_byte OR 0x80) # length_bytes len' else [length_byte])"
  by pat_completeness auto
termination
  by (relation "measure id") auto

declare length_bytes.simps [simp del]

section \<open>Facts about the combinators\<close>

lemma bindP_returnP [simp]: "bindP (returnP x) f = f x"
  by (simp add: bindP_def returnP_def fun_eq_iff)

lemma bindP_Inr [simp]: "p s = Inr (x, s') \<Longrightarrow> bindP p f s = f x s'"
  by (simp add: bindP_def)

lemma returnP_app [simp]: "returnP x s = Inr (x, s)"
  by (simp add: returnP_def)

lemma liftP_Inr [simp]: "liftP (Inr x) = returnP x" and liftP_Inl [simp]: "liftP (Inl e) = failP e"
  by (simp_all add: liftP_def returnP_def failP_def fun_eq_iff)

lemma failP_app [simp]: "failP e s = Inl e"
  by (simp add: failP_def)

lemma read_bytes_append [simp]: "n = length bs \<Longrightarrow> read_bytes n (bs @ s) = Inr (bs, s)"
  by (simp add: read_bytes_def)

lemma from_big_endian_simps [simp]:
  "from_big_endian [] = 0" "from_big_endian [a] = unat a"
  "from_big_endian [a, b] = unat a * 256 + unat b"
  by (simp_all add: from_big_endian_def)

section \<open>The remaining length\<close>

lemma and_127: "m < 128 \<Longrightarrow> m AND 127 = (m :: nat)"
  using take_bit_eq_mask [of 7 m] by (simp add: mask_eq_exp_minus_1 take_bit_nat_eq_self)

lemma low_bits:
  "m < 128 \<Longrightarrow> unat ((word_of_nat m :: byte) AND 0x7F) = m"
  "m < 128 \<Longrightarrow> (word_of_nat m :: byte) AND 0x80 = 0"
  "m < 128 \<Longrightarrow> unat (((word_of_nat m :: byte) OR 0x80) AND 0x7F) = m"
  "((word_of_nat m :: byte) OR 0x80) AND 0x80 \<noteq> 0"
proof -
  show "((word_of_nat m :: byte) OR 0x80) AND 0x80 \<noteq> 0"
    by (simp add: bit.conj_disj_distrib2)
  assume m: "m < 128"
  let ?w = "word_of_nat m :: byte"
  have u: "unat ?w = m" using m by (simp add: unat_of_nat)
  show low: "unat (?w AND 0x7F) = m" by (simp add: unsigned_and_eq u and_127 m)
  have a: "?w AND 0x7F = ?w" using low u by (simp only: word_unat_eq_iff)
  have "?w AND 0x80 = (?w AND 0x7F) AND 0x80" by (simp only: a)
  also have "\<dots> = ?w AND (0x7F AND 0x80)" by (simp only: and.assoc)
  finally show "?w AND 0x80 = 0" by simp
  have "(?w OR 0x80) AND 0x7F = (?w AND 0x7F) OR (0x80 AND 0x7F)"
    by (simp only: bit.conj_disj_distrib2)
  then have "(?w OR 0x80) AND 0x7F = ?w" by (simp add: a)
  with u show "unat ((?w OR 0x80) AND 0x7F) = m" by simp
qed

lemma decode_loop_small:
  assumes "m * 128 ^ Suc k = 128 ^ 4" and "n < 128 ^ Suc k"
  shows "decode_length_loop m v (length_bytes n @ rest) = Inr (v + n * m, rest)"
  using assms
proof (induction k arbitrary: m n v)
  case 0
  then show ?case by (subst length_bytes.simps) (simp add: low_bits)
next
  case (Suc k)
  show ?case
  proof (cases "n < 128")
    case True
    then show ?thesis by (subst length_bytes.simps) (simp add: low_bits)
  next
    case False
    have m: "(m * 128) * 128 ^ Suc k = 128 ^ 4" using Suc.prems(1) by (simp add: algebra_simps)
    have n: "n div 128 < 128 ^ Suc k" using Suc.prems(2) by (simp add: div_less_iff_less_mult algebra_simps)
    have "m * 128 \<le> 128 * 128 * 128"
    proof -
      have "m * 128 * 128 \<le> m * 128 * 128 ^ Suc k" by (rule mult_le_mono2) simp
      with m show ?thesis by simp
    qed
    moreover have "v + n mod 128 * m + n div 128 * (m * 128) = v + n * m"
    proof -
      have "n mod 128 * m + n div 128 * (m * 128) = (n div 128 * 128 + n mod 128) * m"
        by (simp only: add_mult_distrib mult.assoc mult.commute [of m] add.commute)
      then show ?thesis by (simp only: add.assoc div_mult_mod_eq)
    qed
    ultimately show ?thesis
      using False Suc.IH [OF m n, of "v + n mod 128 * m"]
      by (subst length_bytes.simps) (simp add: low_bits Let_def div_eq_0_iff)
  qed
qed

lemma decode_loop_large:
  assumes "m * 128 ^ Suc k = 128 ^ 4" and "128 ^ Suc k \<le> n"
  shows "decode_length_loop m v (length_bytes n @ rest) = Inl OSError"
  using assms
proof (induction k arbitrary: m n v)
  case 0
  then show ?case by (subst length_bytes.simps) (simp add: low_bits Let_def)
next
  case (Suc k)
  have m: "(m * 128) * 128 ^ Suc k = 128 ^ 4" using Suc.prems(1) by (simp add: algebra_simps)
  have n: "128 ^ Suc k \<le> n div 128"
    using Suc.prems(2) div_le_mono [OF Suc.prems(2), of 128] by simp
  then have "\<not> n < 128" using less_le_trans [of 0 "128 ^ Suc k" "n div 128"] by auto
  then show ?case
    using Suc.IH [OF m n, of "v + n mod 128 * m"]
    by (subst length_bytes.simps) (simp add: low_bits Let_def)
qed

lemma decode_packet_length_bytes:
  "decode_packet_length (length_bytes n @ rest) = (if n < 128 ^ 4 then Inr (n, rest) else Inl OSError)"
  using decode_loop_small [of 1 3 n 0 rest] decode_loop_large [of 1 3 n 0 rest]
  by (simp add: decode_packet_length_def)

lemma decode_loop_bounds:
  assumes "m * 128 ^ Suc k = 128 ^ 4" and "v < m" and "decode_length_loop m v s = Inr (n, s')"
  shows "n < 128 ^ 4 \<and> (\<exists>bs. s = bs @ s' \<and> bs \<noteq> [] \<and> length bs \<le> Suc k)"
  using assms
proof (induction k arbitrary: m v s)
  case 0
  then obtain b r where s: "s = b # r" by (cases s) auto
  have "unat (b AND 0x7F) \<le> 127" using word_and_le1 [of b "0x7F"] by (simp add: word_le_nat_alt)
  moreover have "v + unat (b AND 0x7F) * m < 128 ^ 4" if "unat (b AND 0x7F) \<le> 127"
  proof -
    have "unat (b AND 0x7F) * m \<le> 127 * m" using that by simp
    with 0(1,2) show ?thesis by simp
  qed
  ultimately show ?case using 0 by (auto simp: s Let_def split: if_splits)
next
  case (Suc k)
  then obtain b r where s: "s = b # r" by (cases s) auto
  have m: "(m * 128) * 128 ^ Suc k = 128 ^ 4" using Suc.prems(1) by (simp add: algebra_simps)
  have d: "unat (b AND 0x7F) \<le> 127" using word_and_le1 [of b "0x7F"] by (simp add: word_le_nat_alt)
  have "unat (b AND 0x7F) * m \<le> 127 * m" by (rule mult_le_mono1 [OF d])
  with Suc.prems(2) have v': "v + unat (b AND 0x7F) * m < m * 128" by linarith
  show ?case
  proof (cases "b AND 0x80 = 0")
    case True
    have "m * 128 \<le> 128 ^ 4" unfolding m [symmetric] by (simp add: m)
    with v' True Suc.prems(3) show ?thesis by (auto simp: s Let_def)
  next
    case False
    with Suc.prems(3) have "decode_length_loop (m * 128) (v + unat (b AND 0x7F) * m) r = Inr (n, s')"
      by (simp add: s Let_def split: if_splits)
    from Suc.IH [OF m v' this] obtain bs where "n < 128 ^ 4" "r = bs @ s'" "length bs \<le> Suc k" by blast
    then show ?thesis by (auto simp: s intro!: exI [of _ "b # bs"])
  qed
qed

section \<open>The properties of the remaining length\<close>

text \<open>
  The remaining length survives writing and reading, whatever follows it, up to the four
  bytes the protocol admits; a longer one is rejected when its fourth byte is read.
\<close>

theorem length_round_trip:
  "decode_packet_length (length_bytes n @ rest) = (if n < 268435456 then Inr (n, rest) else Inl OSError)"
  using decode_packet_length_bytes [of n rest] by simp

text \<open>
  Whatever the peer sends, decoding a remaining length ends, having read between one and
  four bytes and with a value below 2^28, or it raises.
\<close>

theorem decode_length_bounds:
  "case decode_packet_length s of
     Inl e \<Rightarrow> e = OSError \<or> e = ConnectionClosed \<and> length s < 4
   | Inr (n, s') \<Rightarrow> n < 268435456 \<and> (\<exists>bs. s = bs @ s' \<and> 1 \<le> length bs \<and> length bs \<le> 4)"
proof (cases "decode_packet_length s")
  case (Inl e)
  have "decode_length_loop m v t = Inl e \<Longrightarrow> m * 128 ^ Suc k = 128 ^ 4 \<Longrightarrow> e = OSError
      \<or> e = ConnectionClosed \<and> length t \<le> k" for m v t k
  proof (induction k arbitrary: m v t)
    case 0
    then show ?case by (cases t) (auto simp: Let_def split: if_splits)
  next
    case (Suc k)
    show ?case
    proof (cases t)
      case (Cons b r)
      have m: "(m * 128) * 128 ^ Suc k = 128 ^ 4" using Suc.prems(2) by (simp add: algebra_simps)
      show ?thesis using Suc.prems(1) Suc.IH [OF _ m]
        by (auto simp: Cons Let_def split: if_splits)
    qed (use Suc.prems in simp)
  qed
  from this [of 1 0 s 3] Inl show ?thesis by (auto simp: decode_packet_length_def)
next
  case (Inr x)
  obtain n s' where x: "x = (n, s')" by (cases x)
  from Inr have "decode_length_loop 1 0 s = Inr (n, s')" by (simp add: decode_packet_length_def x)
  from decode_loop_bounds [OF _ _ this, of 3] show ?thesis
    by (auto simp: Inr x Suc_le_eq)
qed

section \<open>The first byte of a header\<close>

lemma header_byte:
  assumes "c < 16" and "f < 16"
  shows "decode_header (word_of_nat (c * 16 + f) # s) = Inr ((c, f), s)"
proof -
  define w :: byte where "w = word_of_nat (c * 16 + f)"
  have u: "unat w = c * 16 + f"
    using assms unfolding w_def by (simp only: unat_of_nat) simp
  have "unat (w AND 0x0F) = (c * 16 + f) AND 15" by (simp add: unsigned_and_eq u)
  also have "\<dots> = f"
    using take_bit_eq_mask [of 4 "c * 16 + f"] assms by (simp add: mask_eq_exp_minus_1 take_bit_eq_mod)
  finally have low: "unat (w AND 0x0F) = f" .
  have "drop_bit 4 (w AND 0xF0) = drop_bit 4 w AND drop_bit 4 0xF0" by simp
  also have "drop_bit 4 (0xF0 :: byte) = 15" by (simp add: drop_bit_eq_div)
  finally have "unat (drop_bit 4 (w AND 0xF0)) = unat (drop_bit 4 w) AND 15"
    by (simp only: unsigned_and_eq) simp
  also have "unat (drop_bit 4 w) = drop_bit 4 (unat w)"
    using assms by (simp add: unsigned_drop_bit_eq u take_bit_nat_eq_self)
  also have "\<dots> = c" using assms(2) by (simp only: u drop_bit_eq_div) simp
  also have "c AND 15 = c"
    using take_bit_eq_mask [of 4 c] assms by (simp add: mask_eq_exp_minus_1 take_bit_nat_eq_self)
  finally have high: "unat (drop_bit 4 (w AND 0xF0)) = c" .
  have "read_bytes 1 (w # s) = Inr ([w], s)" by (simp add: read_bytes_def)
  then show ?thesis
    using low high unfolding decode_header_def w_def [symmetric]
    by (simp add: unpack_B_def)
qed

end
