(* ===== verification/Packet_Types.thy ===== *)
theory Packet_Types
  imports Streams
begin

text \<open>
  packet/types: the field types of the packets, each with its reader and its writer, and the
  flag groups of packet/publish.py and packet/connect.py. A reader gets the bytes of the
  packet that are left (\<open>kwargs["length"]\<close>) and answers the value with the number of bytes it
  counts for it.
\<close>

section \<open>Flag groups\<close>

record publish_flags =
  pf_data :: int
  pf_retain :: bool
  pf_qos :: int

definition qos_flag_read :: "int \<Rightarrow> int" where
  "qos_flag_read data = drop_bit 1 (data AND 0x06)"

definition qos_flag_write :: "int \<Rightarrow> int \<Rightarrow> int" where
  "qos_flag_write data val = (data AND 0xF9) OR push_bit 1 val"

definition publish_flags_from_int :: "int \<Rightarrow> publish_flags" where
  "publish_flags_from_int data =
     \<lparr>pf_data = data, pf_retain = (data AND 0x01 \<noteq> 0), pf_qos = qos_flag_read data\<rparr>"

definition set_flag :: "int \<Rightarrow> bool \<Rightarrow> int \<Rightarrow> int" where
  "set_flag typ val data = (if val then data OR typ else data AND (NOT typ))"

text \<open>\<open>from_kwargs\<close> with the flags \<open>retain\<close> and \<open>qos\<close>, in the order of the annotations.\<close>

definition publish_flags_from_kwargs :: "int \<Rightarrow> bool \<Rightarrow> publish_flags" where
  "publish_flags_from_kwargs qos retain =
     (let data = 0; data1 = set_flag 0x01 retain data; data2 = qos_flag_write data1 qos
      in \<lparr>pf_data = data2, pf_retain = retain, pf_qos = qos\<rparr>)"

record connect_flags =
  cf_data :: int
  cf_clean_session :: bool
  cf_enable_last_will :: bool
  cf_retain_last_will :: bool
  cf_enable_password :: bool
  cf_enable_username :: bool
  cf_last_will_qos :: int

definition will_qos_flag_read :: "int \<Rightarrow> int" where
  "will_qos_flag_read data = drop_bit 3 (data AND 0x18)"

definition will_qos_flag_write :: "int \<Rightarrow> int \<Rightarrow> int" where
  "will_qos_flag_write data val = (data AND 0xE7) OR push_bit 3 val"

definition connect_flags_from_int :: "int \<Rightarrow> connect_flags" where
  "connect_flags_from_int data =
     \<lparr>cf_data = data, cf_clean_session = (data AND 0x02 \<noteq> 0), cf_enable_last_will = (data AND 0x04 \<noteq> 0),
      cf_retain_last_will = (data AND 0x20 \<noteq> 0), cf_enable_password = (data AND 0x40 \<noteq> 0),
      cf_enable_username = (data AND 0x80 \<noteq> 0), cf_last_will_qos = will_qos_flag_read data\<rparr>"

definition connect_flags_from_kwargs ::
    "bool \<Rightarrow> bool \<Rightarrow> bool \<Rightarrow> bool \<Rightarrow> bool \<Rightarrow> int \<Rightarrow> connect_flags" where
  "connect_flags_from_kwargs clean will retain_will password username qos =
     (let data1 = set_flag 0x02 clean 0; data2 = set_flag 0x04 will data1;
          data3 = set_flag 0x20 retain_will data2; data4 = set_flag 0x40 password data3;
          data5 = set_flag 0x80 username data4; data6 = will_qos_flag_write data5 qos
      in \<lparr>cf_data = data6, cf_clean_session = clean, cf_enable_last_will = will,
          cf_retain_last_will = retain_will, cf_enable_password = password,
          cf_enable_username = username, cf_last_will_qos = qos\<rparr>)"

section \<open>Field types\<close>

datatype item_type =
    StaticInt nat | PacketIdType | DynamicStr | DynamicBytes | RemainingBytes | ConnectFlagsType

datatype item_value =
    VInt int | VStr string | VBytes bytes | VNone | VConnectFlags connect_flags

definition static_int_read :: "nat \<Rightarrow> (item_value \<times> nat) parser" where
  "static_int_read n = bindP (read_int n) (\<lambda>i. returnP (VInt (int i), n))"

definition packet_id_read :: "(item_value \<times> nat) parser" where
  "packet_id_read =
     bindP (read_bytes 2) (\<lambda>raw_data. bindP (liftP (unpack_H raw_data)) (\<lambda>i. returnP (VInt (int i), 2)))"

definition dynamic_str_read :: "(item_value \<times> nat) parser" where
  "dynamic_str_read = bindP decode_str (\<lambda>(s, n). returnP (VStr s, n))"

definition dynamic_bytes_read :: "(item_value \<times> nat) parser" where
  "dynamic_bytes_read = bindP decode_bytes (\<lambda>(b, n). returnP (VBytes b, n))"

definition remaining_bytes_read :: "int \<Rightarrow> (item_value \<times> nat) parser" where
  "remaining_bytes_read len =
     (if len < 1 then returnP (VNone, 0)
      else bindP (read_bytes (nat len)) (\<lambda>b. returnP (VBytes b, nat len)))"

text \<open>\<open>PacketFlagGroup.read\<close> of the class \<open>ConnectFlags\<close>.\<close>

definition flag_group_read :: "(item_value \<times> nat) parser" where
  "flag_group_read = bindP (read_int 1) (\<lambda>f. returnP (VConnectFlags (connect_flags_from_int (int f)), 1))"

lemmas item_readers [simp] =
  static_int_read_def packet_id_read_def dynamic_str_read_def dynamic_bytes_read_def
  remaining_bytes_read_def flag_group_read_def

fun read_item :: "item_type \<Rightarrow> int \<Rightarrow> (item_value \<times> nat) parser" where
  "read_item (StaticInt n) len = static_int_read n"
| "read_item PacketIdType len = packet_id_read"
| "read_item DynamicStr len = dynamic_str_read"
| "read_item DynamicBytes len = dynamic_bytes_read"
| "read_item RemainingBytes len = remaining_bytes_read len"
| "read_item ConnectFlagsType len = flag_group_read"

definition pack_int :: "nat \<Rightarrow> int \<Rightarrow> py_error + bytes" where
  "pack_int n i =
     (if n = 1 then (if 0 \<le> i \<and> i < 256 then Inr [word_of_int i] else Inl StructError)
      else if n = 2 then
        (if 0 \<le> i \<and> i < 65536 then Inr [word_of_int (i div 256), word_of_int (i mod 256)]
         else Inl StructError)
      else Inl TypeError)"

fun static_int_to_bytes :: "nat \<Rightarrow> item_value \<Rightarrow> py_error + bytes" where
  "static_int_to_bytes n (VInt i) = pack_int n i"
| "static_int_to_bytes n v = (if n = 1 \<or> n = 2 then Inl StructError else Inl TypeError)"

fun dynamic_str_to_bytes :: "item_value \<Rightarrow> py_error + bytes" where
  "dynamic_str_to_bytes (VStr s) =
     bindR (py_encode s) (\<lambda>data. bindR (pack_int 2 (int (length data))) (\<lambda>n. Inr (n @ data)))"
| "dynamic_str_to_bytes v = Inl AttributeError"

fun remaining_bytes_to_bytes :: "item_value \<Rightarrow> py_error + bytes" where
  "remaining_bytes_to_bytes VNone = Inr []"
| "remaining_bytes_to_bytes (VBytes b) = Inr b"
| "remaining_bytes_to_bytes (VStr s) = (if s = [] then Inr [] else Inl TypeError)"
| "remaining_bytes_to_bytes v = Inl TypeError"

text \<open>
  \<open>to_bytes\<close>. The type of dynamic bytes inherits the empty method of its base class, whose
  \<open>None\<close> the caller cannot extend its payload with; the class of the connect flags has only
  an instance method.
\<close>

fun item_to_bytes :: "item_type \<Rightarrow> item_value \<Rightarrow> py_error + bytes" where
  "item_to_bytes (StaticInt n) v = static_int_to_bytes n v"
| "item_to_bytes PacketIdType v = static_int_to_bytes 2 v"
| "item_to_bytes DynamicStr v = dynamic_str_to_bytes v"
| "item_to_bytes DynamicBytes v = Inl TypeError"
| "item_to_bytes RemainingBytes v = remaining_bytes_to_bytes v"
| "item_to_bytes ConnectFlagsType v = Inl TypeError"

text \<open>
  The loop of \<open>PacketDynamicList.read\<close>, with the reader of an element. No element type of
  the repository counts zero bytes for an element, for which the loop would not end: the model
  answers \<open>OutsideModel\<close> there.
\<close>

function list_loop :: "(int \<Rightarrow> ('v \<times> nat) parser) \<Rightarrow> int \<Rightarrow> ('v list \<times> nat) parser" where
  "list_loop rd len s =
     (if len > 0 then
        (case rd len s of
           Inl e \<Rightarrow> Inl e
         | Inr ((item, read_length), s1) \<Rightarrow>
             if read_length = 0 then Inl OutsideModel
             else (case list_loop rd (len - int read_length) s1 of
                     Inl e \<Rightarrow> Inl e
                   | Inr ((items, byte_count), s2) \<Rightarrow>
                       Inr ((item # items, read_length + byte_count), s2)))
      else Inr (([], 0), s))"
  by pat_completeness auto
termination
  by (relation "measure (\<lambda>(rd, len, s). nat len)") auto

declare list_loop.simps [simp del]

text \<open>One element of a payload class: its fields in order, by name.\<close>

fun read_record :: "(string \<times> item_type) list \<Rightarrow> int \<Rightarrow> ((string \<times> item_value) list \<times> nat) parser" where
  "read_record [] len = returnP ([], 0)"
| "read_record ((name, subtype) # rest) len =
     bindP (read_item subtype len) (\<lambda>(v, n).
       bindP (read_record rest (len - int n)) (\<lambda>(kvs, k). returnP ((name, v) # kvs, n + k)))"

text \<open>\<open>PacketDynamicList.to_bytes\<close>.\<close>

definition list_to_bytes :: "('v \<Rightarrow> py_error + bytes) \<Rightarrow> 'v list \<Rightarrow> py_error + bytes" where
  "list_to_bytes enc data = bindR (mapR enc data) (\<lambda>byte_list. Inr (concat byte_list))"

section \<open>The interface of a codec\<close>

text \<open>
  A codec reads back what it wrote, counts the bytes it wrote, and reads no byte further. The
  elements of a list are written one after the other and read until their bytes are used up.
\<close>

locale codec =
  fixes enc :: "'v \<Rightarrow> py_error + bytes"
    and dec :: "int \<Rightarrow> ('v \<times> nat) parser"
    and ok :: "'v \<Rightarrow> bool"
  assumes enc_ok: "ok v \<Longrightarrow> \<exists>bs. enc v = Inr bs"
    and dec_enc: "ok v \<Longrightarrow> enc v = Inr bs \<Longrightarrow> dec len (bs @ s) = Inr ((v, length bs), s)"
    and enc_nonempty: "ok v \<Longrightarrow> enc v = Inr bs \<Longrightarrow> bs \<noteq> []"
begin

lemma list_enc_ok: "list_all ok vs \<Longrightarrow> \<exists>bs. list_to_bytes enc vs = Inr bs"
proof (induction vs)
  case (Cons v vs)
  then show ?case using enc_ok [of v] by (auto simp: list_to_bytes_def res_simps)
qed (simp add: list_to_bytes_def)

lemma list_dec_enc:
  "list_all ok vs \<Longrightarrow> list_to_bytes enc vs = Inr bs \<Longrightarrow>
   list_loop dec (int (length bs)) (bs @ s) = Inr ((vs, length bs), s)"
proof (induction vs arbitrary: bs)
  case Nil
  then show ?case by (simp add: list_to_bytes_def list_loop.simps)
next
  case (Cons v vs)
  then obtain b r where b: "enc v = Inr b" and r: "list_to_bytes enc vs = Inr r" and bs: "bs = b @ r"
    by (auto simp: list_to_bytes_def res_simps)
  have v: "ok v" "list_all ok vs" using Cons.prems(1) by simp_all
  have "dec (int (length bs)) (b @ (r @ s)) = Inr ((v, length b), r @ s)" by (rule dec_enc [OF v(1) b])
  moreover have "list_loop dec (int (length bs) - int (length b)) (r @ s) = Inr ((vs, length r), s)"
    using Cons.IH [OF v(2) r] by (simp add: bs)
  moreover have "b \<noteq> []" by (rule enc_nonempty [OF v(1) b])
  moreover from this have "0 < int (length b) + int (length r)" by (cases b) simp_all
  ultimately show ?case by (subst list_loop.simps) (simp add: bs)
qed

end

section \<open>The field types are codecs\<close>

fun item_ok :: "item_type \<Rightarrow> item_value \<Rightarrow> bool" where
  "item_ok (StaticInt n) (VInt i) \<longleftrightarrow> n = 1 \<and> 0 \<le> i \<and> i < 256 \<or> n = 2 \<and> 0 \<le> i \<and> i < 65536"
| "item_ok PacketIdType (VInt i) \<longleftrightarrow> 0 \<le> i \<and> i < 65536"
| "item_ok DynamicStr (VStr s) \<longleftrightarrow> utf8_valid (raw_bytes s) \<and> length s < 65536"
| "item_ok RemainingBytes VNone \<longleftrightarrow> True"
| "item_ok RemainingBytes (VBytes b) \<longleftrightarrow> b \<noteq> []"
| "item_ok _ _ \<longleftrightarrow> False"

lemma pack_int_1: "0 \<le> i \<Longrightarrow> i < 256 \<Longrightarrow> pack_int 1 i = Inr bs \<Longrightarrow>
    length bs = 1 \<and> int (from_big_endian bs) = i"
  by (auto simp: pack_int_def unat_eq_nat_uint uint_word_of_int_eq take_bit_eq_mod)

lemma pack_int_2:
  assumes "0 \<le> i" and "i < 65536" and "pack_int 2 i = Inr bs"
  shows "length bs = 2 \<and> int (from_big_endian bs) = i"
proof -
  have "i div 256 < 256" using assms by (simp add: div_less_iff_less_mult)
  moreover have "0 \<le> i div 256" using assms(1) by (simp add: div_int_pos_iff)
  ultimately have "int (unat (word_of_int (i div 256) :: byte)) = i div 256"
    by (simp add: unat_eq_nat_uint uint_word_of_int_eq take_bit_eq_mod)
  moreover have "int (unat (word_of_int (i mod 256) :: byte)) = i mod 256"
    by (simp add: unat_eq_nat_uint uint_word_of_int_eq take_bit_eq_mod)
  ultimately show ?thesis using assms by (auto simp: pack_int_def)
qed

lemma item_enc_ok: "item_ok ft v \<Longrightarrow> \<exists>bs. item_to_bytes ft v = Inr bs"
  by (induction ft v rule: item_ok.induct) (auto simp: pack_int_def py_encode_def)

lemma read_two: "length n = 2 \<Longrightarrow> read_bytes 2 (n @ s) = Inr (n, s)"
  by simp

lemma decode_str_bytes:
  assumes "length n = 2" and "from_big_endian n = length b" and "utf8_valid b"
  shows "decode_str (n @ b @ s) = Inr ((raw_str b, length b + 2), s)"
proof -
  have "b = [] \<Longrightarrow> raw_str b = []" by (simp add: raw_str_def)
  then show ?thesis
    using assms by (simp add: decode_str_def unpack_H_def read_two [of n "b @ s"] py_decode_def)
qed

lemma item_dec_enc:
  assumes "item_ok ft v" and "item_to_bytes ft v = Inr bs"
    and "ft = RemainingBytes \<Longrightarrow> len = int (length bs)"
  shows "read_item ft len (bs @ s) = Inr ((v, length bs), s)"
  using assms
proof (induction ft v rule: item_ok.induct)
  case (1 n i)
  then have "n = 1 \<or> n = 2" by auto
  with 1 have "length bs = n \<and> int (from_big_endian bs) = i"
    using pack_int_1 [of i bs] pack_int_2 [of i bs] by auto
  then show ?case by (auto simp: read_int_def)
next
  case (2 i)
  then have "length bs = 2 \<and> int (from_big_endian bs) = i" using pack_int_2 [of i bs] by auto
  then show ?case by (auto simp: unpack_H_def read_two)
next
  case (3 t)
  then obtain n where n: "pack_int 2 (int (length t)) = Inr n" "bs = n @ raw_bytes t"
    by (auto simp: py_encode_def res_simps)
  with 3 have "length n = 2 \<and> int (from_big_endian n) = int (length t)"
    using pack_int_2 [of "int (length t)" n] by auto
  then show ?case using 3 decode_str_bytes [of n "raw_bytes t" s] by (simp add: n)
next
  case (5 b)
  then have "0 < length b" by simp
  with 5 show ?case by simp
qed auto

text \<open>One element of a payload class, as a client writes it.\<close>

fun record_to_bytes :: "(string \<times> item_type) list \<Rightarrow> (string \<times> item_value) list \<Rightarrow> py_error + bytes" where
  "record_to_bytes [] [] = Inr []"
| "record_to_bytes ((name, t) # rest) ((name', v) # kvs) =
     bindR (item_to_bytes t v) (\<lambda>b. bindR (record_to_bytes rest kvs) (\<lambda>r. Inr (b @ r)))"
| "record_to_bytes _ _ = Inl TypeError"

fun record_ok :: "(string \<times> item_type) list \<Rightarrow> (string \<times> item_value) list \<Rightarrow> bool" where
  "record_ok [] [] \<longleftrightarrow> True"
| "record_ok ((name, t) # rest) ((name', v) # kvs) \<longleftrightarrow>
     name = name' \<and> t \<noteq> RemainingBytes \<and> item_ok t v \<and> record_ok rest kvs"
| "record_ok _ _ \<longleftrightarrow> False"

lemma item_nonempty: "item_ok t v \<Longrightarrow> t \<noteq> RemainingBytes \<Longrightarrow> item_to_bytes t v = Inr bs \<Longrightarrow> bs \<noteq> []"
  by (induction t v rule: item_ok.induct)
     (auto simp: pack_int_def res_simps py_encode_def split: if_splits)

lemma record_enc_ok: "record_ok fs kvs \<Longrightarrow> \<exists>bs. record_to_bytes fs kvs = Inr bs"
proof (induction fs kvs rule: record_ok.induct)
  case (2 name t rest name' v kvs)
  then show ?case using item_enc_ok [of t v] by auto
qed auto

lemma record_dec_enc:
  "record_ok fs kvs \<Longrightarrow> record_to_bytes fs kvs = Inr bs \<Longrightarrow>
   read_record fs len (bs @ s) = Inr ((kvs, length bs), s)"
proof (induction fs kvs arbitrary: bs len rule: record_ok.induct)
  case (2 name t rest name' v kvs)
  then obtain b r where b: "item_to_bytes t v = Inr b" "record_to_bytes rest kvs = Inr r" "bs = b @ r"
    by (auto simp: res_simps)
  with 2 have "read_item t len (b @ (r @ s)) = Inr ((v, length b), r @ s)"
    by (intro item_dec_enc) auto
  moreover have "read_record rest (len - int (length b)) (r @ s) = Inr ((kvs, length r), s)"
    using 2 b by auto
  ultimately show ?case using 2 by (simp add: b)
qed auto

definition request_fields :: "(string \<times> item_type) list" where
  "request_fields = [(''topic'', DynamicStr), (''qos'', StaticInt 1)]"

interpretation byte_codec: codec "item_to_bytes (StaticInt 1)" "read_item (StaticInt 1)" "item_ok (StaticInt 1)"
  by unfold_locales
     (rule item_enc_ok, assumption, rule item_dec_enc, assumption+, simp, rule item_nonempty, auto)

interpretation str_codec: codec "item_to_bytes DynamicStr" "read_item DynamicStr" "item_ok DynamicStr"
  by unfold_locales
     (rule item_enc_ok, assumption, rule item_dec_enc, assumption+, simp, rule item_nonempty, auto)

interpretation request_codec: codec
  "record_to_bytes request_fields" "read_record request_fields" "record_ok request_fields"
proof
  fix v bs len s
  assume ok: "record_ok request_fields v"
  show "\<exists>bs. record_to_bytes request_fields v = Inr bs" by (rule record_enc_ok [OF ok])
  assume enc: "record_to_bytes request_fields v = Inr bs"
  show "read_record request_fields len (bs @ s) = Inr ((v, length bs), s)"
    by (rule record_dec_enc [OF ok enc])
  obtain name t kvs where v: "v = (name, t) # kvs" using ok by (cases v) (auto simp: request_fields_def)
  have "item_ok DynamicStr t" using ok by (simp add: v request_fields_def)
  with enc item_nonempty [of DynamicStr t] show "bs \<noteq> []"
    by (auto simp: v request_fields_def res_simps)
qed

end
