(* ===== verification/Packets.thy ===== *)
theory Packets
  imports Packet_Types
begin

text \<open>
  packet/base_packet.py, packet/packets.py and the packet classes: a class is its type code
  and its list of fields, each with the condition under which it is present. Reading goes
  through the fields and collects their values; writing is the inverse. A keyword argument
  that holds an object is a \<open>field_value\<close>.
\<close>

section \<open>Classes and fields\<close>

datatype packet_class =
    ConnectPacket | ConnectAcknowledgePacket | PublishPacket | PublishAcknowledgePacket
  | PublishReceivedPacket | PublishReleasedPacket | PublishCompletePacket | SubscribePacket
  | SubscribeAcknowledgePacket | UnsubscribePacket | UnsubscribeAcknowledgePacket
  | PingRequestPacket | PingResponsePacket | AuthPacket

datatype field_type = Item item_type | ListOf item_type | ListOfRecord "(string \<times> item_type) list"

datatype field_value =
    Value item_value | Items "item_value list" | Records "(string \<times> item_value) list list"

datatype packet_flags = FlagInt int | FlagGroup publish_flags

type_synonym kwargs = "(string \<times> field_value) list"
type_synonym field = "string \<times> (packet_flags \<Rightarrow> kwargs \<Rightarrow> bool) \<times> field_type"

text \<open>The conditions: the default, and those set with the \<open>enabled\<close> decorator.\<close>

definition enabled_default :: "packet_flags \<Rightarrow> kwargs \<Rightarrow> bool" where
  "enabled_default flags kwargs = True"

definition enable_id :: "packet_flags \<Rightarrow> kwargs \<Rightarrow> bool" where
  "enable_id flags kwargs = (case flags of FlagGroup f \<Rightarrow> pf_qos f > 0 | FlagInt i \<Rightarrow> False)"

definition connect_flag :: "(connect_flags \<Rightarrow> bool) \<Rightarrow> packet_flags \<Rightarrow> kwargs \<Rightarrow> bool" where
  "connect_flag sel flags kwargs =
     (case map_of kwargs ''connect_flags'' of Some (Value (VConnectFlags f)) \<Rightarrow> sel f | _ \<Rightarrow> False)"

definition enable_last_will :: "packet_flags \<Rightarrow> kwargs \<Rightarrow> bool" where
  "enable_last_will = connect_flag cf_enable_last_will"

definition enable_username :: "packet_flags \<Rightarrow> kwargs \<Rightarrow> bool" where
  "enable_username = connect_flag cf_enable_username"

definition enable_password :: "packet_flags \<Rightarrow> kwargs \<Rightarrow> bool" where
  "enable_password = connect_flag cf_enable_password"

text \<open>Each class body: its \<open>type_code\<close> and its fields in the order of declaration.\<close>

type_synonym class_body = "nat \<times> field list"

definition connect_packet :: class_body where
  "connect_packet = (0x01,
     [(''protocol_name'', enabled_default, Item DynamicStr),
      (''protocol_level'', enabled_default, Item (StaticInt 1)),
      (''connect_flags'', enabled_default, Item ConnectFlagsType),
      (''keep_alive'', enabled_default, Item (StaticInt 2)),
      (''client_id'', enabled_default, Item DynamicStr),
      (''last_will_topic'', enable_last_will, Item DynamicStr),
      (''last_will_message'', enable_last_will, Item DynamicBytes),
      (''username'', enable_username, Item DynamicStr),
      (''password'', enable_password, Item DynamicStr)])"

definition connack_packet :: class_body where
  "connack_packet = (0x02,
     [(''session_parent'', enabled_default, Item (StaticInt 1)),
      (''return_code'', enabled_default, Item (StaticInt 1))])"

definition publish_packet :: class_body where
  "publish_packet = (0x03,
     [(''topic'', enabled_default, Item DynamicStr), (''id'', enable_id, Item PacketIdType),
      (''data'', enabled_default, Item RemainingBytes)])"

definition puback_packet :: class_body where
  "puback_packet = (0x04, [(''id'', enabled_default, Item PacketIdType)])"

definition pubrec_packet :: class_body where
  "pubrec_packet = (0x05, [(''id'', enabled_default, Item PacketIdType)])"

definition pubrel_packet :: class_body where
  "pubrel_packet = (0x06, [(''id'', enabled_default, Item PacketIdType)])"

definition pubcomp_packet :: class_body where
  "pubcomp_packet = (0x07, [(''id'', enabled_default, Item PacketIdType)])"

definition subscribe_packet :: class_body where
  "subscribe_packet = (0x08,
     [(''id'', enabled_default, Item (StaticInt 2)),
      (''requests'', enabled_default, ListOfRecord request_fields)])"

definition suback_packet :: class_body where
  "suback_packet = (0x09,
     [(''id'', enabled_default, Item (StaticInt 2)),
      (''response_codes'', enabled_default, ListOf (StaticInt 1))])"

definition unsub_packet :: class_body where
  "unsub_packet = (0x0A,
     [(''id'', enabled_default, Item PacketIdType), (''topics'', enabled_default, ListOf DynamicStr)])"

definition unsuback_packet :: class_body where
  "unsuback_packet = (0x0B, [(''id'', enabled_default, Item PacketIdType)])"

definition pingreq_packet :: class_body where
  "pingreq_packet = (0x0C, [])"

definition pingresp_packet :: class_body where
  "pingresp_packet = (0x0D, [])"

definition auth_packet :: class_body where
  "auth_packet = (0x0F, [])"

fun class_body :: "packet_class \<Rightarrow> class_body" where
  "class_body ConnectPacket = connect_packet"
| "class_body ConnectAcknowledgePacket = connack_packet"
| "class_body PublishPacket = publish_packet"
| "class_body PublishAcknowledgePacket = puback_packet"
| "class_body PublishReceivedPacket = pubrec_packet"
| "class_body PublishReleasedPacket = pubrel_packet"
| "class_body PublishCompletePacket = pubcomp_packet"
| "class_body SubscribePacket = subscribe_packet"
| "class_body SubscribeAcknowledgePacket = suback_packet"
| "class_body UnsubscribePacket = unsub_packet"
| "class_body UnsubscribeAcknowledgePacket = unsuback_packet"
| "class_body PingRequestPacket = pingreq_packet"
| "class_body PingResponsePacket = pingresp_packet"
| "class_body AuthPacket = auth_packet"

lemmas class_bodies =
  connect_packet_def connack_packet_def publish_packet_def puback_packet_def pubrec_packet_def
  pubrel_packet_def pubcomp_packet_def subscribe_packet_def suback_packet_def unsub_packet_def
  unsuback_packet_def pingreq_packet_def pingresp_packet_def auth_packet_def

definition type_code :: "packet_class \<Rightarrow> nat" where
  "type_code cls = fst (class_body cls)"

text \<open>\<open>PayloadMeta\<close> collects the fields of a class in the order of its body.\<close>

definition packet_fields :: "packet_class \<Rightarrow> field list" where
  "packet_fields cls = snd (class_body cls)"

lemma packet_fields_simps [simp]:
  "packet_fields ConnectPacket = snd connect_packet"
  "packet_fields ConnectAcknowledgePacket = snd connack_packet"
  "packet_fields PublishPacket = snd publish_packet"
  "packet_fields PublishAcknowledgePacket = snd puback_packet"
  "packet_fields PublishReceivedPacket = snd pubrec_packet"
  "packet_fields PublishReleasedPacket = snd pubrel_packet"
  "packet_fields PublishCompletePacket = snd pubcomp_packet"
  "packet_fields SubscribePacket = snd subscribe_packet"
  "packet_fields SubscribeAcknowledgePacket = snd suback_packet"
  "packet_fields UnsubscribePacket = snd unsub_packet"
  "packet_fields UnsubscribeAcknowledgePacket = snd unsuback_packet"
  "packet_fields PingRequestPacket = snd pingreq_packet"
  "packet_fields PingResponsePacket = snd pingresp_packet"
  "packet_fields AuthPacket = snd auth_packet"
  by (simp_all add: packet_fields_def)

lemma type_code_simps [simp]:
  "type_code ConnectPacket = 1"
  "type_code ConnectAcknowledgePacket = 2"
  "type_code PublishPacket = 3"
  "type_code PublishAcknowledgePacket = 4"
  "type_code PublishReceivedPacket = 5"
  "type_code PublishReleasedPacket = 6"
  "type_code PublishCompletePacket = 7"
  "type_code SubscribePacket = 8"
  "type_code SubscribeAcknowledgePacket = 9"
  "type_code UnsubscribePacket = 10"
  "type_code UnsubscribeAcknowledgePacket = 11"
  "type_code PingRequestPacket = 12"
  "type_code PingResponsePacket = 13"
  "type_code AuthPacket = 15"
  by (simp_all add: type_code_def class_bodies)

declare class_bodies [simp]

definition all_packets :: "packet_class list" where
  "all_packets =
     [ConnectPacket, ConnectAcknowledgePacket, PublishPacket, PublishAcknowledgePacket,
      PublishReceivedPacket, PublishReleasedPacket, PublishCompletePacket, SubscribePacket,
      SubscribeAcknowledgePacket, UnsubscribePacket, UnsubscribeAcknowledgePacket,
      PingRequestPacket, PingResponsePacket, AuthPacket]"

definition infer_packet_class :: "nat \<Rightarrow> py_error + packet_class" where
  "infer_packet_class packet_type =
     (case List.find (\<lambda>cls. type_code cls = packet_type) all_packets of
        Some cls \<Rightarrow> Inr cls | None \<Rightarrow> Inl UnknownPacketError)"

record packet =
  pk_class :: packet_class
  pk_flags :: packet_flags
  pk_length :: nat
  pk_kwargs :: kwargs

text \<open>\<open>Packet.__init__\<close> with the flags of the header: only PUBLISH has a flag class.\<close>

definition flags_from_int :: "packet_class \<Rightarrow> int \<Rightarrow> packet_flags" where
  "flags_from_int cls data =
     (if cls = PublishPacket then FlagGroup (publish_flags_from_int data) else FlagInt data)"

section \<open>Reading\<close>

fun read_field :: "field_type \<Rightarrow> int \<Rightarrow> (field_value \<times> nat) parser" where
  "read_field (Item t) len = bindP (read_item t len) (\<lambda>(v, n). returnP (Value v, n))"
| "read_field (ListOf t) len = bindP (list_loop (read_item t) len) (\<lambda>(vs, n). returnP (Items vs, n))"
| "read_field (ListOfRecord fs) len =
     bindP (list_loop (read_record fs) len) (\<lambda>(rs, n). returnP (Records rs, n))"

text \<open>A list counts its bytes off \<open>kwargs["length"]\<close> itself, and \<open>read_payload\<close> once more.\<close>

fun length_after :: "field_type \<Rightarrow> int \<Rightarrow> nat \<Rightarrow> int" where
  "length_after (Item t) len n = len - int n"
| "length_after t len n = len - int n - int n"

fun read_payload :: "field list \<Rightarrow> packet_flags \<Rightarrow> int \<Rightarrow> kwargs \<Rightarrow> (kwargs \<times> nat) parser" where
  "read_payload [] flags len kwargs = returnP (kwargs, 0)"
| "read_payload ((name, is_enabled, packet_type) # rest) flags len kwargs =
     (if is_enabled flags kwargs then
        bindP (read_field packet_type len) (\<lambda>(v, read_length).
          bindP (read_payload rest flags (length_after packet_type len read_length) (kwargs @ [(name, v)]))
            (\<lambda>(kwargs', byte_count). returnP (kwargs', read_length + byte_count)))
      else read_payload rest flags len kwargs)"

definition read_packet :: "packet_class \<Rightarrow> nat \<Rightarrow> packet parser" where
  "read_packet cls flags_int =
     bindP decode_packet_length (\<lambda>len.
       bindP (read_payload (packet_fields cls) (flags_from_int cls (int flags_int)) (int len) [])
         (\<lambda>(kwargs, bytes_read).
           returnP \<lparr>pk_class = cls, pk_flags = flags_from_int cls (int flags_int),
                    pk_length = len, pk_kwargs = kwargs\<rparr>))"

text \<open>\<open>cls.read(handler)\<close> without flags: the header is read, and its class must be \<open>cls\<close>.\<close>

definition read_packet_as :: "packet_class \<Rightarrow> packet parser" where
  "read_packet_as cls =
     bindP decode_header (\<lambda>(msg_type, flags). bindP (liftP (infer_packet_class msg_type)) (\<lambda>cur_class.
       if cls \<noteq> cur_class then failP PacketMismatchError else read_packet cls flags))"

definition read_next_packet :: "packet parser" where
  "read_next_packet =
     bindP decode_header (\<lambda>(msg_type, flags). bindP (liftP (infer_packet_class msg_type)) (\<lambda>clazz.
       read_packet clazz flags))"

section \<open>Writing\<close>

text \<open>The payload class of SUBSCRIBE has no \<open>to_bytes\<close>.\<close>

fun field_to_bytes :: "field_type \<Rightarrow> field_value \<Rightarrow> py_error + bytes" where
  "field_to_bytes (Item t) (Value v) = item_to_bytes t v"
| "field_to_bytes (ListOf t) (Items vs) = list_to_bytes (item_to_bytes t) vs"
| "field_to_bytes (ListOfRecord fs) (Records rs) = (if rs = [] then Inr [] else Inl AttributeError)"
| "field_to_bytes _ _ = Inl TypeError"

fun write_fields :: "field list \<Rightarrow> packet_flags \<Rightarrow> kwargs \<Rightarrow> py_error + bytes" where
  "write_fields [] flags kwargs = Inr []"
| "write_fields ((name, is_enabled, packet_type) # rest) flags kwargs =
     (if is_enabled flags kwargs then
        (let data = (case map_of kwargs name of None \<Rightarrow> Value VNone | Some v \<Rightarrow> v)
         in bindR (field_to_bytes packet_type data) (\<lambda>b.
              bindR (write_fields rest flags kwargs) (\<lambda>payload. Inr (b @ payload))))
      else write_fields rest flags kwargs)"

fun flags_int :: "packet_flags \<Rightarrow> int" where
  "flags_int (FlagInt i) = i"
| "flags_int (FlagGroup f) = pf_data f"

definition get_header_bytes :: "packet_class \<Rightarrow> packet_flags \<Rightarrow> nat \<Rightarrow> py_error + bytes" where
  "get_header_bytes cls flags len =
     (let first = push_bit 4 (int (type_code cls)) OR flags_int flags
      in if 0 \<le> first \<and> first < 256 then Inr (word_of_int first # length_bytes len) else Inl ValueError)"

definition packet_to_bytes :: "packet_class \<Rightarrow> packet_flags \<Rightarrow> kwargs \<Rightarrow> py_error + bytes" where
  "packet_to_bytes cls flags kwargs =
     bindR (write_fields (packet_fields cls) flags kwargs) (\<lambda>payload.
       bindR (get_header_bytes cls flags (length payload)) (\<lambda>header_bytes.
         Inr (header_bytes @ payload)))"

section \<open>Type codes\<close>

lemma type_code_less: "type_code cls < 16"
  by (cases cls) simp_all

lemma infer_type_code: "infer_packet_class (type_code cls) = Inr cls"
  by (cases cls) (simp_all add: infer_packet_class_def all_packets_def)

text \<open>
  The type code determines the class: every class is found by its own code, and a code
  that is found is the code of the class that was found; the codes 0 and 14 (DISCONNECT) and
  those above 15 are unknown.
\<close>

theorem infer_packet_class_exact:
  "infer_packet_class (type_code cls) = Inr cls
   \<and> (case infer_packet_class n of
        Inr c \<Rightarrow> type_code c = n
      | Inl e \<Rightarrow> e = UnknownPacketError \<and> (n = 0 \<or> n = 14 \<or> 15 < n))"
proof (cases "\<exists>c. type_code c = n")
  case True
  then show ?thesis using infer_type_code by auto
next
  case False
  have "n \<in> {1..13} \<union> {15} \<Longrightarrow> \<exists>c. type_code c = n"
  proof -
    assume "n \<in> {1..13} \<union> {15}"
    then have "n \<in> type_code ` set all_packets" by (auto simp: all_packets_def) arith
    then show ?thesis by auto
  qed
  with False have n: "n = 0 \<or> n = 14 \<or> 15 < n" by fastforce
  have "infer_packet_class n = Inl UnknownPacketError"
    using False by (auto simp: infer_packet_class_def find_None_iff split: option.split dest: find_Some_iff [THEN iffD1])
  with n show ?thesis by (simp add: infer_type_code)
qed

section \<open>What is on the wire\<close>

text \<open>
  The bytes of a packet as either side writes it: like the writers above, and also the field
  types the broker only reads (the payload of SUBSCRIBE, the dynamic bytes and the flags of
  CONNECT).
\<close>

fun wire_item :: "item_type \<Rightarrow> item_value \<Rightarrow> py_error + bytes" where
  "wire_item DynamicBytes (VBytes b) = bindR (pack_int 2 (int (length b))) (\<lambda>n. Inr (n @ b))"
| "wire_item ConnectFlagsType (VConnectFlags f) = pack_int 1 (cf_data f)"
| "wire_item t v = item_to_bytes t v"

fun wire_ok :: "item_type \<Rightarrow> item_value \<Rightarrow> bool" where
  "wire_ok DynamicBytes (VBytes b) \<longleftrightarrow> length b < 65536"
| "wire_ok ConnectFlagsType (VConnectFlags f) \<longleftrightarrow>
     0 \<le> cf_data f \<and> cf_data f < 256 \<and> f = connect_flags_from_int (cf_data f)"
| "wire_ok t v \<longleftrightarrow> item_ok t v"

fun wire_field :: "field_type \<Rightarrow> field_value \<Rightarrow> py_error + bytes" where
  "wire_field (Item t) (Value v) = wire_item t v"
| "wire_field (ListOf t) (Items vs) = list_to_bytes (item_to_bytes t) vs"
| "wire_field (ListOfRecord fs) (Records rs) = list_to_bytes (record_to_bytes fs) rs"
| "wire_field _ _ = Inl TypeError"

fun field_ok :: "field_type \<Rightarrow> field_value \<Rightarrow> bool" where
  "field_ok (Item t) (Value v) \<longleftrightarrow> wire_ok t v"
| "field_ok (ListOf t) (Items vs) \<longleftrightarrow> (t = StaticInt 1 \<or> t = DynamicStr) \<and> list_all (item_ok t) vs"
| "field_ok (ListOfRecord fs) (Records rs) \<longleftrightarrow> fs = request_fields \<and> list_all (record_ok fs) rs"
| "field_ok _ _ \<longleftrightarrow> False"

text \<open>Fields that read until the packet ends; they must be the last.\<close>

fun budgeted :: "field_type \<Rightarrow> bool" where
  "budgeted (Item t) \<longleftrightarrow> t = RemainingBytes"
| "budgeted _ \<longleftrightarrow> True"

lemma wire_item_read:
  assumes "wire_ok t v" and "wire_item t v = Inr bs" and "t = RemainingBytes \<Longrightarrow> len = int (length bs)"
  shows "read_item t len (bs @ s) = Inr ((v, length bs), s)"
proof (cases "(\<exists>b. t = DynamicBytes \<and> v = VBytes b) \<or> (\<exists>f. t = ConnectFlagsType \<and> v = VConnectFlags f)")
  case True
  then consider (db) b where "t = DynamicBytes" "v = VBytes b"
    | (cf) f where "t = ConnectFlagsType" "v = VConnectFlags f" by blast
  then show ?thesis
  proof cases
    case db
    then obtain n where n: "pack_int 2 (int (length b)) = Inr n" "bs = n @ b"
      using assms(2) by (auto simp: res_simps)
    with db assms(1) have l: "length n = 2 \<and> int (from_big_endian n) = int (length b)"
      using pack_int_2 [of "int (length b)" n] by auto
    then show ?thesis
      using read_two [of n "b @ s"] by (simp add: db n decode_bytes_def unpack_H_def)
  next
    case cf
    then have "length bs = 1 \<and> int (from_big_endian bs) = cf_data f"
      using pack_int_1 [of "cf_data f" bs] assms(1,2) by auto
    moreover have "connect_flags_from_int (cf_data f) = f" using assms(1) by (simp add: cf)
    ultimately show ?thesis by (simp add: cf read_int_def)
  qed
next
  case False
  then have "wire_item t v = item_to_bytes t v" "wire_ok t v = item_ok t v" by (cases t; cases v; simp)+
  with assms item_dec_enc [of t v bs len s] show ?thesis by simp
qed

lemma wire_field_read:
  assumes "field_ok t v" and "wire_field t v = Inr bs" and "budgeted t \<Longrightarrow> len = int (length bs)"
  shows "read_field t len (bs @ s) = Inr ((v, length bs), s)"
  using assms
proof (induction t v rule: field_ok.induct)
  case (1 t v)
  then have "read_item t len (bs @ s) = Inr ((v, length bs), s)" by (intro wire_item_read) auto
  then show ?case by simp
next
  case (2 t vs)
  then have "list_loop (read_item t) len (bs @ s) = Inr ((vs, length bs), s)"
    using byte_codec.list_dec_enc [of vs bs s] str_codec.list_dec_enc [of vs bs s] by auto
  then show ?case by simp
next
  case (3 fs rs)
  then have "list_loop (read_record fs) len (bs @ s) = Inr ((rs, length bs), s)"
    using request_codec.list_dec_enc [of rs bs s] by auto
  then show ?case by simp
qed auto

fun payload_ok :: "field list \<Rightarrow> packet_flags \<Rightarrow> kwargs \<Rightarrow> kwargs \<Rightarrow> bool" where
  "payload_ok [] flags pre kws \<longleftrightarrow> kws = []"
| "payload_ok ((name, is_enabled, t) # rest) flags pre kws \<longleftrightarrow>
     (if is_enabled flags pre then
        (case kws of [] \<Rightarrow> False
         | (name', v) # kws' \<Rightarrow> name' = name \<and> field_ok t v \<and> (budgeted t \<longrightarrow> rest = [])
             \<and> payload_ok rest flags (pre @ [(name, v)]) kws')
      else payload_ok rest flags pre kws)"

fun wire_payload :: "field list \<Rightarrow> packet_flags \<Rightarrow> kwargs \<Rightarrow> kwargs \<Rightarrow> py_error + bytes" where
  "wire_payload [] flags pre kws = Inr []"
| "wire_payload ((name, is_enabled, t) # rest) flags pre kws =
     (if is_enabled flags pre then
        (case kws of [] \<Rightarrow> Inl TypeError
         | (name', v) # kws' \<Rightarrow> bindR (wire_field t v) (\<lambda>b.
             bindR (wire_payload rest flags (pre @ [(name, v)]) kws') (\<lambda>r. Inr (b @ r))))
      else wire_payload rest flags pre kws)"

lemma read_payload_wire:
  "payload_ok fs flags pre kws \<Longrightarrow> wire_payload fs flags pre kws = Inr bs \<Longrightarrow>
   read_payload fs flags (int (length bs)) pre (bs @ s) = Inr ((pre @ kws, length bs), s)"
proof (induction fs arbitrary: pre kws bs)
  case (Cons f rest)
  obtain name en t where f: "f = (name, en, t)" by (cases f)
  show ?case
  proof (cases "en flags pre")
    case False
    with Cons show ?thesis by (simp add: f)
  next
    case True
    then obtain v kws' where kws: "kws = (name, v) # kws'" and ok: "field_ok t v"
      and last: "budgeted t \<longrightarrow> rest = []" and rest: "payload_ok rest flags (pre @ [(name, v)]) kws'"
      using Cons.prems(1) by (auto simp: f split: list.splits)
    then obtain b r where b: "wire_field t v = Inr b" and bs: "bs = b @ r"
      and r: "wire_payload rest flags (pre @ [(name, v)]) kws' = Inr r"
      using Cons.prems(2) True by (auto simp: f res_simps)
    have empty: "budgeted t \<Longrightarrow> r = []" using last r by auto
    have "read_field t (int (length bs)) (b @ (r @ s)) = Inr ((v, length b), r @ s)"
      by (rule wire_field_read [OF ok b]) (use empty bs in auto)
    moreover have "read_payload rest flags (length_after t (int (length bs)) (length b))
        (pre @ [(name, v)]) (r @ s) = Inr (((pre @ [(name, v)]) @ kws', length r), s)"
    proof (cases "budgeted t")
      case True
      with last rest empty show ?thesis by simp
    next
      case False
      then obtain ti where "t = Item ti" by (cases t) auto
      then have "length_after t (int (length bs)) (length b) = int (length r)" by (simp add: bs)
      with Cons.IH [OF rest r] show ?thesis by simp
    qed
    ultimately show ?thesis using True by (simp add: f bs kws)
  qed
qed simp

definition wire_packet :: "packet_class \<Rightarrow> nat \<Rightarrow> kwargs \<Rightarrow> py_error + bytes" where
  "wire_packet cls flags kws =
     bindR (wire_payload (packet_fields cls) (flags_from_int cls (int flags)) [] kws) (\<lambda>payload.
       Inr (word_of_nat (type_code cls * 16 + flags) # length_bytes (length payload) @ payload))"

lemma read_wire_packet:
  assumes "payload_ok (packet_fields cls) (flags_from_int cls (int flags)) [] kws" and "flags < 16"
    and "wire_payload (packet_fields cls) (flags_from_int cls (int flags)) [] kws = Inr payload"
    and "length payload < 128 ^ 4"
  shows "read_next_packet
      (word_of_nat (type_code cls * 16 + flags) # length_bytes (length payload) @ payload @ s) =
    Inr (\<lparr>pk_class = cls, pk_flags = flags_from_int cls (int flags), pk_length = length payload,
          pk_kwargs = kws\<rparr>, s)"
proof -
  have "decode_packet_length (length_bytes (length payload) @ (payload @ s)) = Inr (length payload, payload @ s)"
    using assms(4) by (simp only: decode_packet_length_bytes) simp
  then have "read_packet cls flags (length_bytes (length payload) @ payload @ s) =
    Inr (\<lparr>pk_class = cls, pk_flags = flags_from_int cls (int flags), pk_length = length payload,
          pk_kwargs = kws\<rparr>, s)"
    using read_payload_wire [OF assms(1,3), of s] by (simp add: read_packet_def)
  then show ?thesis
    using header_byte [OF type_code_less assms(2), of cls "length_bytes (length payload) @ payload @ s"]
    unfolding read_next_packet_def by (simp add: infer_type_code)
qed

text \<open>
  C35: Framing. A packet of any class, written as the protocol lays it out, is read back with
  the same class, flags and field values, exactly its own bytes are consumed, and what follows
  on the connection is left for the next packet.
\<close>

theorem read_back_any_packet:
  assumes "payload_ok (packet_fields cls) (flags_from_int cls (int flags)) [] kws" and "flags < 16"
    and "wire_packet cls flags kws = Inr bs" and "length bs < 128 ^ 4"
  shows "\<exists>len. read_next_packet (bs @ s) =
    Inr (\<lparr>pk_class = cls, pk_flags = flags_from_int cls (int flags), pk_length = len, pk_kwargs = kws\<rparr>, s)
    \<and> len < length bs"
proof -
  obtain payload where p: "wire_payload (packet_fields cls) (flags_from_int cls (int flags)) [] kws = Inr payload"
    and bs: "bs = word_of_nat (type_code cls * 16 + flags) # length_bytes (length payload) @ payload"
    using assms(3) by (auto simp: wire_packet_def res_simps)
  have "length payload < length bs" by (simp add: bs)
  with read_wire_packet [OF assms(1,2) p, of s] assms(4) show ?thesis by (auto simp: bs)
qed

definition demo_subscribe :: kwargs where
  "demo_subscribe = [(''id'', Value (VInt 1)),
     (''requests'', Records [[(''topic'', VStr ''a/b''), (''qos'', VInt 1)]])]"

lemma raw_bytes_code: "raw_bytes ''a/b'' = [97, 47, 98]"
  by (simp add: raw_bytes_def char_byte_def)

lemma read_back_any_packet_witness:
  "\<exists>len. read_next_packet ([0x82, 8, 0, 1, 0, 3, 97, 47, 98, 1] @ [0xC0, 0]) =
    Inr (\<lparr>pk_class = SubscribePacket, pk_flags = FlagInt 2, pk_length = len, pk_kwargs = demo_subscribe\<rparr>,
         [0xC0, 0])"
proof -
  have f: "flags_from_int SubscribePacket (int 2) = FlagInt 2" by (simp add: flags_from_int_def)
  have ok: "payload_ok (packet_fields SubscribePacket) (flags_from_int SubscribePacket (int 2)) [] demo_subscribe"
    by (simp add: demo_subscribe_def enabled_default_def request_fields_def raw_bytes_code)
  have wire: "wire_packet SubscribePacket 2 demo_subscribe =
      Inr [0x82, 8, 0, 1, 0, 3, 97, 47, 98, 1]"
    by (simp add: wire_packet_def demo_subscribe_def enabled_default_def request_fields_def
        list_to_bytes_def pack_int_def py_encode_def raw_bytes_code length_bytes.simps)
  from read_back_any_packet [OF ok _ wire, of "[0xC0, 0]"] show ?thesis unfolding f by fastforce
qed

section \<open>What the broker writes\<close>

lemma or_nibbles:
  assumes "c < 16" and "0 \<le> f" and "f < 16"
  shows "push_bit 4 (int c) OR f = int c * 16 + (f :: int)"
proof -
  have f: "take_bit 4 f = f" using assms(2,3) by (simp add: take_bit_int_eq_self)
  have "push_bit 4 (int c) AND take_bit 4 f = 0"
    by (rule bit_eqI) (simp add: bit_simps)
  then show ?thesis
    using disjunctive_add_eq_or [of "push_bit 4 (int c)" f] by (simp add: f push_bit_eq_mult)
qed

lemma header_bytes:
  assumes "0 \<le> flags_int flags" and "flags_int flags < 16"
  shows "get_header_bytes cls flags n =
    Inr (word_of_nat (type_code cls * 16 + nat (flags_int flags)) # length_bytes n)"
proof -
  have "int (type_code cls) * 16 + flags_int flags < 256"
    using type_code_less [of cls] assms by linarith
  moreover have "int (type_code cls) * 16 + flags_int flags = int (type_code cls * 16 + nat (flags_int flags))"
    using assms(1) by simp
  then have "word_of_int (int (type_code cls) * 16 + flags_int flags) =
      (word_of_nat (type_code cls * 16 + nat (flags_int flags)) :: byte)"
    by (metis of_int_of_nat_eq)
  ultimately show ?thesis
    using assms by (simp add: get_header_bytes_def or_nibbles [OF type_code_less])
qed

text \<open>Conditions that look at the flags only do not care how much has been read.\<close>

fun writable :: "field_type \<Rightarrow> bool" where
  "writable (Item t) \<longleftrightarrow> t \<noteq> DynamicBytes \<and> t \<noteq> ConnectFlagsType"
| "writable (ListOf t) \<longleftrightarrow> True"
| "writable (ListOfRecord fs) \<longleftrightarrow> False"

lemma writable_bytes: "writable t \<Longrightarrow> field_ok t v \<Longrightarrow> field_to_bytes t v = wire_field t v"
proof (induction t v rule: field_ok.induct)
  case (1 t v)
  then show ?case by (cases t; cases v) simp_all
qed auto

lemma write_fields_wire:
  "payload_ok fs flags pre kws \<Longrightarrow> distinct (map fst fs) \<Longrightarrow>
   \<forall>f\<in>set fs. fst f \<notin> set (dkeys pre) \<and> writable (snd (snd f))
     \<and> (\<forall>k k'. fst (snd f) flags k = fst (snd f) flags k') \<Longrightarrow>
   write_fields fs flags (pre @ kws) = wire_payload fs flags pre kws"
proof (induction fs arbitrary: pre kws)
  case (Cons f rest)
  obtain name en t where f: "f = (name, en, t)" by (cases f)
  have en: "en flags (pre @ kws) = en flags pre" using Cons.prems(3) by (simp add: f)
  show ?case
  proof (cases "en flags pre")
    case True
    then obtain v kws' where kws: "kws = (name, v) # kws'" and ok: "field_ok t v"
      and rest: "payload_ok rest flags (pre @ [(name, v)]) kws'"
      using Cons.prems(1) by (auto simp: f split: list.splits)
    have "map_of pre name = None" using Cons.prems(3) by (simp add: f map_of_eq_None_iff)
    then have "map_of (pre @ kws) name = Some v" by (simp add: kws map_add_def)
    moreover have "write_fields rest flags ((pre @ [(name, v)]) @ kws') = wire_payload rest flags (pre @ [(name, v)]) kws'"
      by (rule Cons.IH [OF rest]) (use Cons.prems(2,3) in \<open>auto simp: f\<close>)
    moreover have "field_to_bytes t v = wire_field t v"
      using writable_bytes [OF _ ok] Cons.prems(3) by (simp add: f)
    ultimately show ?thesis using True en by (simp add: f kws)
  next
    case False
    then have "write_fields rest flags (pre @ kws) = wire_payload rest flags pre kws"
      using Cons.prems by (intro Cons.IH) (auto simp: f)
    with False en show ?thesis by (simp add: f)
  qed
qed simp

lemma server_write_wire:
  assumes "payload_ok (packet_fields cls) flags [] kws" and "cls \<noteq> ConnectPacket" and "cls \<noteq> SubscribePacket"
  shows "write_fields (packet_fields cls) flags kws = wire_payload (packet_fields cls) flags [] kws"
  using write_fields_wire [OF assms(1)] assms(2,3)
  by (cases cls) (simp_all add: enabled_default_def enable_id_def)

text \<open>
  What the broker writes can be read. For every class the broker writes, the bytes of a
  packet with field values in range are read back as the same packet and nothing more is
  consumed.
\<close>

theorem write_read_round_trip:
  assumes "packet_to_bytes cls flags kws = Inr bs" and "payload_ok (packet_fields cls) flags [] kws"
    and "cls \<noteq> ConnectPacket" and "cls \<noteq> SubscribePacket"
    and "0 \<le> flags_int flags" and "flags_int flags < 16" and "flags = flags_from_int cls (flags_int flags)"
    and "length bs < 268435456"
  shows "\<exists>len. read_next_packet (bs @ s) =
    Inr (\<lparr>pk_class = cls, pk_flags = flags, pk_length = len, pk_kwargs = kws\<rparr>, s)"
proof -
  let ?f = "nat (flags_int flags)"
  have f: "flags_from_int cls (int ?f) = flags" using assms(5,7) by simp
  obtain payload where p: "wire_payload (packet_fields cls) flags [] kws = Inr payload"
    and bs: "bs = word_of_nat (type_code cls * 16 + ?f) # length_bytes (length payload) @ payload"
    using assms(1) by (auto simp: packet_to_bytes_def res_simps header_bytes [OF assms(5,6)]
        server_write_wire [OF assms(2-4)])
  have "?f < 16" using assms(6) by simp
  with read_wire_packet [of cls ?f kws payload s, unfolded f, OF assms(2) _ p] assms(8)
  show ?thesis by (auto simp: bs)
qed

lemma write_read_round_trip_witness:
  "\<exists>len. read_next_packet ([0x90, 3, 0, 7, 1] @ []) =
    Inr (\<lparr>pk_class = SubscribeAcknowledgePacket, pk_flags = FlagInt 0, pk_length = len,
          pk_kwargs = [(''id'', Value (VInt 7)), (''response_codes'', Items [VInt 1])]\<rparr>, [])"
  by (rule write_read_round_trip)
     (simp_all add: packet_to_bytes_def enabled_default_def pack_int_def list_to_bytes_def
       get_header_bytes_def length_bytes.simps flags_from_int_def)

section \<open>Flags\<close>

lemma less_4_cases: "0 \<le> q \<Longrightarrow> q < 4 \<Longrightarrow> q = 0 \<or> q = 1 \<or> q = 2 \<or> q = (3 :: int)"
  by arith

text \<open>
  The flags of PUBLISH. A quality of service of two bits and the retain bit survive the
  header, in the lower three bits; and the quality of service read from any header is between
  0 and 3.
\<close>

theorem publish_flags_round_trip:
  "(0 \<le> q \<and> q < 4 \<longrightarrow>
      publish_flags_from_int (pf_data (publish_flags_from_kwargs q r)) = publish_flags_from_kwargs q r
      \<and> 0 \<le> pf_data (publish_flags_from_kwargs q r) \<and> pf_data (publish_flags_from_kwargs q r) < 8)
   \<and> 0 \<le> pf_qos (publish_flags_from_int n) \<and> pf_qos (publish_flags_from_int n) \<le> 3"
proof -
  have "0 \<le> n AND 6" by simp
  moreover have "(n AND 6) div 2 \<le> 6 div 2" by (rule zdiv_mono1) (auto intro: AND_upper2)
  ultimately have "0 \<le> qos_flag_read n \<and> qos_flag_read n \<le> 3"
    by (simp add: qos_flag_read_def drop_bit_eq_div)
  moreover have "publish_flags_from_int (pf_data (publish_flags_from_kwargs q r)) = publish_flags_from_kwargs q r
      \<and> 0 \<le> pf_data (publish_flags_from_kwargs q r) \<and> pf_data (publish_flags_from_kwargs q r) < 8"
    if "0 \<le> q" "q < 4"
    using less_4_cases [OF that]
    by (cases r) (auto simp: publish_flags_from_int_def publish_flags_from_kwargs_def set_flag_def
        qos_flag_write_def qos_flag_read_def drop_bit_eq_div push_bit_eq_mult)
  ultimately show ?thesis by (simp add: publish_flags_from_int_def)
qed

lemma publish_flags_round_trip_witness:
  "publish_flags_from_int (pf_data (publish_flags_from_kwargs 2 True)) = publish_flags_from_kwargs 2 True"
  using publish_flags_round_trip [of 2 True 0] by simp

section \<open>Packets without fields\<close>

text \<open>
  A class without fields (PINGREQ, PINGRESP, AUTH) reads nothing but the header, whatever
  remaining length the header announces: the announced bytes stay on the connection and the
  next packet is read from them.
\<close>

theorem blank_packet_leaves_payload:
  assumes "packet_fields cls = []" and "n < 268435456" and "f < 16"
  shows "read_next_packet (word_of_nat (type_code cls * 16 + f) # length_bytes n @ payload) =
    Inr (\<lparr>pk_class = cls, pk_flags = flags_from_int cls (int f), pk_length = n, pk_kwargs = []\<rparr>, payload)"
proof -
  have "decode_packet_length (length_bytes n @ payload) = Inr (n, payload)"
    using assms(2) by (simp add: decode_packet_length_bytes)
  then have "read_packet cls f (length_bytes n @ payload) =
      Inr (\<lparr>pk_class = cls, pk_flags = flags_from_int cls (int f), pk_length = n, pk_kwargs = []\<rparr>, payload)"
    by (simp add: read_packet_def assms(1))
  then show ?thesis
    using header_byte [OF type_code_less assms(3), of cls "length_bytes n @ payload"]
    unfolding read_next_packet_def by (simp add: infer_type_code)
qed

lemma blank_packet_leaves_payload_witness:
  "read_next_packet [0xF0, 2, 0xC0, 0] = Inr (\<lparr>pk_class = AuthPacket, pk_flags = FlagInt 0,
     pk_length = 2, pk_kwargs = []\<rparr>, [0xC0, 0])"
  using blank_packet_leaves_payload [of AuthPacket 2 0 "[0xC0, 0]"]
  by (simp add: flags_from_int_def length_bytes.simps)

section \<open>Text that does not decode\<close>

text \<open>
  Reading a text field never fails because of its bytes: octets that are not UTF-8 are
  answered as the printed form of a bytes literal, and the count is the same.
\<close>

theorem decode_str_total:
  assumes "length b < 65536"
  shows "decode_str (word_of_nat (length b div 256) # word_of_nat (length b mod 256) # b @ s) =
    Inr ((if utf8_valid b then raw_str b else bytes_repr b, length b + 2), s)"
proof -
  let ?n = "[word_of_nat (length b div 256), word_of_nat (length b mod 256)] :: bytes"
  have "length b div 256 < 256" using assms by (simp add: div_less_iff_less_mult)
  then have "unat (word_of_nat (length b div 256) :: byte) = length b div 256"
    "unat (word_of_nat (length b mod 256) :: byte) = length b mod 256"
    by (simp_all add: unat_of_nat)
  then have len: "from_big_endian ?n = length b" by simp
  have r: "read_bytes 2 (?n @ (b @ s)) = Inr (?n, b @ s)" by (rule read_two) simp
  have "b = [] \<Longrightarrow> raw_str b = []" by (simp add: raw_str_def)
  with r len show ?thesis
    unfolding decode_str_def by (cases "b = []") (simp_all add: unpack_H_def py_decode_def)
qed

lemma decode_str_total_witness:
  "decode_str [0, 2, 0x61, 0xFF] = Inr ((bytes_repr [0x61, 0xFF], 4), [])
   \<and> bytes_repr [0x61, 0xFF] = [CHR ''b'', CHR 0x27, CHR ''a'', CHR 0x5C, CHR ''x'', CHR ''f'', CHR ''f'', CHR 0x27]"
proof -
  have "bytes_repr [0x61, 0xFF] = [CHR ''b'', CHR 0x27, CHR ''a'', CHR 0x5C, CHR ''x'', CHR ''f'', CHR ''f'', CHR 0x27]"
    by code_simp
  moreover have "decode_str [0, 2, 0x61, 0xFF] = Inr ((bytes_repr [0x61, 0xFF], 4), [])"
    using decode_str_total [of "[0x61, 0xFF]" "[]"] by simp
  ultimately show ?thesis by blast
qed

end
