(* ===== verification/Session.thy ===== *)
theory Session
  imports Broker Packets
begin

text \<open>
  servers/handler.py: one connection of a client. Its read thread decodes packets and starts a
  thread for each request, its write thread sends the queued messages and waits for the
  acknowledgements of the client. A thread that waits for a packet is a value that says where
  it stopped; an operation that cannot go on yet answers \<open>None\<close>. Sets the code iterates over
  are lists in the order of the iteration, which the step relation of the theory \<open>World\<close> may
  change at any time.
\<close>

section \<open>State\<close>

text \<open>
  \<open>PacketCondition\<close>: \<open>cd_ref\<close> is the identity of its \<open>threading.Condition\<close>, which takes part
  in the comparison the dataclass generates.
\<close>

record condition =
  cd_ref :: nat
  cd_type_code :: nat
  cd_id :: int
  cd_result :: "packet option"

datatype thread = Start packet | AwaitRelease packet nat

datatype writer = Ready | AwaitAck outgoing_message nat nat | AwaitComplete nat nat | WriterDone

datatype reader = Connecting | Reading | ReaderDone

record handler =
  hd_id :: "string option"
  hd_last_will :: "incoming_message option"
  hd_alive :: bool
  hd_linked :: bool
  hd_override :: bool
  hd_subscriptions :: "string list"
  hd_used_ids :: "nat list"
  hd_conditions :: "condition list"
  hd_next_ref :: nat
  hd_keep_alive :: "int option"
  hd_open :: bool
  hd_in :: bytes
  hd_sent :: "bytes list"
  hd_threads :: "thread list"
  hd_writer :: writer
  hd_reader :: reader

definition new_connection :: handler where
  "new_connection =
     \<lparr>hd_id = None, hd_last_will = None, hd_alive = True, hd_linked = False, hd_override = False,
      hd_subscriptions = [], hd_used_ids = [], hd_conditions = [], hd_next_ref = 0,
      hd_keep_alive = None, hd_open = True, hd_in = [], hd_sent = [], hd_threads = [],
      hd_writer = Ready, hd_reader = Connecting\<rparr>"

section \<open>Packets of a connection\<close>

definition get_str :: "kwargs \<Rightarrow> string \<Rightarrow> py_error + string" where
  "get_str kws name =
     (case map_of kws name of Some (Value (VStr s)) \<Rightarrow> Inr s | _ \<Rightarrow> Inl AttributeError)"

definition get_int :: "kwargs \<Rightarrow> string \<Rightarrow> py_error + int" where
  "get_int kws name =
     (case map_of kws name of Some (Value (VInt i)) \<Rightarrow> Inr i | _ \<Rightarrow> Inl AttributeError)"

definition get_data :: "kwargs \<Rightarrow> string \<Rightarrow> py_error + bytes option" where
  "get_data kws name =
     (case map_of kws name of
        Some (Value (VBytes b)) \<Rightarrow> Inr (Some b)
      | Some (Value VNone) \<Rightarrow> Inr None
      | _ \<Rightarrow> Inl AttributeError)"

definition get_connect_flags :: "kwargs \<Rightarrow> py_error + connect_flags" where
  "get_connect_flags kws =
     (case map_of kws ''connect_flags'' of
        Some (Value (VConnectFlags f)) \<Rightarrow> Inr f | _ \<Rightarrow> Inl AttributeError)"

fun get_publish_flags :: "packet_flags \<Rightarrow> py_error + publish_flags" where
  "get_publish_flags (FlagGroup f) = Inr f"
| "get_publish_flags (FlagInt i) = Inl AttributeError"

text \<open>\<open>Packet.write\<close>: the bytes go to the socket in one piece; a closed socket raises.\<close>

definition write_packet ::
    "packet_class \<Rightarrow> packet_flags \<Rightarrow> kwargs \<Rightarrow> handler \<Rightarrow> (py_error + unit) \<times> handler" where
  "write_packet cls flags kws h =
     (case packet_to_bytes cls flags kws of
        Inl e \<Rightarrow> (Inl e, h)
      | Inr data \<Rightarrow>
          if hd_open h then (Inr (), h\<lparr>hd_sent := hd_sent h @ [data]\<rparr>) else (Inl ConnectionError, h))"

text \<open>The payload of an outgoing message; an object that is neither bytes, text nor None is refused.\<close>

fun data_value :: "pyobj \<Rightarrow> item_value" where
  "data_value PyNone = VNone"
| "data_value (PyBytes b) = VBytes b"
| "data_value (PyStr s) = VStr s"
| "data_value obj = VInt 0"

definition write_publish :: "outgoing_message \<Rightarrow> kwargs \<Rightarrow> handler \<Rightarrow> (py_error + unit) \<times> handler" where
  "write_publish m id_arg =
     write_packet PublishPacket (FlagGroup (publish_flags_from_kwargs (om_qos m) False))
       ([(''topic'', Value (VStr (om_topic m))), (''data'', Value (data_value (om_data m)))] @ id_arg)"

definition id_kwarg :: "int \<Rightarrow> kwargs" where
  "id_kwarg i = [(''id'', Value (VInt i))]"

section \<open>Packet ids and conditions\<close>

function next_id_loop :: "nat list \<Rightarrow> nat \<Rightarrow> py_error + nat" where
  "next_id_loop used i =
     (if i \<in> set used then (if i + 1 = 65535 then Inl TooManyPacketIds else next_id_loop used (i + 1))
      else Inr i)"
  by pat_completeness auto
termination
proof (relation "measure (\<lambda>(used, i). length (filter (\<lambda>j. i \<le> j) used))")
  fix used and i :: nat
  assume i: "i \<in> set used"
  have "length (filter (\<lambda>j. Suc i \<le> j) used) = length (filter (\<lambda>j. Suc i \<le> j) (filter (\<lambda>j. i \<le> j) used))"
    by (rule arg_cong [where f = length]) (simp, metis (mono_tags) Suc_leD)
  also have "\<dots> < length (filter (\<lambda>j. i \<le> j) used)"
    by (rule length_filter_less [of i]) (use i in auto)
  finally show "((used, i + 1), used, i) \<in> measure (\<lambda>(used, i). length (filter (\<lambda>j. i \<le> j) used))"
    by simp
qed simp

declare next_id_loop.simps [simp del]

definition next_packet_id :: "nat list \<Rightarrow> py_error + nat" where
  "next_packet_id used = next_id_loop used 0"

definition release_id :: "nat \<Rightarrow> handler \<Rightarrow> handler" where
  "release_id pid h = h\<lparr>hd_used_ids := remove1 pid (hd_used_ids h)\<rparr>"

definition create_packet_condition :: "packet_class \<Rightarrow> int \<Rightarrow> handler \<Rightarrow> (py_error + nat) \<times> handler" where
  "create_packet_condition cls pid h =
     (let ref = hd_next_ref h; h1 = h\<lparr>hd_next_ref := Suc ref\<rparr>;
          c = \<lparr>cd_ref = ref, cd_type_code = type_code cls, cd_id = pid, cd_result = None\<rparr>
      in if c \<in> set (hd_conditions h1) then (Inl KeyError, h1)
         else (Inr ref, h1\<lparr>hd_conditions := hd_conditions h1 @ [c]\<rparr>))"

text \<open>\<open>wait_for_packet\<close>: blocked while the condition has no result.\<close>

definition wait_for_packet :: "nat \<Rightarrow> handler \<Rightarrow> (packet \<times> handler) option" where
  "wait_for_packet ref h =
     (case List.find (\<lambda>c. cd_ref c = ref) (hd_conditions h) of
        None \<Rightarrow> None
      | Some c \<Rightarrow>
          (case cd_result c of
             None \<Rightarrow> None
           | Some p \<Rightarrow> Some (p, h\<lparr>hd_conditions := filter (\<lambda>c. cd_ref c \<noteq> ref) (hd_conditions h)\<rparr>)))"

fun meet_first :: "nat \<Rightarrow> int \<Rightarrow> packet \<Rightarrow> condition list \<Rightarrow> condition list option" where
  "meet_first code pid p [] = None"
| "meet_first code pid p (c # cs) =
     (if cd_type_code c = code \<and> cd_id c = pid then Some (c\<lparr>cd_result := Some p\<rparr> # cs)
      else map_option ((#) c) (meet_first code pid p cs))"

definition packet_notify :: "packet \<Rightarrow> handler \<Rightarrow> (py_error + bool) \<times> handler" where
  "packet_notify p h =
     (case get_int (pk_kwargs p) ''id'' of
        Inl e \<Rightarrow> (if hd_conditions h = [] then Inr False else Inl e, h)
      | Inr pid \<Rightarrow>
          (case meet_first (type_code (pk_class p)) pid p (hd_conditions h) of
             None \<Rightarrow> (Inr False, h)
           | Some cs \<Rightarrow> (Inr True, h\<lparr>hd_conditions := cs\<rparr>)))"

section \<open>Sending a message\<close>

text \<open>
  \<open>send_message\<close> up to its first wait, from there to the second, and from there to its end.
  The \<open>finally\<close> clause gives the packet id back on every way out.
\<close>

definition or_release :: "nat \<Rightarrow> (py_error + writer) \<times> handler \<Rightarrow> (py_error + writer) \<times> handler" where
  "or_release pid res =
     (case res of (Inl e, h) \<Rightarrow> (Inl e, release_id pid h) | (Inr w, h) \<Rightarrow> (Inr w, h))"

definition send_message :: "outgoing_message \<Rightarrow> handler \<Rightarrow> (py_error + writer) \<times> handler" where
  "send_message m h =
     (if om_qos m = 0 then
        (let (r, h1) = write_publish m [] h in (bindR r (\<lambda>_. Inr Ready), h1))
      else
        (case next_packet_id (hd_used_ids h) of
           Inl e \<Rightarrow> (Inl e, h)
         | Inr pid \<Rightarrow>
             (let h1 = h\<lparr>hd_used_ids := List.insert pid (hd_used_ids h)\<rparr>;
                  cls = (if om_qos m = 1 then PublishAcknowledgePacket else PublishReceivedPacket)
              in or_release pid
                   (case create_packet_condition cls (int pid) h1 of
                      (Inl e, h2) \<Rightarrow> (Inl e, h2)
                    | (Inr c, h2) \<Rightarrow>
                        (let (r, h3) = write_publish m (id_kwarg (int pid)) h2
                         in (bindR r (\<lambda>_. Inr (AwaitAck m pid c)), h3))))))"

definition send_acknowledged ::
    "outgoing_message \<Rightarrow> nat \<Rightarrow> nat \<Rightarrow> handler \<Rightarrow> ((py_error + writer) \<times> handler) option" where
  "send_acknowledged m pid c h =
     (case wait_for_packet c h of
        None \<Rightarrow> None
      | Some (_, h1) \<Rightarrow>
          Some (if om_qos m = 2 then
                  or_release pid
                    (case create_packet_condition PublishCompletePacket (int pid) h1 of
                       (Inl e, h2) \<Rightarrow> (Inl e, h2)
                     | (Inr c', h2) \<Rightarrow>
                         (let (r, h3) = write_packet PublishReleasedPacket (FlagInt 0) (id_kwarg (int pid)) h2
                          in (bindR r (\<lambda>_. Inr (AwaitComplete pid c')), h3)))
                else (Inr Ready, release_id pid h1)))"

definition send_completed :: "nat \<Rightarrow> nat \<Rightarrow> handler \<Rightarrow> ((py_error + writer) \<times> handler) option" where
  "send_completed pid c h =
     (case wait_for_packet c h of
        None \<Rightarrow> None
      | Some (_, h1) \<Rightarrow> Some (Inr Ready, release_id pid h1))"
section \<open>Ending a connection\<close>

text \<open>
  \<open>close\<close> of the connection, given the error number of \<open>shutdown\<close>, if it fails: 9 (no such
  descriptor) and 107 (not connected) are what a closed socket answers, and are ignored; with
  another one the socket stays open.
\<close>

definition close_socket :: "int option \<Rightarrow> handler \<Rightarrow> (py_error + unit) \<times> handler" where
  "close_socket errno h =
     (let h1 = h\<lparr>hd_alive := False\<rparr>
      in case errno of
           Some e \<Rightarrow> if e \<notin> {9, 107} then (Inl OSError, h1) else (Inr (), h1\<lparr>hd_open := False\<rparr>)
         | None \<Rightarrow> (Inr (), h1\<lparr>hd_open := False\<rparr>))"

text \<open>A session's socket has been accepted and is shut down for both directions: no other number comes up.\<close>

definition close_handler :: "handler \<Rightarrow> handler" where
  "close_handler h = snd (close_socket None h)"

lemma close_handler_eq: "close_handler h = h\<lparr>hd_alive := False, hd_open := False\<rparr>"
  by (simp add: close_handler_def close_socket_def)

lemma close_socket_closes:
  "close_socket errno h = (Inr (), close_handler h) \<or> (\<exists>e. errno = Some e \<and> e \<noteq> 9 \<and> e \<noteq> 107
     \<and> close_socket errno h = (Inl OSError, h\<lparr>hd_alive := False\<rparr>))"
  by (cases errno) (auto simp: close_socket_def close_handler_eq Let_def)

text \<open>The key of the client in the broker; before CONNECT there is nothing stored under it.\<close>

definition client_key :: "handler \<Rightarrow> string" where
  "client_key h = (case hd_id h of None \<Rightarrow> [] | Some c \<Rightarrow> c)"

definition handle_disconnected ::
    "(string \<Rightarrow> py_error + pyobj) \<Rightarrow> handler \<Rightarrow> broker \<Rightarrow> (py_error + unit) \<times> broker" where
  "handle_disconnected loads h br =
     (case unsubscribe (client_key h) (hd_subscriptions h) br of
        (Inl e, br1) \<Rightarrow> (Inl e, br1)
      | (Inr _, br1) \<Rightarrow>
          if hd_override h then (Inr (), br1)
          else
            (let br2 = remove_client (hd_id h) br1
             in case hd_last_will h of
                  None \<Rightarrow> (Inr (), br2)
                | Some will \<Rightarrow> publish loads will br2))"

definition disconnect ::
    "(string \<Rightarrow> py_error + pyobj) \<Rightarrow> handler \<Rightarrow> broker \<Rightarrow> handler \<times> broker" where
  "disconnect loads h br =
     (let h1 = close_handler (h\<lparr>hd_linked := False\<rparr>)
      in (h1, snd (handle_disconnected loads h1 br)))"

definition override_connection ::
    "(string \<Rightarrow> py_error + pyobj) \<Rightarrow> handler \<Rightarrow> broker \<Rightarrow> handler \<times> broker" where
  "override_connection loads h br = disconnect loads (h\<lparr>hd_override := True\<rparr>) br"

text \<open>The \<open>finally\<close> clause of the read loop, and the handler of the write loop.\<close>

definition leave_loop ::
    "(string \<Rightarrow> py_error + pyobj) \<Rightarrow> handler \<Rightarrow> broker \<Rightarrow> handler \<times> broker" where
  "leave_loop loads h br =
     (let h1 = close_handler h
      in (h1, if hd_linked h1 then snd (handle_disconnected loads h1 br) else br))"

section \<open>Requests\<close>

definition last_will :: "kwargs \<Rightarrow> py_error + incoming_message" where
  "last_will kws =
     bindR (get_str kws ''last_will_topic'') (\<lambda>topic.
       bindR (get_data kws ''last_will_message'') (\<lambda>data.
         bindR (get_connect_flags kws) (\<lambda>flags.
           from_raw_data topic data (cf_last_will_qos flags) (cf_retain_last_will flags))))"

definition get_last_will :: "kwargs \<Rightarrow> py_error + incoming_message option" where
  "get_last_will kws =
     bindR (get_connect_flags kws) (\<lambda>flags.
       if cf_enable_last_will flags then bindR (last_will kws) (\<lambda>m. Inr (Some m)) else Inr None)"

definition message_from_packet :: "packet \<Rightarrow> py_error + incoming_message" where
  "message_from_packet p =
     bindR (get_str (pk_kwargs p) ''topic'') (\<lambda>topic.
       bindR (get_data (pk_kwargs p) ''data'') (\<lambda>data.
         bindR (get_publish_flags (pk_flags p)) (\<lambda>flags.
           from_raw_data topic data (pf_qos flags) (pf_retain flags))))"

definition publish_packet_data ::
    "(string \<Rightarrow> py_error + pyobj) \<Rightarrow> packet \<Rightarrow> broker \<Rightarrow> (py_error + unit) \<times> broker" where
  "publish_packet_data loads p br =
     (case message_from_packet p of Inl e \<Rightarrow> (Inl e, br) | Inr m \<Rightarrow> publish loads m br)"

definition handle_ping_request :: "handler \<Rightarrow> (py_error + unit) \<times> handler" where
  "handle_ping_request = write_packet PingResponsePacket (FlagInt 0) []"

definition handle_publish_qos_1 ::
    "(string \<Rightarrow> py_error + pyobj) \<Rightarrow> packet \<Rightarrow> handler \<Rightarrow> broker \<Rightarrow> (py_error + unit) \<times> handler \<times> broker" where
  "handle_publish_qos_1 loads p h br =
     (case get_int (pk_kwargs p) ''id'' of
        Inl e \<Rightarrow> (Inl e, h, br)
      | Inr i \<Rightarrow>
          (case publish_packet_data loads p br of
             (Inl e, br1) \<Rightarrow> (Inl e, h, br1)
           | (Inr _, br1) \<Rightarrow>
               (let (r, h1) = write_packet PublishAcknowledgePacket (FlagInt 0) (id_kwarg i) h
                in (r, h1, br1))))"

text \<open>Up to the wait for PUBREL, and from there to the end.\<close>

definition handle_publish_qos_2 :: "packet \<Rightarrow> handler \<Rightarrow> (py_error + nat) \<times> handler" where
  "handle_publish_qos_2 p h =
     (case get_int (pk_kwargs p) ''id'' of
        Inl e \<Rightarrow> (Inl e, h)
      | Inr i \<Rightarrow>
          (case create_packet_condition PublishReleasedPacket i h of
             (Inl e, h1) \<Rightarrow> (Inl e, h1)
           | (Inr c, h1) \<Rightarrow>
               (let (r, h2) = write_packet PublishReceivedPacket (FlagInt 0) (id_kwarg i) h1
                in (bindR r (\<lambda>_. Inr c), h2))))"

definition finish_publish_qos_2 ::
    "(string \<Rightarrow> py_error + pyobj) \<Rightarrow> packet \<Rightarrow> nat \<Rightarrow> handler \<Rightarrow> broker
     \<Rightarrow> ((py_error + unit) \<times> handler \<times> broker) option" where
  "finish_publish_qos_2 loads p c h br =
     (case wait_for_packet c h of
        None \<Rightarrow> None
      | Some (_, h1) \<Rightarrow>
          Some (case publish_packet_data loads p br of
                  (Inl e, br1) \<Rightarrow> (Inl e, h1, br1)
                | (Inr _, br1) \<Rightarrow>
                    (case get_int (pk_kwargs p) ''id'' of
                       Inl e \<Rightarrow> (Inl e, h1, br1)
                     | Inr i \<Rightarrow>
                         (let (r, h2) = write_packet PublishCompletePacket (FlagInt 0) (id_kwarg i) h1
                          in (r, h2, br1)))))"

text \<open>
  A handler that reaches its end answers no thread, one that waits answers the rest of itself.
  The quality indexes \<open>publish_map\<close>; read from two bits of the header it is never negative.
\<close>

definition publish_map ::
    "((string \<Rightarrow> py_error + pyobj) \<Rightarrow> packet \<Rightarrow> handler \<Rightarrow> broker
      \<Rightarrow> (py_error + thread option) \<times> handler \<times> broker) list" where
  "publish_map =
     [\<lambda>loads p h br. (let (r, br1) = publish_packet_data loads p br in (bindR r (\<lambda>_. Inr None), h, br1)),
      \<lambda>loads p h br. (let (r, h1, br1) = handle_publish_qos_1 loads p h br in (bindR r (\<lambda>_. Inr None), h1, br1)),
      \<lambda>loads p h br. (let (r, h1) = handle_publish_qos_2 p h in (bindR r (\<lambda>c. Inr (Some (AwaitRelease p c))), h1, br))]"

definition handle_publish ::
    "(string \<Rightarrow> py_error + pyobj) \<Rightarrow> packet \<Rightarrow> handler \<Rightarrow> broker
     \<Rightarrow> (py_error + thread option) \<times> handler \<times> broker" where
  "handle_publish loads p h br =
     (case get_publish_flags (pk_flags p) of
        Inl e \<Rightarrow> (Inl e, h, br)
      | Inr flags \<Rightarrow>
          if 0 \<le> pf_qos flags \<and> nat (pf_qos flags) < length publish_map
          then (publish_map ! nat (pf_qos flags)) loads p h br
          else (Inl IndexError, h, br))"

lemma handle_publish_eq:
  "handle_publish loads p h br =
     (case get_publish_flags (pk_flags p) of
        Inl e \<Rightarrow> (Inl e, h, br)
      | Inr flags \<Rightarrow>
          if pf_qos flags = 0 then
            (let (r, br1) = publish_packet_data loads p br in (bindR r (\<lambda>_. Inr None), h, br1))
          else if pf_qos flags = 1 then
            (let (r, h1, br1) = handle_publish_qos_1 loads p h br in (bindR r (\<lambda>_. Inr None), h1, br1))
          else if pf_qos flags = 2 then
            (let (r, h1) = handle_publish_qos_2 p h in (bindR r (\<lambda>c. Inr (Some (AwaitRelease p c))), h1, br))
          else (Inl IndexError, h, br))"
proof (cases "get_publish_flags (pk_flags p)")
  case (Inr flags)
  consider "pf_qos flags = 0" | "pf_qos flags = 1" | "pf_qos flags = 2" | "pf_qos flags < 0" | "2 < pf_qos flags" by linarith
  then show ?thesis
  proof cases
    case 5
    then have "\<not> nat (pf_qos flags) < Suc (Suc (Suc 0))" by simp
    with 5 show ?thesis by (simp add: Inr handle_publish_def publish_map_def)
  qed (simp_all add: Inr handle_publish_def publish_map_def nth_Cons')
qed (simp add: handle_publish_def)

text \<open>\<open>using_packet_id\<close>, which nothing calls: the id is in use while the function runs.\<close>

definition using_packet_id ::
    "(packet \<Rightarrow> handler \<Rightarrow> (py_error + 'a) \<times> handler) \<Rightarrow> packet \<Rightarrow> handler \<Rightarrow> (py_error + 'a) \<times> handler" where
  "using_packet_id func p h =
     (case get_int (pk_kwargs p) ''id'' of
        Inl e \<Rightarrow> (Inl e, h)
      | Inr i \<Rightarrow>
          (let (r, h1) = func p (h\<lparr>hd_used_ids := List.insert (nat i) (hd_used_ids h)\<rparr>)
           in if nat i \<in> set (hd_used_ids h1) then (r, h1\<lparr>hd_used_ids := remove1 (nat i) (hd_used_ids h1)\<rparr>)
              else (Inl KeyError, h1)))"

definition request_of :: "(string \<times> item_value) list \<Rightarrow> py_error + string \<times> int" where
  "request_of kvs =
     (case (map_of kvs ''topic'', map_of kvs ''qos'') of
        (Some (VStr t), Some (VInt q)) \<Rightarrow> Inr (t, q) | _ \<Rightarrow> Inl AttributeError)"

fun subscribe_loop ::
    "(string \<Rightarrow> py_error + pyobj) \<Rightarrow> ref \<Rightarrow> (string \<times> item_value) list list \<Rightarrow> int list \<Rightarrow> handler \<Rightarrow> broker
     \<Rightarrow> (py_error + int list) \<times> handler \<times> broker" where
  "subscribe_loop tq r [] response_codes h br = (Inr response_codes, h, br)"
| "subscribe_loop tq r (request # requests) response_codes h br =
     (case request_of request of
        Inl e \<Rightarrow> (Inl e, h, br)
      | Inr (topic, qos) \<Rightarrow>
          if topic = [] then (Inl IndexError, h, br)
          else
            (let tree = (hd topic = TOPIC_SEP); topic_str = (if tree then tl topic else topic)
             in case subscribe tq (client_key h) r topic_str qos tree br of
                  (Inl e, br1) \<Rightarrow> (Inl e, h, br1)
                | (Inr True, br1) \<Rightarrow>
                    subscribe_loop tq r requests (response_codes @ [qos])
                      (h\<lparr>hd_subscriptions := List.insert topic_str (hd_subscriptions h)\<rparr>) br1
                | (Inr False, br1) \<Rightarrow> subscribe_loop tq r requests (response_codes @ [0x80]) h br1))"

definition handle_subscribe ::
    "(string \<Rightarrow> py_error + pyobj) \<Rightarrow> ref \<Rightarrow> packet \<Rightarrow> handler \<Rightarrow> broker
     \<Rightarrow> (py_error + unit) \<times> handler \<times> broker" where
  "handle_subscribe tq r p h br =
     (case map_of (pk_kwargs p) ''requests'' of
        Some (Records requests) \<Rightarrow>
          (case subscribe_loop tq r requests [] h br of
             (Inl e, h1, br1) \<Rightarrow> (Inl e, h1, br1)
           | (Inr response_codes, h1, br1) \<Rightarrow>
               (case get_int (pk_kwargs p) ''id'' of
                  Inl e \<Rightarrow> (Inl e, h1, br1)
                | Inr i \<Rightarrow>
                    (let (x, h2) = write_packet SubscribeAcknowledgePacket (FlagInt 0)
                           (id_kwarg i @ [(''response_codes'', Items (map VInt response_codes))]) h1
                     in (x, h2, br1))))
      | _ \<Rightarrow> (Inl AttributeError, h, br))"

fun unsubscribe_loop ::
    "int \<Rightarrow> item_value list \<Rightarrow> handler \<Rightarrow> broker \<Rightarrow> (py_error + unit) \<times> handler \<times> broker" where
  "unsubscribe_loop i [] h br = (Inr (), h, br)"
| "unsubscribe_loop i (VStr topic # topics) h br =
     (case unsubscribe (client_key h) [topic] br of
        (Inl e, br1) \<Rightarrow> (Inl e, h, br1)
      | (Inr False, br1) \<Rightarrow> unsubscribe_loop i topics h br1
      | (Inr True, br1) \<Rightarrow>
          (case write_packet UnsubscribeAcknowledgePacket (FlagInt 0) (id_kwarg i)
                  (h\<lparr>hd_subscriptions := remove1 topic (hd_subscriptions h)\<rparr>) of
             (Inl e, h1) \<Rightarrow> (Inl e, h1, br1)
           | (Inr _, h1) \<Rightarrow> unsubscribe_loop i topics h1 br1))"
| "unsubscribe_loop i (v # topics) h br = (Inl AttributeError, h, br)"

definition handle_unsubscribe ::
    "packet \<Rightarrow> handler \<Rightarrow> broker \<Rightarrow> (py_error + unit) \<times> handler \<times> broker" where
  "handle_unsubscribe p h br =
     (case (map_of (pk_kwargs p) ''topics'', get_int (pk_kwargs p) ''id'') of
        (Some (Items topics), Inr i) \<Rightarrow> unsubscribe_loop i topics h br
      | _ \<Rightarrow> (Inl AttributeError, h, br))"

section \<open>The threads of a connection\<close>

text \<open>\<open>packet_map\<close>, and the classes with a packet id.\<close>

definition packet_map :: "packet_class \<Rightarrow> bool" where
  "packet_map cls \<longleftrightarrow>
     cls \<in> {PingRequestPacket, SubscribePacket, UnsubscribePacket, PublishPacket}"

definition packet_with_id :: "packet_class \<Rightarrow> bool" where
  "packet_with_id cls \<longleftrightarrow>
     cls \<in> {PublishPacket, PublishAcknowledgePacket, PublishReceivedPacket, PublishReleasedPacket,
            PublishCompletePacket, SubscribePacket, SubscribeAcknowledgePacket, UnsubscribePacket,
            UnsubscribeAcknowledgePacket}"

definition handle_packet :: "packet \<Rightarrow> handler \<Rightarrow> (py_error + unit) \<times> handler" where
  "handle_packet p h =
     (if packet_map (pk_class p) then (Inr (), h\<lparr>hd_threads := hd_threads h @ [Start p]\<rparr>)
      else if packet_with_id (pk_class p) then
        (case packet_notify p h of
           (Inl e, h1) \<Rightarrow> (Inl e, h1)
         | (Inr True, h1) \<Rightarrow> (Inr (), h1)
         | (Inr False, h1) \<Rightarrow> (Inl UnexpectedPacketType, h1))
      else (Inl UnexpectedPacketType, h))"

text \<open>
  One run of a thread: a handler runs until it ends, raises (which ends the thread) or waits;
  \<open>None\<close> when it still waits.
\<close>

definition start_thread ::
    "(string \<Rightarrow> py_error + pyobj) \<Rightarrow> (string \<Rightarrow> py_error + pyobj) \<Rightarrow> ref \<Rightarrow> packet \<Rightarrow> handler \<Rightarrow> broker
     \<Rightarrow> (py_error + thread option) \<times> handler \<times> broker" where
  "start_thread loads tq r p h br =
     (if pk_class p = PingRequestPacket then
        (let (x, h1) = handle_ping_request h in (bindR x (\<lambda>_. Inr None), h1, br))
      else if pk_class p = SubscribePacket then
        (let (x, h1, br1) = handle_subscribe tq r p h br in (bindR x (\<lambda>_. Inr None), h1, br1))
      else if pk_class p = UnsubscribePacket then
        (let (x, h1, br1) = handle_unsubscribe p h br in (bindR x (\<lambda>_. Inr None), h1, br1))
      else handle_publish loads p h br)"

fun run_thread ::
    "(string \<Rightarrow> py_error + pyobj) \<Rightarrow> (string \<Rightarrow> py_error + pyobj) \<Rightarrow> ref \<Rightarrow> thread \<Rightarrow> handler \<Rightarrow> broker
     \<Rightarrow> (handler \<times> broker) option" where
  "run_thread loads tq r (Start p) h br =
     (case start_thread loads tq r p h br of
        (Inr (Some t), h1, br1) \<Rightarrow> Some (h1\<lparr>hd_threads := hd_threads h1 @ [t]\<rparr>, br1)
      | (_, h1, br1) \<Rightarrow> Some (h1, br1))"
| "run_thread loads tq r (AwaitRelease p c) h br = map_option snd (finish_publish_qos_2 loads p c h br)"

text \<open>
  One round of the read loop: \<open>None\<close> while the peer has not sent a whole packet. When the loop
  is left the thread ends.
\<close>

definition end_reader ::
    "(string \<Rightarrow> py_error + pyobj) \<Rightarrow> handler \<Rightarrow> broker \<Rightarrow> handler \<times> broker" where
  "end_reader loads h br =
     (let (h1, br1) = leave_loop loads h br in (h1\<lparr>hd_reader := ReaderDone\<rparr>, br1))"

definition read_loop_round ::
    "(string \<Rightarrow> py_error + pyobj) \<Rightarrow> handler \<Rightarrow> broker \<Rightarrow> (handler \<times> broker) option" where
  "read_loop_round loads h br =
     (if hd_reader h \<noteq> Reading then None
      else if \<not> hd_alive h then Some (end_reader loads h br)
      else
        (case read_next_packet (hd_in h) of
           Inl e \<Rightarrow> (if e = ConnectionClosed then None else Some (end_reader loads h br))
         | Inr (p, rest) \<Rightarrow>
             (case handle_packet p (h\<lparr>hd_in := rest\<rparr>) of
                (Inl e, h1) \<Rightarrow> Some (end_reader loads h1 br)
              | (Inr _, h1) \<Rightarrow> Some (h1, br))))"

text \<open>
  One round of the write loop, from one wait to the next. Only a \<open>ConnectionError\<close> is handled;
  any other exception ends the thread and leaves the connection as it is.
\<close>

definition end_writer ::
    "(string \<Rightarrow> py_error + pyobj) \<Rightarrow> py_error \<Rightarrow> handler \<Rightarrow> broker \<Rightarrow> handler \<times> broker" where
  "end_writer loads e h br =
     (let (h1, br1) = (if e = ConnectionError then leave_loop loads h br else (h, br))
      in (h1\<lparr>hd_writer := WriterDone\<rparr>, br1))"

definition after_send ::
    "(string \<Rightarrow> py_error + pyobj) \<Rightarrow> (py_error + writer) \<times> handler \<Rightarrow> broker \<Rightarrow> handler \<times> broker" where
  "after_send loads res br =
     (case res of
        (Inl e, h) \<Rightarrow> end_writer loads e h br
      | (Inr w, h) \<Rightarrow> (h\<lparr>hd_writer := (if w = Ready \<and> \<not> hd_alive h then WriterDone else w)\<rparr>, br))"

definition write_loop_round ::
    "(string \<Rightarrow> py_error + pyobj) \<Rightarrow> ref \<Rightarrow> handler \<Rightarrow> broker \<Rightarrow> (handler \<times> broker) option" where
  "write_loop_round loads r h br =
     (case hd_writer h of
        WriterDone \<Rightarrow> None
      | Ready \<Rightarrow>
          (case br_queues br r of
             [] \<Rightarrow> None
           | m # ms \<Rightarrow>
               Some (after_send loads (send_message m h) (br\<lparr>br_queues := (br_queues br)(r := ms)\<rparr>)))
      | AwaitAck m pid c \<Rightarrow>
          map_option (\<lambda>res. after_send loads res br) (send_acknowledged m pid c h)
      | AwaitComplete pid c \<Rightarrow>
          map_option (\<lambda>res. after_send loads res br) (send_completed pid c h))"

end
