(* ===== verification/World.thy ===== *)
theory World
  imports Session "HOL-Library.Multiset"
begin

text \<open>
  The broker with all its connections: how a connection becomes a client (the first part of
  \<open>Handler.read_loop\<close> and \<open>Broker.add_client\<close>), and every interleaving of the threads as a
  step relation. A step runs one thread from one wait to the next; what the network does (bytes
  arrive, the connection breaks, the keep-alive time runs out) are steps as well.
\<close>

section \<open>State\<close>

record world =
  w_broker :: broker
  w_handlers :: "ref \<Rightarrow> handler option"

definition new_world :: world where
  "new_world = \<lparr>w_broker = new_broker, w_handlers = (\<lambda>_. None)\<rparr>"

definition put :: "ref \<Rightarrow> handler \<times> broker \<Rightarrow> world \<Rightarrow> world" where
  "put r s w = \<lparr>w_broker = snd s, w_handlers = (w_handlers w)(r \<mapsto> fst s)\<rparr>"

section \<open>Connecting\<close>

text \<open>\<open>Broker.add_client\<close>: a client that is connected under the same id is disconnected first.\<close>

definition add_session ::
    "(string \<Rightarrow> py_error + pyobj) \<Rightarrow> string \<Rightarrow> ref \<Rightarrow> handler \<Rightarrow> world \<Rightarrow> world" where
  "add_session loads cid r h w =
     (let br = w_broker w; hs = w_handlers w;
          override = (\<lambda>prev br. case hs prev of
              None \<Rightarrow> br | Some hp \<Rightarrow> snd (override_connection loads hp br));
          hs1 = (case br_clients br cid of
                   None \<Rightarrow> hs
                 | Some prev \<Rightarrow>
                     (case hs prev of
                        None \<Rightarrow> hs
                      | Some hp \<Rightarrow> hs(prev \<mapsto> fst (override_connection loads hp br))))
      in \<lparr>w_broker = add_client override cid r br, w_handlers = hs1(r \<mapsto> h)\<rparr>)"

text \<open>The read loop up to its first request; \<open>None\<close> while the CONNECT packet is not complete.\<close>

definition connect_client ::
    "(string \<Rightarrow> py_error + pyobj) \<Rightarrow> ref \<Rightarrow> handler \<Rightarrow> world \<Rightarrow> world option" where
  "connect_client loads r h w =
     (let fail = (\<lambda>h1. Some (put r (end_reader loads h1 (w_broker w)) w))
      in case read_packet_as ConnectPacket (hd_in h) of
           Inl e \<Rightarrow> (if e = ConnectionClosed then None else fail h)
         | Inr (p, rest) \<Rightarrow>
             (case (get_str (pk_kwargs p) ''client_id'', get_int (pk_kwargs p) ''keep_alive'') of
                (Inr cid, Inr keep_alive) \<Rightarrow>
                  (let h1 = h\<lparr>hd_in := rest, hd_id := Some cid\<rparr>
                   in case get_last_will (pk_kwargs p) of
                        Inl e \<Rightarrow> fail h1
                      | Inr will \<Rightarrow>
                          (case write_packet ConnectAcknowledgePacket (FlagInt 0)
                                  [(''session_parent'', Value (VInt 0)), (''return_code'', Value (VInt 0))]
                                  (h1\<lparr>hd_last_will := will\<rparr>) of
                             (Inl e, h2) \<Rightarrow> fail h2
                           | (Inr _, h2) \<Rightarrow>
                               Some (add_session loads cid r
                                 (h2\<lparr>hd_linked := True, hd_keep_alive := Some (keep_alive + 1),
                                     hd_reader := Reading\<rparr>) w)))
              | _ \<Rightarrow> fail h))"

section \<open>Steps\<close>

inductive step ::
    "(string \<Rightarrow> py_error + pyobj) \<Rightarrow> (string \<Rightarrow> py_error + pyobj) \<Rightarrow> world \<Rightarrow> world \<Rightarrow> bool"
  for loads tq where
  accept: "w_handlers w r = None \<Longrightarrow> step loads tq w (put r (new_connection, w_broker w) w)"
| receive: "w_handlers w r = Some h \<Longrightarrow>
    step loads tq w (put r (h\<lparr>hd_in := hd_in h @ bs\<rparr>, w_broker w) w)"
| break: "w_handlers w r = Some h \<Longrightarrow> step loads tq w (put r (h\<lparr>hd_open := False\<rparr>, w_broker w) w)"
| shuffle: "w_handlers w r = Some h \<Longrightarrow> mset ts = mset (hd_subscriptions h) \<Longrightarrow>
    mset cs = mset (hd_conditions h) \<Longrightarrow>
    step loads tq w (put r (h\<lparr>hd_subscriptions := ts, hd_conditions := cs\<rparr>, w_broker w) w)"
| connect: "w_handlers w r = Some h \<Longrightarrow> hd_reader h = Connecting \<Longrightarrow>
    connect_client loads r h w = Some w' \<Longrightarrow> step loads tq w w'"
| read: "w_handlers w r = Some h \<Longrightarrow> read_loop_round loads h (w_broker w) = Some s \<Longrightarrow>
    step loads tq w (put r s w)"
| lost: "w_handlers w r = Some h \<Longrightarrow> hd_reader h \<noteq> ReaderDone \<Longrightarrow>
    step loads tq w (put r (end_reader loads h (w_broker w)) w)"
| run: "w_handlers w r = Some h \<Longrightarrow> hd_threads h = ts @ t # ts' \<Longrightarrow>
    run_thread loads tq r t (h\<lparr>hd_threads := ts @ ts'\<rparr>) (w_broker w) = Some s \<Longrightarrow>
    step loads tq w (put r s w)"
| send: "w_handlers w r = Some h \<Longrightarrow> write_loop_round loads r h (w_broker w) = Some s \<Longrightarrow>
    step loads tq w (put r s w)"
| deliver: "main_loop_round (w_broker w) = Some br \<Longrightarrow> step loads tq w (w\<lparr>w_broker := br\<rparr>)"
| stop: "w_handlers w r = Some h \<Longrightarrow>
    step loads tq w (put r (disconnect loads h (w_broker w)) w)"

inductive_cases stepE: "step loads tq w w'"

inductive reachable ::
    "(string \<Rightarrow> py_error + pyobj) \<Rightarrow> (string \<Rightarrow> py_error + pyobj) \<Rightarrow> world \<Rightarrow> bool"
  for loads tq where
  start: "reachable loads tq new_world"
| next_step: "reachable loads tq w \<Longrightarrow> step loads tq w w' \<Longrightarrow> reachable loads tq w'"

end
