(* ===== verification/World_Safe.thy ===== *)
theory World_Safe
  imports World
begin

text \<open>
  What holds in every reachable state of the broker with all its connections: the trees are
  well-formed, the client list names connections with these ids, every registration is
  remembered by a connection of its client, and the packet ids in use are those of the message
  a connection is sending.
\<close>

section \<open>What the operations of a connection leave alone\<close>

lemma write_packet_fields [simp]:
  "hd_id (snd (write_packet cls flags kws h)) = hd_id h"
  "hd_last_will (snd (write_packet cls flags kws h)) = hd_last_will h"
  "hd_alive (snd (write_packet cls flags kws h)) = hd_alive h"
  "hd_linked (snd (write_packet cls flags kws h)) = hd_linked h"
  "hd_override (snd (write_packet cls flags kws h)) = hd_override h"
  "hd_subscriptions (snd (write_packet cls flags kws h)) = hd_subscriptions h"
  "hd_used_ids (snd (write_packet cls flags kws h)) = hd_used_ids h"
  "hd_conditions (snd (write_packet cls flags kws h)) = hd_conditions h"
  "hd_next_ref (snd (write_packet cls flags kws h)) = hd_next_ref h"
  "hd_open (snd (write_packet cls flags kws h)) = hd_open h"
  "hd_threads (snd (write_packet cls flags kws h)) = hd_threads h"
  "hd_writer (snd (write_packet cls flags kws h)) = hd_writer h"
  "hd_reader (snd (write_packet cls flags kws h)) = hd_reader h"
  by (simp_all add: write_packet_def split: sum.split)

lemma write_publish_fields [simp]:
  "hd_id (snd (write_publish m i h)) = hd_id h"
  "hd_subscriptions (snd (write_publish m i h)) = hd_subscriptions h"
  "hd_linked (snd (write_publish m i h)) = hd_linked h"
  "hd_used_ids (snd (write_publish m i h)) = hd_used_ids h"
  "hd_conditions (snd (write_publish m i h)) = hd_conditions h"
  "hd_next_ref (snd (write_publish m i h)) = hd_next_ref h"
  "hd_threads (snd (write_publish m i h)) = hd_threads h"
  "hd_writer (snd (write_publish m i h)) = hd_writer h"
  "hd_reader (snd (write_publish m i h)) = hd_reader h"
  by (simp_all add: write_publish_def)

lemma create_condition_fields [simp]:
  "hd_id (snd (create_packet_condition cls pid h)) = hd_id h"
  "hd_subscriptions (snd (create_packet_condition cls pid h)) = hd_subscriptions h"
  "hd_linked (snd (create_packet_condition cls pid h)) = hd_linked h"
  "hd_used_ids (snd (create_packet_condition cls pid h)) = hd_used_ids h"
  "hd_threads (snd (create_packet_condition cls pid h)) = hd_threads h"
  "hd_writer (snd (create_packet_condition cls pid h)) = hd_writer h"
  "hd_reader (snd (create_packet_condition cls pid h)) = hd_reader h"
  by (simp_all add: create_packet_condition_def Let_def)

text \<open>The conditions of a connection have different identities, all of them given out.\<close>

definition conditions_ok :: "handler \<Rightarrow> bool" where
  "conditions_ok h \<longleftrightarrow> distinct (map cd_ref (hd_conditions h))
     \<and> (\<forall>c\<in>set (hd_conditions h). cd_ref c < hd_next_ref h)"

lemma create_condition_ok:
  assumes "conditions_ok h"
  shows "fst (create_packet_condition cls pid h) = Inr (hd_next_ref h)"
    and "conditions_ok (snd (create_packet_condition cls pid h))"
    and "hd_conditions (snd (create_packet_condition cls pid h)) = hd_conditions h @
      [\<lparr>cd_ref = hd_next_ref h, cd_type_code = type_code cls, cd_id = pid, cd_result = None\<rparr>]"
    and "hd_next_ref (snd (create_packet_condition cls pid h)) = Suc (hd_next_ref h)"
  using assms
  by (fastforce simp: conditions_ok_def create_packet_condition_def Let_def)+

lemma wait_for_packet_Some:
  assumes "wait_for_packet ref h = Some (p, h')"
  shows "h' = h\<lparr>hd_conditions := filter (\<lambda>c. cd_ref c \<noteq> ref) (hd_conditions h)\<rparr>"
  using assms by (auto simp: wait_for_packet_def split: option.splits)

lemma conditions_ok_filter: "conditions_ok h \<Longrightarrow>
    conditions_ok (h\<lparr>hd_conditions := filter P (hd_conditions h)\<rparr>)"
  by (auto simp: conditions_ok_def distinct_map_filter)

lemma meet_first_refs: "meet_first code pid p cs = Some cs' \<Longrightarrow> map cd_ref cs' = map cd_ref cs"
  by (induction cs arbitrary: cs') (auto split: if_splits)

lemma packet_notify_fields:
  "snd (packet_notify p h) = h\<lparr>hd_conditions := hd_conditions (snd (packet_notify p h))\<rparr>"
  "map cd_ref (hd_conditions (snd (packet_notify p h))) = map cd_ref (hd_conditions h)"
  using meet_first_refs [of "type_code (pk_class p)"]
  by (auto simp: packet_notify_def split: sum.split option.split)

lemma conditions_ok_refs: "conditions_ok h \<longleftrightarrow>
    distinct (map cd_ref (hd_conditions h)) \<and> (\<forall>x\<in>set (map cd_ref (hd_conditions h)). x < hd_next_ref h)"
  by (auto simp: conditions_ok_def)

section \<open>The broker's side of an operation\<close>

lemma publish_fields [simp]:
  "br_subs (snd (publish loads m br)) = br_subs br"
  "br_clients (snd (publish loads m br)) = br_clients br"
  "br_queues (snd (publish loads m br)) = br_queues br"
  by (auto simp: publish_def Let_def split_beta split: sum.split bool.split)

lemma remove_client_fields [simp]:
  "br_subs (remove_client c br) = br_subs br"
  "br_tm (remove_client c br) = br_tm br"
  "br_queues (remove_client c br) = br_queues br"
  "br_broadcast (remove_client c br) = br_broadcast br"
  by (auto simp: remove_client_def split: option.split)

lemma remove_client_subset: "br_clients (remove_client c br) i = Some r \<Longrightarrow> br_clients br i = Some r"
  by (auto simp: remove_client_def split: option.splits if_splits)

lemma publish_data_fields [simp]:
  "br_subs (snd (publish_packet_data loads p br)) = br_subs br"
  "br_clients (snd (publish_packet_data loads p br)) = br_clients br"
  "br_queues (snd (publish_packet_data loads p br)) = br_queues br"
  by (auto simp: publish_packet_data_def split: sum.split)

lemma publish_data_keeps: "broker_ok br \<Longrightarrow> broker_ok (snd (publish_packet_data loads p br))"
  by (auto simp: publish_packet_data_def publish_keeps split: sum.split)

lemma subscribe_clients [simp]: "br_clients (snd (subscribe tq cid r t q tree br)) = br_clients br"
  by (auto simp: subscribe_def queue_message_def Let_def split_beta split: sum.split option.split)

lemma registered_subscribe:
  assumes "broker_ok br" and "rdd_path p"
  shows "registered (br_subs (snd (subscribe tq cid r t q tree br))) p i =
    (if (\<exists>b. fst (subscribe tq cid r t q tree br) = Inr b) \<and> p = topic_nodes t \<and> i = cid then Some q
     else registered (br_subs br) p i)"
proof -
  have ok: "subs_ok (br_subs br)" using assms(1) by (simp add: broker_ok_def)
  show ?thesis
    using subscribe_eq [OF ok, of tq cid r t q tree] subs.registered_register [OF ok topic_nodes_path [of t] assms(2)]
    by (auto split: sum.splits)
qed

lemma registered_unsubscribe:
  assumes "broker_ok br" and "rdd_path p"
  shows "registered (br_subs (snd (unsubscribe cid ts br))) p i =
    (if i = cid \<and> p \<in> topic_nodes ` set ts then None else registered (br_subs br) p i)"
  using assms
proof (induction ts arbitrary: br)
  case (Cons t ts)
  have ok: "subs_ok (br_subs br)" using Cons.prems by (simp add: broker_ok_def)
  have step: "snd (unsubscribe cid (t # ts) br) = snd (unsubscribe cid ts (snd (unsubscribe cid [t] br)))"
    using unsubscribe_eq [OF ok, of cid "[t]"]
    by (auto split: prod.splits sum.splits)
  have b: "broker_ok (snd (unsubscribe cid [t] br))" by (rule unsubscribe_keeps [OF Cons.prems(1)])
  have "registered (br_subs (snd (unsubscribe cid [t] br))) p i =
      (if p = topic_nodes t \<and> i = cid then None else registered (br_subs br) p i)"
    using unsubscribe_eq [OF ok, of cid "[t]"]
      subs.registered_unregister [OF ok topic_nodes_path [of t] Cons.prems(2)]
    by (simp del: unsubscribe.simps)
  with Cons.IH [OF b Cons.prems(2)] show ?case
    by (auto simp: step simp del: unsubscribe.simps)
qed simp

section \<open>Registrations are remembered\<close>

definition covered :: "handler \<Rightarrow> string \<Rightarrow> string list \<Rightarrow> bool" where
  "covered h c p \<longleftrightarrow> hd_id h = Some c \<and> p \<in> topic_nodes ` set (hd_subscriptions h)"

text \<open>
  What an operation of one connection guarantees: it keeps its id, keeps the broker well-formed,
  adds no client, and every registration it leaves is one it remembers or one that was there
  and that it never remembered.
\<close>

definition sound :: "handler \<times> broker \<Rightarrow> handler \<times> broker \<Rightarrow> bool" where
  "sound s s' \<longleftrightarrow> hd_id (fst s') = hd_id (fst s) \<and>
     (broker_ok (snd s) \<longrightarrow> broker_ok (snd s')
      \<and> (\<forall>c r. br_clients (snd s') c = Some r \<longrightarrow> br_clients (snd s) c = Some r)
      \<and> (\<forall>p c. rdd_path p \<longrightarrow> registered (br_subs (snd s')) p c \<noteq> None \<longrightarrow>
           covered (fst s') c p \<or> registered (br_subs (snd s)) p c \<noteq> None \<and> \<not> covered (fst s) c p))"

lemma sound_trans: "sound s s' \<Longrightarrow> sound s' s'' \<Longrightarrow> sound s s''"
  unfolding sound_def by (metis (no_types))

lemma sound_handler: "hd_id h' = hd_id h \<Longrightarrow> hd_subscriptions h' = hd_subscriptions h \<Longrightarrow>
    sound (h, br) (h', br)"
  by (auto simp: sound_def covered_def)

lemma sound_shrink:
  assumes "hd_id h' = hd_id h" and "hd_subscriptions h' = hd_subscriptions h"
    and "broker_ok br \<Longrightarrow> broker_ok br'"
    and "\<And>c r. broker_ok br \<Longrightarrow> br_clients br' c = Some r \<Longrightarrow> br_clients br c = Some r"
    and "\<And>p c. broker_ok br \<Longrightarrow> rdd_path p \<Longrightarrow> registered (br_subs br') p c \<noteq> None \<Longrightarrow>
      registered (br_subs br) p c \<noteq> None"
  shows "sound (h, br) (h', br')"
  using assms by (fastforce simp: sound_def covered_def)

lemma sound_publish_data:
  "hd_id h' = hd_id h \<Longrightarrow> hd_subscriptions h' = hd_subscriptions h \<Longrightarrow>
   sound (h, br) (h', snd (publish_packet_data loads p br))"
  by (rule sound_shrink) (simp_all add: publish_data_keeps)

lemma unsubscribe_clients: "broker_ok br \<Longrightarrow> br_clients (snd (unsubscribe cid ts br)) = br_clients br"
  using unsubscribe_eq [of br cid ts] by (simp add: broker_ok_def)

lemma handle_disconnected_fields:
  assumes "broker_ok br"
  shows "br_subs (snd (handle_disconnected loads h br)) =
      br_subs (snd (unsubscribe (client_key h) (hd_subscriptions h) br))"
    and "br_clients (snd (handle_disconnected loads h br)) =
      br_clients (if hd_override h then br else remove_client (hd_id h) br)"
    and "br_queues (snd (handle_disconnected loads h br)) = br_queues br"
    and "broker_ok (snd (handle_disconnected loads h br))"
proof -
  obtain br1 where u: "unsubscribe (client_key h) (hd_subscriptions h) br = (Inr True, br1)"
    and b: "br_clients br1 = br_clients br" "br_queues br1 = br_queues br" "broker_ok br1"
    using unsubscribe_eq [of br "client_key h" "hd_subscriptions h"]
      unsubscribe_keeps [OF assms, of "client_key h" "hd_subscriptions h"] assms
    by (cases "unsubscribe (client_key h) (hd_subscriptions h) br") (auto simp: broker_ok_def)
  have r: "br_clients (remove_client c br1) = br_clients (remove_client c br)" for c
    using b by (auto simp: remove_client_def split: option.split)
  show "br_subs (snd (handle_disconnected loads h br)) =
      br_subs (snd (unsubscribe (client_key h) (hd_subscriptions h) br))"
    "br_clients (snd (handle_disconnected loads h br)) =
      br_clients (if hd_override h then br else remove_client (hd_id h) br)"
    "br_queues (snd (handle_disconnected loads h br)) = br_queues br"
    "broker_ok (snd (handle_disconnected loads h br))"
    by (auto simp: handle_disconnected_def u b r Let_def publish_keeps remove_client_keeps split: option.split)
qed

lemma registered_disconnected:
  assumes "broker_ok br" and "rdd_path p"
  shows "registered (br_subs (snd (handle_disconnected loads h br))) p c =
    (if c = client_key h \<and> p \<in> topic_nodes ` set (hd_subscriptions h) then None
     else registered (br_subs br) p c)"
  by (simp add: handle_disconnected_fields [OF assms(1)] registered_unsubscribe [OF assms])

lemma sound_disconnected:
  assumes "hd_id h' = hd_id h" and "hd_subscriptions h' = hd_subscriptions h"
    and "hd_id h1 = hd_id h" and "hd_subscriptions h1 = hd_subscriptions h"
  shows "sound (h, br) (h', snd (handle_disconnected loads h1 br))"
  by (rule sound_shrink [OF assms(1,2)])
     (auto simp: handle_disconnected_fields(2,4) registered_disconnected dest: remove_client_subset
       split: if_splits)

lemma close_handler_fields [simp]:
  "hd_id (close_handler h) = hd_id h" "hd_subscriptions (close_handler h) = hd_subscriptions h"
  "hd_linked (close_handler h) = hd_linked h" "hd_used_ids (close_handler h) = hd_used_ids h"
  "hd_conditions (close_handler h) = hd_conditions h" "hd_next_ref (close_handler h) = hd_next_ref h"
  "hd_threads (close_handler h) = hd_threads h" "hd_writer (close_handler h) = hd_writer h"
  "hd_reader (close_handler h) = hd_reader h" "hd_override (close_handler h) = hd_override h"
  "hd_last_will (close_handler h) = hd_last_will h"
  "\<not> hd_alive (close_handler h)" "\<not> hd_open (close_handler h)"
  by (simp_all add: close_handler_eq)

lemma sound_disconnect: "sound (h, br) (disconnect loads h br)"
  unfolding disconnect_def Let_def by (rule sound_disconnected) simp_all

lemma sound_override: "sound (h, br) (override_connection loads h br)"
  unfolding override_connection_def disconnect_def Let_def by (rule sound_disconnected) simp_all

lemma sound_leave_loop: "sound (h, br) (leave_loop loads h br)"
  using sound_disconnected [of "close_handler h" h "close_handler h" br loads]
    sound_handler [of "close_handler h" h br]
  by (simp add: leave_loop_def Let_def)

lemma sound_end_reader: "sound (h, br) (end_reader loads h br)"
proof -
  obtain h1 br1 where l: "leave_loop loads h br = (h1, br1)" by fastforce
  have "sound (h, br) (h1, br1)" using sound_leave_loop [of h br loads] by (simp add: l)
  then show ?thesis by (rule sound_trans) (simp add: end_reader_def l sound_handler)
qed

lemma sound_end_writer: "sound (h, br) (end_writer loads e h br)"
proof -
  obtain h1 br1 where l: "leave_loop loads h br = (h1, br1)" by fastforce
  have "sound (h, br) (h1, br1)" using sound_leave_loop [of h br loads] by (simp add: l)
  then have "sound (h, br) (h1\<lparr>hd_writer := WriterDone\<rparr>, br1)"
    by (rule sound_trans) (simp add: sound_handler)
  then show ?thesis by (simp add: end_writer_def l sound_handler)
qed

lemma sound_after_send:
  assumes "hd_id (snd res) = hd_id h" and "hd_subscriptions (snd res) = hd_subscriptions h"
    and "br_subs br' = br_subs br" and "br_tm br' = br_tm br" and "br_clients br' = br_clients br"
  shows "sound (h, br) (after_send loads res br')"
proof -
  obtain x h1 where res: "res = (x, h1)" by (cases res)
  have 1: "sound (h, br) (h1, br')"
    by (rule sound_shrink) (use assms in \<open>simp_all add: res broker_ok_def\<close>)
  have "sound (h1, br') (after_send loads res br')"
    by (cases x) (simp_all add: after_send_def res sound_end_writer sound_handler)
  with 1 show ?thesis by (rule sound_trans)
qed

lemma sound_subscribe:
  assumes "hd_id h = Some cid" and "fst (subscribe tq cid r t q tree br) = Inr b"
  shows "sound (h, br) (h\<lparr>hd_subscriptions := List.insert t (hd_subscriptions h)\<rparr>,
    snd (subscribe tq cid r t q tree br))"
  using assms by (auto simp: sound_def covered_def subscribe_keeps registered_subscribe split: if_splits)

lemma sound_subscribe_fails:
  assumes "fst (subscribe tq cid r t q tree br) = Inl e"
  shows "sound (h, br) (h, snd (subscribe tq cid r t q tree br))"
  by (rule sound_shrink) (use assms in \<open>simp_all add: subscribe_keeps registered_subscribe\<close>)

lemma sound_subscribe_loop:
  "hd_id h \<noteq> None \<Longrightarrow> sound (h, br) (snd (subscribe_loop tq r requests codes h br))"
proof (induction requests arbitrary: codes h br)
  case (Cons request requests)
  obtain cid where cid: "hd_id h = Some cid" "client_key h = cid"
    using Cons.prems by (auto simp: client_key_def)
  show ?case
  proof (cases "request_of request")
    case (Inr tq')
    obtain topic qos where t: "tq' = (topic, qos)" by (cases tq')
    define tree where "tree = (hd topic = TOPIC_SEP)"
    define t' where "t' = (if tree then tl topic else topic)"
    show ?thesis
    proof (cases "topic = []")
      case False
      obtain x br1 where s: "subscribe tq cid r t' qos tree br = (x, br1)" by fastforce
      show ?thesis
      proof (cases x)
        case (Inl e)
        then show ?thesis using sound_subscribe_fails [of tq cid r t' qos tree br e h] s False Inr t cid
          by (simp add: tree_def t'_def Let_def)
      next
        case b: (Inr b)
        let ?h = "h\<lparr>hd_subscriptions := List.insert t' (hd_subscriptions h)\<rparr>"
        have "b" using s b by (auto simp: subscribe_def Let_def split_beta res_simps split: sum.splits)
        have 1: "sound (h, br) (?h, br1)"
          using sound_subscribe [OF cid(1), of tq r t' qos tree br b] s b by simp
        have "hd_id ?h \<noteq> None" using Cons.prems by simp
        from sound_trans [OF 1 Cons.IH [OF this, of br1 "codes @ [qos]"]] \<open>b\<close> show ?thesis
          using s b False Inr t cid by (simp add: tree_def t'_def Let_def)
      qed
    qed (simp add: Inr t sound_handler)
  qed (simp add: sound_handler)
qed (simp add: sound_handler)

lemma sound_handle_subscribe:
  assumes "hd_id h \<noteq> None"
  shows "sound (h, br) (snd (handle_subscribe tq r p h br))"
proof (cases "\<exists>requests. map_of (pk_kwargs p) ''requests'' = Some (Records requests)")
  case True
  then obtain requests where rq: "map_of (pk_kwargs p) ''requests'' = Some (Records requests)" by blast
  obtain x h1 br1 where l: "subscribe_loop tq r requests [] h br = (x, h1, br1)" by (metis prod_cases3)
  have 1: "sound (h, br) (h1, br1)" using sound_subscribe_loop [OF assms, of br tq r requests "[]"] by (simp add: l)
  have 2: "sound (h1, br1) (snd (write_packet c f k h1), br1)" for c f k by (simp add: sound_handler)
  show ?thesis
    using 1 sound_trans [OF 1 2]
    by (cases "get_int (pk_kwargs p) ''id''"; cases x)
       (simp_all add: handle_subscribe_def rq l Let_def split_beta)
next
  case False
  then show ?thesis by (auto simp: handle_subscribe_def sound_handler split: option.split field_value.split)
qed

lemma sound_unsubscribe:
  "sound (h, br) (h\<lparr>hd_subscriptions := remove1 t (hd_subscriptions h)\<rparr>,
     snd (unsubscribe (client_key h) [t] br))"
proof -
  have "p \<in> topic_nodes ` set (remove1 t ts)" if p: "p \<in> topic_nodes ` set ts" "p \<noteq> topic_nodes t" for p ts
  proof -
    obtain t' where "t' \<in> set ts" "p = topic_nodes t'" using p(1) by blast
    moreover from this p(2) have "t' \<noteq> t" by blast
    ultimately show ?thesis by simp
  qed
  then show ?thesis
    by (auto simp: sound_def covered_def unsubscribe_keeps registered_unsubscribe unsubscribe_clients
        client_key_def simp del: unsubscribe.simps split: if_splits option.splits)
qed

lemma sound_unsubscribe_only: "sound (h, br) (h, snd (unsubscribe c ts br))"
  by (rule sound_shrink)
     (auto simp: unsubscribe_keeps registered_unsubscribe unsubscribe_clients split: if_splits)

lemma sound_unsubscribe_loop: "sound (h, br) (snd (unsubscribe_loop i topics h br))"
proof (induction i topics h br rule: unsubscribe_loop.induct)
  case (2 i topic topics h br)
  obtain x br1 where u: "unsubscribe (client_key h) [topic] br = (x, br1)" by fastforce
  let ?h = "h\<lparr>hd_subscriptions := remove1 topic (hd_subscriptions h)\<rparr>"
  obtain y h1 where w: "write_packet UnsubscribeAcknowledgePacket (FlagInt 0) (id_kwarg i) ?h = (y, h1)" by fastforce
  have only: "sound (h, br) (h, br1)"
    using sound_unsubscribe_only [of h br "client_key h" "[topic]"] by (simp add: u del: unsubscribe.simps)
  have 1: "sound (h, br) (?h, br1)"
    using sound_unsubscribe [of h br topic] by (simp add: u del: unsubscribe.simps)
  have "sound (?h, br1) (h1, br1)"
    using write_packet_fields(1,6) [of UnsubscribeAcknowledgePacket "FlagInt 0" "id_kwarg i" ?h]
    by (intro sound_handler) (simp_all add: w)
  with 1 have 2: "sound (h, br) (h1, br1)" by (rule sound_trans)
  show ?case
  proof (cases x)
    case (Inr b)
    show ?thesis
    proof (cases b)
      case True
      show ?thesis
      proof (cases y)
        case y: (Inr z)
        have "sound (h1, br1) (snd (unsubscribe_loop i topics h1 br1))"
          using "2.IH"(1) [OF u [symmetric] Inr _ w [symmetric] y] True by simp
        from sound_trans [OF 2 this] show ?thesis using True
          by (simp add: u Inr w y del: unsubscribe.simps)
      qed (use 2 True in \<open>simp add: u Inr w del: unsubscribe.simps\<close>)
    next
      case False
      have "sound (h, br1) (snd (unsubscribe_loop i topics h br1))"
        using "2.IH"(2) [OF u [symmetric] Inr] False by simp
      from sound_trans [OF only this] show ?thesis using False
        by (simp add: u Inr del: unsubscribe.simps)
    qed
  qed (use only in \<open>simp add: u del: unsubscribe.simps\<close>)
qed (simp_all add: sound_handler)

lemma sound_handle_unsubscribe: "sound (h, br) (snd (handle_unsubscribe p h br))"
  by (auto simp: handle_unsubscribe_def sound_handler sound_unsubscribe_loop
      split: option.split field_value.split sum.split)

section \<open>Threads and loops\<close>

text \<open>What the request handlers leave alone of the connection's own state.\<close>

definition tame :: "handler \<Rightarrow> handler \<Rightarrow> bool" where
  "tame h h' \<longleftrightarrow> hd_id h' = hd_id h \<and> hd_linked h' = hd_linked h \<and> hd_used_ids h' = hd_used_ids h
     \<and> hd_writer h' = hd_writer h \<and> hd_reader h' = hd_reader h \<and> hd_threads h' = hd_threads h
     \<and> (conditions_ok h \<longrightarrow> conditions_ok h')"

lemma tame_refl [simp]: "tame h h"
  by (simp add: tame_def)

lemma tame_trans: "tame h h' \<Longrightarrow> tame h' h'' \<Longrightarrow> tame h h''"
  by (simp add: tame_def)

lemma tame_write [simp]: "tame h (snd (write_packet cls flags kws h))"
  by (simp add: tame_def conditions_ok_def)

lemma tame_subscriptions [simp]: "tame h (h\<lparr>hd_subscriptions := ts\<rparr>)"
  by (simp add: tame_def conditions_ok_def)

lemma tame_create [simp]: "tame h (snd (create_packet_condition cls pid h))"
  using create_condition_ok(2) by (simp add: tame_def)

lemma tame_wait: "wait_for_packet c h = Some (p, h1) \<Longrightarrow> tame h h1"
  by (auto dest!: wait_for_packet_Some simp: tame_def conditions_ok_filter)

lemma tame_subscribe_loop: "tame h (fst (snd (subscribe_loop tq r requests codes h br)))"
proof (induction requests arbitrary: codes h br)
  case (Cons request requests)
  note IH = Cons.IH tame_trans [OF tame_subscriptions Cons.IH]
  show ?case
    by (auto simp: Let_def IH split: sum.split prod.split bool.split)
qed simp

lemma tame_unsubscribe_loop: "tame h (fst (snd (unsubscribe_loop i topics h br)))"
proof (induction i topics h br rule: unsubscribe_loop.induct)
  case (2 i topic topics h br)
  let ?h = "h\<lparr>hd_subscriptions := remove1 topic (hd_subscriptions h)\<rparr>"
  obtain x br1 where u: "unsubscribe (client_key h) [topic] br = (x, br1)" by fastforce
  obtain y h1 where w: "write_packet UnsubscribeAcknowledgePacket (FlagInt 0) (id_kwarg i) ?h = (y, h1)" by fastforce
  have "tame ?h h1" using tame_write [of ?h UnsubscribeAcknowledgePacket "FlagInt 0" "id_kwarg i"] by (simp add: w)
  then have 1: "tame h h1" by (rule tame_trans [OF tame_subscriptions])
  show ?case
    using 1 "2.IH"(1) [OF u [symmetric] _ _ w [symmetric]] "2.IH"(2) [OF u [symmetric]]
    by (auto simp: u w simp del: unsubscribe.simps split: sum.split bool.split intro: tame_trans [OF 1])
qed simp_all

lemma sound_write: "sound (h, br) (snd (write_packet cls flags kws h), br)"
  by (rule sound_handler) simp_all

lemma publish_qos_1_effect:
  "sound (h, br) (snd (handle_publish_qos_1 loads p h br)) \<and> tame h (fst (snd (handle_publish_qos_1 loads p h br)))"
proof -
  obtain x br1 where p: "publish_packet_data loads p br = (x, br1)" by fastforce
  have 1: "sound (h, br) (h, br1)" using sound_publish_data [of h h br loads p] by (simp add: p)
  have 2: "sound (h, br) (snd (write_packet c f k h), br1)" for c f k
    using sound_trans [OF 1 sound_write] .
  show ?thesis
    using 1 2 by (simp add: handle_publish_qos_1_def p Let_def split_beta sound_handler split: sum.split)
qed

lemma publish_qos_2_effect:
  "sound (h, br) (snd (handle_publish_qos_2 p h), br) \<and> tame h (snd (handle_publish_qos_2 p h))"
proof -
  have "sound (h, br) (snd (write_packet c f k (snd (create_packet_condition cl i h))), br)" for c f k cl i
    by (rule sound_handler) simp_all
  moreover have "sound (h, br) (snd (create_packet_condition cl i h), br)" for cl i
    by (rule sound_handler) simp_all
  ultimately show ?thesis
    using tame_trans [OF tame_create tame_write]
    by (auto simp: handle_publish_qos_2_def Let_def split_beta sound_handler split: sum.split prod.split)
qed

lemma finish_qos_2_effect:
  assumes "finish_publish_qos_2 loads p c h br = Some s"
  shows "sound (h, br) (snd s) \<and> tame h (fst (snd s))"
proof -
  obtain q h1 where w: "wait_for_packet c h = Some (q, h1)"
    using assms by (auto simp: finish_publish_qos_2_def split: option.splits)
  obtain x br1 where p: "publish_packet_data loads p br = (x, br1)" by fastforce
  have "hd_id h1 = hd_id h" "hd_subscriptions h1 = hd_subscriptions h"
    using wait_for_packet_Some [OF w] by simp_all
  then have 1: "sound (h, br) (h1, br1)" using sound_publish_data [of h1 h br loads p] by (simp add: p)
  have 2: "sound (h, br) (snd (write_packet cl f k h1), br1)" for cl f k
    using sound_trans [OF 1 sound_write] .
  have "tame h h1" by (rule tame_wait [OF w])
  then show ?thesis
    using assms 1 2 tame_trans [OF _ tame_write, of h h1]
    by (auto simp: finish_publish_qos_2_def w p Let_def split_beta split: sum.splits)
qed

lemma handle_publish_effect:
  "sound (h, br) (snd (handle_publish loads p h br)) \<and> tame h (fst (snd (handle_publish loads p h br)))"
proof -
  obtain x br1 where p: "publish_packet_data loads p br = (x, br1)" by fastforce
  have "sound (h, br) (h, br1)" using sound_publish_data [of h h br loads p] by (simp add: p)
  then show ?thesis
    using publish_qos_1_effect [of h br loads p] publish_qos_2_effect [of h br p]
    by (simp add: handle_publish_eq p Let_def split_beta sound_handler split: sum.split)
qed

lemma tame_handle_subscribe: "tame h (fst (snd (handle_subscribe tq r p h br)))"
proof (cases "\<exists>requests. map_of (pk_kwargs p) ''requests'' = Some (Records requests)")
  case True
  then obtain requests where rq: "map_of (pk_kwargs p) ''requests'' = Some (Records requests)" by blast
  obtain x h1 br1 where l: "subscribe_loop tq r requests [] h br = (x, h1, br1)" by (metis prod_cases3)
  have "tame h h1" using tame_subscribe_loop [of h tq r requests "[]" br] by (simp add: l)
  then show ?thesis
    using tame_trans [OF _ tame_write, of h h1]
    by (simp add: handle_subscribe_def rq l Let_def split_beta split: sum.split)
next
  case False
  then show ?thesis by (auto simp: handle_subscribe_def split: option.split field_value.split)
qed

lemma tame_handle_unsubscribe: "tame h (fst (snd (handle_unsubscribe p h br)))"
  by (auto simp: handle_unsubscribe_def tame_unsubscribe_loop split: option.split field_value.split sum.split)

lemma start_thread_effect:
  "hd_id h \<noteq> None \<Longrightarrow> sound (h, br) (snd (start_thread loads tq r p h br))
     \<and> tame h (fst (snd (start_thread loads tq r p h br)))"
  by (simp add: start_thread_def Let_def split_beta handle_ping_request_def sound_write sound_handle_subscribe
      tame_handle_subscribe sound_handle_unsubscribe tame_handle_unsubscribe handle_publish_effect)

text \<open>A run of a thread may add the rest of itself to the threads, nothing else.\<close>

definition tame_threads :: "handler \<Rightarrow> handler \<Rightarrow> bool" where
  "tame_threads h h' \<longleftrightarrow> (\<exists>ts. tame (h\<lparr>hd_threads := ts\<rparr>) h')"

lemma conditions_ok_threads [simp]:
  "conditions_ok (h\<lparr>hd_threads := ts\<rparr>) = conditions_ok h"
  "conditions_ok (h\<lparr>hd_used_ids := u\<rparr>) = conditions_ok h"
  "conditions_ok (h\<lparr>hd_writer := w\<rparr>) = conditions_ok h"
  "conditions_ok (h\<lparr>hd_reader := rd\<rparr>) = conditions_ok h"
  "conditions_ok (h\<lparr>hd_in := bs\<rparr>) = conditions_ok h"
  "conditions_ok (h\<lparr>hd_open := b\<rparr>) = conditions_ok h"
  "conditions_ok (h\<lparr>hd_linked := b\<rparr>) = conditions_ok h"
  "conditions_ok (h\<lparr>hd_override := b\<rparr>) = conditions_ok h"
  "conditions_ok (h\<lparr>hd_sent := s\<rparr>) = conditions_ok h"
  "conditions_ok (h\<lparr>hd_subscriptions := t\<rparr>) = conditions_ok h"
  "conditions_ok (h\<lparr>hd_id := i\<rparr>) = conditions_ok h"
  "conditions_ok (h\<lparr>hd_last_will := m\<rparr>) = conditions_ok h"
  "conditions_ok (h\<lparr>hd_keep_alive := k\<rparr>) = conditions_ok h"
  "conditions_ok (close_handler h) = conditions_ok h"
  by (simp_all add: conditions_ok_def)

lemma run_thread_effect:
  assumes "hd_id h \<noteq> None" and "run_thread loads tq r t h br = Some s"
  shows "sound (h, br) s \<and> tame_threads h (fst s)"
proof (cases t)
  case (Start p)
  obtain x h1 br1 where st: "start_thread loads tq r p h br = (x, h1, br1)" by (metis prod_cases3)
  have e: "sound (h, br) (h1, br1)" "tame h h1"
    using start_thread_effect [OF assms(1), of br loads tq r p] by (simp_all add: st)
  have "sound (h, br) (h1\<lparr>hd_threads := ts\<rparr>, br1)" for ts
    by (rule sound_trans [OF e(1)]) (simp add: sound_handler)
  moreover have "tame_threads h (h1\<lparr>hd_threads := ts\<rparr>)" for ts
    using e(2) by (auto simp: tame_threads_def tame_def)
  moreover have "tame_threads h h1"
    using e(2) by (auto simp: tame_threads_def tame_def)
  ultimately show ?thesis using assms(2) e(1) by (auto simp: Start st split: sum.splits option.splits)
next
  case (AwaitRelease p c)
  then obtain y where f: "finish_publish_qos_2 loads p c h br = Some y" "s = snd y" using assms(2) by auto
  from finish_qos_2_effect [OF f(1)] show ?thesis by (auto simp: f(2) tame_threads_def tame_def)
qed

section \<open>The invariant of a connection\<close>

text \<open>The packet ids of the message that is being sent.\<close>

fun sending :: "writer \<Rightarrow> nat list" where
  "sending Ready = []"
| "sending (AwaitAck m pid c) = [pid]"
| "sending (AwaitComplete pid c) = [pid]"
| "sending WriterDone = []"

definition handler_ok :: "handler \<Rightarrow> bool" where
  "handler_ok h \<longleftrightarrow> conditions_ok h
     \<and> hd_used_ids h = sending (hd_writer h) \<and> set (hd_used_ids h) \<subseteq> {0}
     \<and> (hd_id h = None \<longrightarrow> hd_subscriptions h = [] \<and> hd_threads h = [] \<and> \<not> hd_linked h)
     \<and> (hd_reader h = Connecting \<longrightarrow> hd_id h = None) \<and> (hd_reader h = Reading \<longrightarrow> hd_id h \<noteq> None)"

lemma new_connection_ok: "handler_ok new_connection"
  by (simp add: handler_ok_def new_connection_def conditions_ok_def)

lemma handler_ok_tame:
  assumes "handler_ok h" and "hd_id h \<noteq> None" and "tame_threads h h'"
  shows "handler_ok h'"
  using assms by (auto simp: handler_ok_def tame_threads_def tame_def)

lemma leave_loop_handler [simp]: "fst (leave_loop loads h br) = close_handler h"
  by (simp add: leave_loop_def Let_def)

lemma end_reader_handler: "fst (end_reader loads h br) = (close_handler h)\<lparr>hd_reader := ReaderDone\<rparr>"
  by (simp add: end_reader_def split_beta)

lemma end_reader_ok: "handler_ok h \<Longrightarrow> handler_ok (fst (end_reader loads h br))"
  by (auto simp: handler_ok_def end_reader_handler)

lemma end_writer_ok:
  assumes "handler_ok (h\<lparr>hd_writer := WriterDone\<rparr>)"
  shows "handler_ok (fst (end_writer loads e h br))"
  using assms by (auto simp: handler_ok_def end_writer_def split_beta Let_def)

text \<open>With no packet id in use the next one is 0.\<close>

lemma next_packet_id_Nil [simp]: "next_packet_id [] = Inr 0"
  by (simp add: next_packet_id_def next_id_loop.simps)

text \<open>What a part of \<open>send_message\<close> leaves: the ids in use are those of its answer.\<close>

definition sends :: "handler \<Rightarrow> (py_error + writer) \<times> handler \<Rightarrow> bool" where
  "sends h res \<longleftrightarrow> conditions_ok (snd res) \<and> hd_id (snd res) = hd_id h
     \<and> hd_subscriptions (snd res) = hd_subscriptions h \<and> hd_threads (snd res) = hd_threads h
     \<and> hd_linked (snd res) = hd_linked h \<and> hd_reader (snd res) = hd_reader h
     \<and> hd_used_ids (snd res) = (case fst res of Inl e \<Rightarrow> [] | Inr w \<Rightarrow> sending w)
     \<and> set (hd_used_ids (snd res)) \<subseteq> {0}"

lemma conditions_ok_write [simp]: "conditions_ok (snd (write_packet cls f k h)) = conditions_ok h"
  by (simp add: conditions_ok_def)

lemma conditions_ok_write_publish [simp]: "conditions_ok (snd (write_publish m i h)) = conditions_ok h"
  by (simp add: conditions_ok_def)

lemma send_message_sends:
  assumes "handler_ok h" and "hd_writer h = Ready"
  shows "sends h (send_message m h)"
proof -
  have c: "conditions_ok h" and u: "hd_used_ids h = []" using assms by (simp_all add: handler_ok_def)
  let ?h1 = "h\<lparr>hd_used_ids := [0]\<rparr>"
  have c1: "conditions_ok ?h1" using c by simp
  have cr: "fst (create_packet_condition cls 0 ?h1) = Inr (hd_next_ref h)" for cls
    using create_condition_ok(1) [OF c1, of cls 0] by simp
  have "sends h (or_release 0 (bindR (fst (write_publish m i (snd (create_packet_condition cls 0 ?h1))))
      (\<lambda>_. Inr (AwaitAck m 0 (hd_next_ref h))), snd (write_publish m i (snd (create_packet_condition cls 0 ?h1)))))"
    for cls i
    using create_condition_ok(2) [OF c1, of cls 0]
    by (cases "fst (write_publish m i (snd (create_packet_condition cls 0 ?h1)))")
       (simp_all add: or_release_def release_id_def sends_def)
  moreover have "sends h (bindR (fst (write_publish m [] h)) (\<lambda>_. Inr Ready), snd (write_publish m [] h))"
    using c u by (cases "fst (write_publish m [] h)") (simp_all add: sends_def)
  ultimately show ?thesis
    using cr u by (simp add: send_message_def Let_def split_beta)
qed

lemma send_acknowledged_sends:
  assumes "handler_ok h" and "hd_writer h = AwaitAck m pid c" and "send_acknowledged m pid c h = Some res"
  shows "sends h res"
proof -
  have ok: "conditions_ok h" and u: "hd_used_ids h = [0]" and pid: "pid = 0"
    using assms(1,2) by (auto simp: handler_ok_def)
  obtain q h1 where w: "wait_for_packet c h = Some (q, h1)"
    using assms(3) by (auto simp: send_acknowledged_def split: option.splits)
  have h1: "conditions_ok h1" "hd_used_ids h1 = [0]" "hd_id h1 = hd_id h"
    "hd_subscriptions h1 = hd_subscriptions h" "hd_threads h1 = hd_threads h"
    "hd_linked h1 = hd_linked h" "hd_reader h1 = hd_reader h"
    using ok u wait_for_packet_Some [OF w] by (simp_all add: conditions_ok_filter)
  let ?h2 = "snd (create_packet_condition PublishCompletePacket 0 h1)"
  note cr = create_condition_ok(1) [OF h1(1), of PublishCompletePacket 0]
  let ?wr = "write_packet PublishReleasedPacket (FlagInt 0) (id_kwarg 0) ?h2"
  have "sends h (or_release 0 (bindR (fst ?wr) (\<lambda>_. Inr (AwaitComplete 0 (hd_next_ref h1))), snd ?wr))"
    using create_condition_ok(2) [OF h1(1), of PublishCompletePacket 0] h1
    by (cases "fst ?wr") (simp_all add: or_release_def release_id_def sends_def)
  moreover have "sends h (Inr Ready, release_id 0 h1)"
    using h1 by (simp add: sends_def release_id_def)
  ultimately show ?thesis
    using assms(3) cr by (simp add: send_acknowledged_def w pid Let_def split_beta split: if_splits)
qed

lemma send_completed_sends:
  assumes "handler_ok h" and "hd_writer h = AwaitComplete pid c" and "send_completed pid c h = Some res"
  shows "sends h res"
proof -
  have ok: "conditions_ok h" and u: "hd_used_ids h = [0]" and pid: "pid = 0"
    using assms(1,2) by (auto simp: handler_ok_def)
  obtain q h1 where w: "wait_for_packet c h = Some (q, h1)"
    using assms(3) by (auto simp: send_completed_def split: option.splits)
  show ?thesis
    using assms(3) ok u pid wait_for_packet_Some [OF w]
    by (auto simp: send_completed_def w sends_def release_id_def conditions_ok_filter)
qed

lemma after_send_ok:
  assumes "handler_ok h" and "sends h res"
  shows "handler_ok (fst (after_send loads res br))"
proof -
  obtain x h1 where res: "res = (x, h1)" by (cases res)
  show ?thesis
  proof (cases x)
    case (Inl e)
    have "handler_ok (h1\<lparr>hd_writer := WriterDone\<rparr>)"
      using assms Inl by (auto simp: res sends_def handler_ok_def)
    then show ?thesis by (simp add: after_send_def res Inl end_writer_ok)
  next
    case (Inr w)
    then show ?thesis using assms by (auto simp: res sends_def handler_ok_def after_send_def)
  qed
qed

lemma write_loop_round_effect:
  assumes "handler_ok h" and "write_loop_round loads r h br = Some s"
  shows "sound (h, br) s \<and> handler_ok (fst s)"
proof -
  have "\<exists>res br'. s = after_send loads res br' \<and> sends h res \<and> br_subs br' = br_subs br
      \<and> br_tm br' = br_tm br \<and> br_clients br' = br_clients br"
  proof (cases "hd_writer h")
    case Ready
    then obtain m ms where "br_queues br r = m # ms" "s = after_send loads (send_message m h)
        (br\<lparr>br_queues := (br_queues br)(r := ms)\<rparr>)"
      using assms(2) by (auto simp: write_loop_round_def split: list.splits)
    then show ?thesis
      using send_message_sends [OF assms(1) Ready, of m]
      by (intro exI [of _ "send_message m h"] exI [of _ "br\<lparr>br_queues := (br_queues br)(r := ms)\<rparr>"]) simp
  next
    case (AwaitAck m pid c)
    then obtain res where "send_acknowledged m pid c h = Some res" "s = after_send loads res br"
      using assms(2) by (auto simp: write_loop_round_def)
    then show ?thesis using send_acknowledged_sends [OF assms(1) AwaitAck]
      by (intro exI [of _ res] exI [of _ br]) simp
  next
    case (AwaitComplete pid c)
    then obtain res where "send_completed pid c h = Some res" "s = after_send loads res br"
      using assms(2) by (auto simp: write_loop_round_def)
    then show ?thesis using send_completed_sends [OF assms(1) AwaitComplete]
      by (intro exI [of _ res] exI [of _ br]) simp
  qed (use assms(2) in \<open>simp add: write_loop_round_def\<close>)
  then obtain res br' where s: "s = after_send loads res br'" and r: "sends h res"
    "br_subs br' = br_subs br" "br_tm br' = br_tm br" "br_clients br' = br_clients br" by blast
  show ?thesis
    using sound_after_send [of res h br' br loads] after_send_ok [OF assms(1) r(1)] r
    by (simp add: s sends_def)
qed

lemma handle_packet_effect:
  "hd_id (snd (handle_packet p h)) = hd_id h
   \<and> hd_subscriptions (snd (handle_packet p h)) = hd_subscriptions h
   \<and> hd_linked (snd (handle_packet p h)) = hd_linked h
   \<and> hd_used_ids (snd (handle_packet p h)) = hd_used_ids h
   \<and> hd_writer (snd (handle_packet p h)) = hd_writer h
   \<and> hd_reader (snd (handle_packet p h)) = hd_reader h
   \<and> (conditions_ok h \<longrightarrow> conditions_ok (snd (handle_packet p h)))"
proof -
  obtain x h1 where n: "packet_notify p h = (x, h1)" by fastforce
  have h1: "h1 = h\<lparr>hd_conditions := hd_conditions h1\<rparr>" "map cd_ref (hd_conditions h1) = map cd_ref (hd_conditions h)"
    using packet_notify_fields [of p h] by (simp_all add: n)
  have f: "hd_id h1 = hd_id h" "hd_subscriptions h1 = hd_subscriptions h" "hd_linked h1 = hd_linked h"
    "hd_used_ids h1 = hd_used_ids h" "hd_writer h1 = hd_writer h" "hd_reader h1 = hd_reader h"
    "hd_next_ref h1 = hd_next_ref h"
    by (subst h1(1), simp)+
  have "conditions_ok h \<longrightarrow> conditions_ok h1" using h1(2) f(7) by (simp add: conditions_ok_refs)
  with f show ?thesis
    by (auto simp: handle_packet_def n split: sum.split bool.split)
qed

lemma read_loop_round_effect:
  assumes "handler_ok h" and "read_loop_round loads h br = Some s"
  shows "sound (h, br) s \<and> handler_ok (fst s)"
proof -
  have rd: "hd_reader h = Reading" using assms(2) by (simp add: read_loop_round_def split: if_splits)
  then have i: "hd_id h \<noteq> None" using assms(1) by (simp add: handler_ok_def)
  note e = handle_packet_effect
  have ok: "handler_ok (snd (handle_packet p (h\<lparr>hd_in := rest\<rparr>)))" for p rest
    using assms(1) i e [of p "h\<lparr>hd_in := rest\<rparr>"] by (auto simp: handler_ok_def)
  have snd_p: "sound (h, br) (snd (handle_packet p (h\<lparr>hd_in := rest\<rparr>)), br)" for p rest
    using e [of p "h\<lparr>hd_in := rest\<rparr>"] by (intro sound_handler) simp_all
  show ?thesis
    using assms(2) rd ok snd_p sound_end_reader [of h br loads] end_reader_ok [OF assms(1), of loads br]
      sound_trans [OF snd_p sound_end_reader] end_reader_ok [OF ok]
    by (auto simp: read_loop_round_def split: if_splits sum.splits prod.splits) (metis snd_conv)+
qed

section \<open>The invariant of the world\<close>

definition world_ok :: "world \<Rightarrow> bool" where
  "world_ok w \<longleftrightarrow> broker_ok (w_broker w)
     \<and> (\<forall>r h. w_handlers w r = Some h \<longrightarrow> handler_ok h)
     \<and> (\<forall>c r. br_clients (w_broker w) c = Some r \<longrightarrow> (\<exists>h. w_handlers w r = Some h \<and> hd_id h = Some c))
     \<and> (\<forall>p c. rdd_path p \<longrightarrow> registered (br_subs (w_broker w)) p c \<noteq> None \<longrightarrow>
          (\<exists>r h. w_handlers w r = Some h \<and> covered h c p))"

lemma world_ok_broker: "world_ok w \<Longrightarrow> broker_ok (w_broker w)"
  by (simp add: world_ok_def)

lemma world_ok_handler: "world_ok w \<Longrightarrow> w_handlers w r = Some h \<Longrightarrow> handler_ok h"
  by (simp add: world_ok_def)

lemma world_ok_client: "world_ok w \<Longrightarrow> br_clients (w_broker w) c = Some r \<Longrightarrow>
    \<exists>h. w_handlers w r = Some h \<and> hd_id h = Some c"
  unfolding world_ok_def by blast

lemma world_ok_covered: "world_ok w \<Longrightarrow> rdd_path p \<Longrightarrow> registered (br_subs (w_broker w)) p c \<noteq> None \<Longrightarrow>
    \<exists>r h. w_handlers w r = Some h \<and> covered h c p"
  unfolding world_ok_def by blast

lemma registered_empty [simp]: "rdd_path p \<Longrightarrow> registered (PyRdd []) p c = None"
  by (cases p) (auto simp: registered_def rdd_path_def leaf_at.simps split: option.split)

lemma new_world_ok: "world_ok new_world"
  by (auto simp: world_ok_def new_world_def new_broker_ok)
     (auto simp: new_broker_def)

lemma put_ok:
  assumes "world_ok w" and "w_handlers w r = Some h" and "sound (h, w_broker w) s" and "handler_ok (fst s)"
  shows "world_ok (put r s w)"
proof -
  have ok: "broker_ok (w_broker w)" using assms(1) by (simp add: world_ok_def)
  have s: "hd_id (fst s) = hd_id h" "broker_ok (snd s)"
    "\<And>c r. br_clients (snd s) c = Some r \<Longrightarrow> br_clients (w_broker w) c = Some r"
    "\<And>p c. rdd_path p \<Longrightarrow> registered (br_subs (snd s)) p c \<noteq> None \<Longrightarrow>
       covered (fst s) c p \<or> registered (br_subs (w_broker w)) p c \<noteq> None \<and> \<not> covered h c p"
    using assms(3) ok by (simp_all add: sound_def)
  have "\<exists>r' h'. w_handlers (put r s w) r' = Some h' \<and> covered h' c p"
    if "rdd_path p" "registered (br_subs (snd s)) p c \<noteq> None" for p c
  proof (cases "covered (fst s) c p")
    case True
    then show ?thesis by (auto simp: put_def)
  next
    case False
    with s(4) [OF that] have "registered (br_subs (w_broker w)) p c \<noteq> None" "\<not> covered h c p" by auto
    with world_ok_covered [OF assms(1) that(1)] obtain r' h'
      where "w_handlers w r' = Some h'" "covered h' c p" by blast
    with \<open>\<not> covered h c p\<close> assms(2) have "w_handlers (put r s w) r' = Some h'" by (auto simp: put_def)
    with \<open>covered h' c p\<close> show ?thesis by blast
  qed
  moreover have "\<exists>h'. w_handlers (put r s w) r' = Some h' \<and> hd_id h' = Some c"
    if "br_clients (snd s) c = Some r'" for c r'
    using world_ok_client [OF assms(1) s(3) [OF that]] assms(2) s(1) by (auto simp: put_def)
  ultimately show ?thesis
    using assms(1,4) s(2) by (auto simp: world_ok_def put_def)
qed

lemma put_fields [simp]:
  "w_broker (put r s w) = snd s" "w_handlers (put r s w) = (w_handlers w)(r \<mapsto> fst s)"
  by (simp_all add: put_def)

lemma override_ok: "handler_ok h \<Longrightarrow> handler_ok (fst (override_connection loads h br))"
  by (auto simp: handler_ok_def override_connection_def disconnect_def Let_def)

lemma disconnect_ok: "handler_ok h \<Longrightarrow> handler_ok (fst (disconnect loads h br))"
  by (auto simp: handler_ok_def disconnect_def Let_def)

text \<open>Adding a session: the other connection of the client ends, then this one is entered.\<close>

lemma add_session_eq:
  assumes "world_ok w"
  shows "\<exists>w1. world_ok w1
    \<and> (\<forall>r'. w_handlers w1 r' = w_handlers w r'
         \<or> (\<exists>hp. br_clients (w_broker w) cid = Some r' \<and> w_handlers w r' = Some hp))
    \<and> br_queues (w_broker w1) = br_queues (w_broker w)
    \<and> add_session loads cid r h w =
        put r (h, (w_broker w1)\<lparr>br_clients := (br_clients (w_broker w1))(cid \<mapsto> r)\<rparr>) w1"
proof (cases "br_clients (w_broker w) cid")
  case None
  with assms show ?thesis
    by (intro exI [of _ w]) (simp add: add_session_def add_client_def put_def Let_def)
next
  case (Some prev)
  then obtain hp where hp: "w_handlers w prev = Some hp"
    using world_ok_client [OF assms] by blast
  let ?w1 = "put prev (override_connection loads hp (w_broker w)) w"
  have ok: "broker_ok (w_broker w)" using assms by (simp add: world_ok_def)
  have "world_ok ?w1" by (rule put_ok [OF assms hp sound_override override_ok [OF world_ok_handler [OF assms hp]]])
  moreover have "br_queues (w_broker ?w1) = br_queues (w_broker w)"
    by (simp add: override_connection_def disconnect_def Let_def handle_disconnected_fields [OF ok])
  ultimately show ?thesis
    using Some hp by (intro exI [of _ ?w1]) (simp add: add_session_def add_client_def put_def Let_def)
qed

lemma add_session_ok:
  assumes "world_ok w" and "w_handlers w r = Some h0" and "hd_id h0 = None"
    and "handler_ok h" and "hd_id h = Some cid"
  shows "world_ok (add_session loads cid r h w)"
proof -
  obtain w1 where w1: "world_ok w1"
    "\<forall>r'. w_handlers w1 r' = w_handlers w r'
         \<or> (\<exists>hp. br_clients (w_broker w) cid = Some r' \<and> w_handlers w r' = Some hp)"
    and eq: "add_session loads cid r h w =
        put r (h, (w_broker w1)\<lparr>br_clients := (br_clients (w_broker w1))(cid \<mapsto> r)\<rparr>) w1"
    using add_session_eq [OF assms(1), of cid loads r h] by blast
  have "br_clients (w_broker w) cid \<noteq> Some r"
    using world_ok_client [OF assms(1), of cid r] assms(2,3) by auto
  with w1(2) assms(2) have h0: "w_handlers w1 r = Some h0" by metis
  have "\<exists>r' h'. w_handlers (put r (h, br) w1) r' = Some h' \<and> covered h' c p"
    if reg: "rdd_path p" "registered (br_subs (w_broker w1)) p c \<noteq> None" for p c br
  proof -
    obtain r' h' where "w_handlers w1 r' = Some h'" "covered h' c p"
      using world_ok_covered [OF w1(1) reg] by blast
    moreover from this have "r' \<noteq> r" using h0 assms(3) by (auto simp: covered_def)
    ultimately show ?thesis by (auto simp: put_def)
  qed
  moreover have "br_clients (w_broker w1) c \<noteq> Some r" for c
    using world_ok_client [OF w1(1), of c r] h0 assms(3) by auto
  ultimately show ?thesis
    using w1(1) assms(4,5) unfolding eq by (auto simp: world_ok_def broker_ok_def)
qed

text \<open>A connection without an id is in no list of the broker; it may change as it likes.\<close>

lemma put_fresh_ok:
  assumes "world_ok w" and "w_handlers w r = Some h" and "hd_id h = None" and "handler_ok h'"
  shows "world_ok (put r (h', w_broker w) w)"
proof -
  have "\<exists>r' h''. w_handlers (put r (h', w_broker w) w) r' = Some h'' \<and> covered h'' c p"
    if reg: "rdd_path p" "registered (br_subs (w_broker w)) p c \<noteq> None" for p c
  proof -
    obtain r' h'' where "w_handlers w r' = Some h''" "covered h'' c p"
      using world_ok_covered [OF assms(1) reg] by blast
    moreover from this have "r' \<noteq> r" using assms(2,3) by (auto simp: covered_def)
    ultimately show ?thesis by auto
  qed
  moreover have "\<exists>h''. w_handlers (put r (h', w_broker w) w) r' = Some h'' \<and> hd_id h'' = Some c"
    if "br_clients (w_broker w) c = Some r'" for c r'
    using world_ok_client [OF assms(1) that] assms(2,3) by auto
  ultimately show ?thesis
    using assms(1,4) by (auto simp: world_ok_def)
qed

lemma handler_ok_network [simp]:
  "handler_ok (h\<lparr>hd_in := bs\<rparr>) = handler_ok h" "handler_ok (h\<lparr>hd_open := b\<rparr>) = handler_ok h"
  by (simp_all add: handler_ok_def)

lemma write_packet_shape: "\<exists>os. snd (write_packet cls flags kws h) = h\<lparr>hd_sent := os\<rparr>"
proof -
  have "\<exists>os. h = h\<lparr>hd_sent := os\<rparr>" by (rule exI [of _ "hd_sent h"]) simp
  then show ?thesis by (auto simp: write_packet_def split: sum.split)
qed

text \<open>The read loop up to the first request ends the session or enters the client into the list.\<close>

definition connect_outcome ::
    "(string \<Rightarrow> py_error + pyobj) \<Rightarrow> ref \<Rightarrow> handler \<Rightarrow> world \<Rightarrow> world \<Rightarrow> bool" where
  "connect_outcome loads r h w w' \<longleftrightarrow>
     (\<exists>bs i m os. w' = put r (end_reader loads (h\<lparr>hd_in := bs, hd_id := i, hd_last_will := m, hd_sent := os\<rparr>)
        (w_broker w)) w)
   \<or> (\<exists>bs cid m os ka. w' = add_session loads cid r (h\<lparr>hd_in := bs, hd_id := Some cid, hd_last_will := m,
        hd_sent := os, hd_linked := True, hd_keep_alive := Some ka, hd_reader := Reading\<rparr>) w)"

lemma connect_client_outcome: "connect_client loads r h w = Some w' \<Longrightarrow> connect_outcome loads r h w w'"
proof -
  assume c: "connect_client loads r h w = Some w'"
  let ?P = "connect_outcome loads r h w"
  have f: "?P (put r (end_reader loads (h\<lparr>hd_in := bs, hd_id := i, hd_last_will := m, hd_sent := os\<rparr>) (w_broker w)) w)"
    for bs i m os
    unfolding connect_outcome_def by blast
  have g: "?P (add_session loads cid r (h\<lparr>hd_in := bs, hd_id := Some cid, hd_last_will := m, hd_sent := os,
      hd_linked := True, hd_keep_alive := Some ka, hd_reader := Reading\<rparr>) w)" for bs cid m os ka
    unfolding connect_outcome_def by (rule disjI2) (intro exI, rule refl)
  have f0: "?P (put r (end_reader loads h (w_broker w)) w)"
    using f [where bs = "hd_in h" and i = "hd_id h" and m = "hd_last_will h" and os = "hd_sent h"] by simp
  have f1: "?P (put r (end_reader loads (h\<lparr>hd_in := bs, hd_id := i\<rparr>) (w_broker w)) w)" for bs i
    using f [where bs = bs and i = i and m = "hd_last_will h" and os = "hd_sent h"] by (cases h) simp
  have e: "?P w'" if "(case write_packet ConnectAcknowledgePacket (FlagInt 0) kws
          (h\<lparr>hd_in := bs, hd_id := Some cid, hd_last_will := m\<rparr>) of
        (Inl e, h2) \<Rightarrow> Some (put r (end_reader loads h2 (w_broker w)) w)
      | (Inr u, h2) \<Rightarrow> Some (add_session loads cid r
          (h2\<lparr>hd_linked := True, hd_keep_alive := Some ka, hd_reader := Reading\<rparr>) w)) = Some w'" for kws bs cid m ka
  proof -
    obtain y os where wp: "write_packet ConnectAcknowledgePacket (FlagInt 0) kws
        (h\<lparr>hd_in := bs, hd_id := Some cid, hd_last_will := m\<rparr>) =
        (y, h\<lparr>hd_in := bs, hd_id := Some cid, hd_last_will := m, hd_sent := os\<rparr>)"
      using write_packet_shape by (metis prod.collapse)
    show ?thesis
    proof (cases y)
      case (Inl e)
      with that have "put r (end_reader loads (h\<lparr>hd_in := bs, hd_id := Some cid, hd_last_will := m, hd_sent := os\<rparr>)
          (w_broker w)) w = w'" by (simp add: wp)
      then show ?thesis using f by (rule subst)
    next
      case (Inr u)
      with that have "add_session loads cid r (h\<lparr>hd_in := bs, hd_id := Some cid, hd_last_will := m, hd_sent := os,
          hd_linked := True, hd_keep_alive := Some ka, hd_reader := Reading\<rparr>) w = w'" by (simp add: wp)
      then show ?thesis using g by (rule subst)
    qed
  qed
  show ?thesis
    using c unfolding connect_client_def Let_def
    by (auto intro: f0 f1 e split: sum.splits if_splits)
qed

lemma connect_client_ok:
  assumes "world_ok w" and h: "w_handlers w r = Some h" and "hd_reader h = Connecting"
    and "connect_client loads r h w = Some w'"
  shows "world_ok w'"
proof -
  have ok: "handler_ok h" by (rule world_ok_handler [OF assms(1) h])
  with assms(3) have i: "hd_id h = None" and s: "hd_subscriptions h = []" "hd_threads h = []" "\<not> hd_linked h"
    by (auto simp: handler_ok_def)
  from connect_client_outcome [OF assms(4)] show ?thesis unfolding connect_outcome_def
  proof (elim disjE exE)
    fix bs j m os
    let ?h1 = "h\<lparr>hd_in := bs, hd_id := j, hd_last_will := m, hd_sent := os\<rparr>"
    assume w': "w' = put r (end_reader loads ?h1 (w_broker w)) w"
    have "handler_ok (fst (end_reader loads ?h1 (w_broker w)))"
      using ok s by (auto simp: end_reader_handler handler_ok_def conditions_ok_def)
    moreover have "snd (end_reader loads ?h1 (w_broker w)) = w_broker w"
      using s(3) by (simp add: end_reader_def split_beta) (simp add: leave_loop_def Let_def)
    ultimately show ?thesis
      using put_fresh_ok [OF assms(1) h i, of "fst (end_reader loads ?h1 (w_broker w))"]
      by (metis w' prod.collapse)
  next
    fix bs cid m os ka
    let ?h1 = "h\<lparr>hd_in := bs, hd_id := Some cid, hd_last_will := m, hd_sent := os,
        hd_linked := True, hd_keep_alive := Some ka, hd_reader := Reading\<rparr>"
    assume w': "w' = add_session loads cid r ?h1 w"
    have "handler_ok ?h1" using ok by (auto simp: handler_ok_def conditions_ok_def)
    then show ?thesis unfolding w' by (intro add_session_ok [OF assms(1) h i]) simp_all
  qed
qed

lemma main_loop_fields:
  assumes "main_loop_round br = Some br'"
  shows "br_clients br' = br_clients br" "br_subs br' = br_subs br"
proof -
  have d: "br_clients (snd (deliver_to t d items br)) = br_clients br" for t d items br
    by (induction t d items br rule: deliver_to.induct)
       (auto simp: queue_message_def split: option.split pyobj.split)
  have m: "br_clients (snd (deliver_messages ms br)) = br_clients br" for ms br
  proof (induction ms br rule: deliver_messages.induct)
    case (2 c nodes data ms br)
    show ?case
      using d [of "str_from_nodes nodes" data _ br] 2
      by (auto split: sum.split prod.split) (metis snd_conv)+
  qed simp
  show "br_clients br' = br_clients br" "br_subs br' = br_subs br"
    using assms m by (auto simp: main_loop_round_def process_outgoing_rows_def Let_def
        deliver_messages_fields split: list.splits sum.splits if_splits)
qed

lemma shuffle_ok:
  assumes "world_ok w" and "w_handlers w r = Some h" and "mset ts = mset (hd_subscriptions h)"
    and "mset cs = mset (hd_conditions h)"
  shows "world_ok (put r (h\<lparr>hd_subscriptions := ts, hd_conditions := cs\<rparr>, w_broker w) w)"
proof -
  have h: "handler_ok h" by (rule world_ok_handler [OF assms(1,2)])
  have c: "set cs = set (hd_conditions h)" "set ts = set (hd_subscriptions h)"
    by (rule mset_eq_setD, rule assms(4), rule mset_eq_setD, rule assms(3))
  have "mset (map cd_ref cs) = mset (map cd_ref (hd_conditions h))" using assms(4) by simp
  then have "distinct (map cd_ref cs) = distinct (map cd_ref (hd_conditions h))"
    by (rule mset_eq_imp_distinct_iff)
  moreover have "hd_subscriptions h = [] \<Longrightarrow> ts = []" using c(2) by simp
  ultimately have "handler_ok (h\<lparr>hd_subscriptions := ts, hd_conditions := cs\<rparr>)"
    using h c(1) by (auto simp: handler_ok_def conditions_ok_def)
  moreover have "covered (h\<lparr>hd_subscriptions := ts, hd_conditions := cs\<rparr>) c p = covered h c p" for c p
    by (simp add: covered_def c(2))
  then have "sound (h, w_broker w) (h\<lparr>hd_subscriptions := ts, hd_conditions := cs\<rparr>, w_broker w)"
    by (simp add: sound_def)
  ultimately show ?thesis by (intro put_ok [OF assms(1,2)]) simp_all
qed

lemma step_ok:
  assumes "step loads tq w w'" and "world_ok w"
  shows "world_ok w'"
  using assms
proof (induction rule: step.induct)
  case (accept w r)
  then show ?case
    by (auto simp: world_ok_def new_connection_ok put_def split: if_splits) (metis option.distinct(1))+
next
  case (receive w r h bs)
  then have "handler_ok h" by (auto dest: world_ok_handler)
  then show ?case by (intro put_ok [OF receive(2,1)]) (simp_all add: sound_handler)
next
  case (break w r h)
  then have "handler_ok h" by (auto dest: world_ok_handler)
  then show ?case by (intro put_ok [OF break(2,1)]) (simp_all add: sound_handler)
next
  case (shuffle w r h ts cs)
  show ?case by (rule shuffle_ok [OF shuffle(4,1,2,3)])
next
  case (connect w r h w')
  show ?case by (rule connect_client_ok [OF connect(4,1,2,3)])
next
  case (read w r h s)
  note e = read_loop_round_effect [OF world_ok_handler [OF read(3,1)] read(2)]
  show ?case by (rule put_ok [OF read(3,1) conjunct1 [OF e] conjunct2 [OF e]])
next
  case (lost w r h)
  show ?case by (rule put_ok [OF lost(3,1) sound_end_reader end_reader_ok [OF world_ok_handler [OF lost(3,1)]]])
next
  case (run w r h ts t ts' s)
  let ?h = "h\<lparr>hd_threads := ts @ ts'\<rparr>"
  have h: "handler_ok h" using run by (auto dest: world_ok_handler)
  have i: "hd_id h \<noteq> None" using h run(2) by (auto simp: handler_ok_def)
  have ok: "handler_ok ?h" "hd_id ?h \<noteq> None" using h i by (auto simp: handler_ok_def)
  from run_thread_effect [OF ok(2) run(3)]
  have e: "sound (?h, w_broker w) s" "tame_threads ?h (fst s)" by blast+
  have "sound (h, w_broker w) s"
    by (rule sound_trans [OF _ e(1)]) (simp add: sound_handler)
  then show ?case using put_ok [OF run(4,1) _ handler_ok_tame [OF ok e(2)]] by blast
next
  case (send w r h s)
  note e = write_loop_round_effect [OF world_ok_handler [OF send(3,1)] send(2)]
  show ?case by (rule put_ok [OF send(3,1) conjunct1 [OF e] conjunct2 [OF e]])
next
  case (deliver w br)
  then have "broker_ok br" using main_loop_round_keeps world_ok_broker by blast
  with deliver show ?case using main_loop_fields [OF deliver(1)] by (simp add: world_ok_def)
next
  case (stop w r h)
  show ?case by (rule put_ok [OF stop(2,1) sound_disconnect disconnect_ok [OF world_ok_handler [OF stop(2,1)]]])
qed

lemma reachable_ok: "reachable loads tq w \<Longrightarrow> world_ok w"
  by (induction rule: reachable.induct) (auto intro: new_world_ok step_ok)

end
