(* ===== verification/Session_Properties.thy ===== *)
theory Session_Properties
  imports World_Safe
begin

text \<open>
  What a client can rely on: the properties of connections in reachable states of the broker,
  of the packet ids, of the acknowledged deliveries, and of the end of a connection.
\<close>

section \<open>A connected client\<close>

definition connect_bytes :: bytes where
  "connect_bytes = [0x10, 14, 0, 4, 77, 81, 84, 84, 4, 2, 0, 60, 0, 2, 99, 49]"

definition subscribe_bytes :: bytes where
  "subscribe_bytes = [0x82, 6, 0, 1, 0, 1, 97, 1]"

definition demo_client :: handler where
  "demo_client = new_connection\<lparr>hd_id := Some ''c1'', hd_linked := True, hd_keep_alive := Some 61,
     hd_sent := [[0x20, 2, 0, 0]], hd_reader := Reading\<rparr>"

definition demo_connected :: world where
  "demo_connected = \<lparr>w_broker = new_broker\<lparr>br_clients := [''c1'' \<mapsto> 0]\<rparr>, w_handlers = [0 \<mapsto> demo_client]\<rparr>"

lemma read_connect_bytes: "read_packet_as ConnectPacket connect_bytes =
    Inr (\<lparr>pk_class = ConnectPacket, pk_flags = FlagInt 0, pk_length = 14,
      pk_kwargs = [(''protocol_name'', Value (VStr ''MQTT'')), (''protocol_level'', Value (VInt 4)),
        (''connect_flags'', Value (VConnectFlags (connect_flags_from_int 2))),
        (''keep_alive'', Value (VInt 60)), (''client_id'', Value (VStr ''c1''))]\<rparr>, [])"
  by code_simp

lemma connack_bytes: "packet_to_bytes ConnectAcknowledgePacket (FlagInt 0)
    [(''session_parent'', Value (VInt 0)), (''return_code'', Value (VInt 0))] = Inr [0x20, 2, 0, 0]"
  by code_simp

lemma no_last_will: "\<not> cf_enable_last_will (connect_flags_from_int 2)"
  by code_simp

lemma demo_connected_reachable: "reachable loads tq demo_connected"
proof -
  let ?w1 = "put 0 (new_connection, w_broker new_world) new_world"
  have 1: "reachable loads tq ?w1"
    by (rule reachable.next_step [OF reachable.start step.accept]) (simp add: new_world_def)
  let ?h2 = "new_connection\<lparr>hd_in := connect_bytes\<rparr>"
  let ?w2 = "put 0 (?h2, w_broker ?w1) ?w1"
  have "step loads tq ?w1 (put 0 (new_connection\<lparr>hd_in := hd_in new_connection @ connect_bytes\<rparr>, w_broker ?w1) ?w1)"
    by (rule step.receive) simp
  then have 2: "reachable loads tq ?w2" by (intro reachable.next_step [OF 1]) (simp add: new_connection_def)
  have "connect_client loads 0 ?h2 ?w2 = Some demo_connected"
    by (simp add: connect_client_def read_connect_bytes get_str_def get_int_def get_last_will_def
        get_connect_flags_def no_last_will write_packet_def connack_bytes add_session_def add_client_def
        new_world_def new_broker_def demo_connected_def demo_client_def new_connection_def Let_def)
  then have "step loads tq ?w2 demo_connected"
    by (intro step.connect [of _ 0]) (simp_all add: new_connection_def)
  then show ?thesis by (rule reachable.next_step [OF 2])
qed

definition demo_subscribe_packet :: packet where
  "demo_subscribe_packet = \<lparr>pk_class = SubscribePacket, pk_flags = FlagInt 2, pk_length = 6,
     pk_kwargs = [(''id'', Value (VInt 1)),
       (''requests'', Records [[(''topic'', VStr ''a''), (''qos'', VInt 1)]])]\<rparr>"

definition demo_subscribed :: "world" where
  "demo_subscribed =
     \<lparr>w_broker = snd (subscribe no_tables ''c1'' 0 ''a'' 1 False (w_broker demo_connected)),
      w_handlers = [0 \<mapsto> demo_client\<lparr>hd_subscriptions := [''a''],
        hd_sent := [[0x20, 2, 0, 0], [0x90, 3, 0, 1, 1]]\<rparr>]\<rparr>"

lemma read_subscribe_bytes: "read_next_packet subscribe_bytes = Inr (demo_subscribe_packet, [])"
  by code_simp

lemma suback_bytes: "packet_to_bytes SubscribeAcknowledgePacket (FlagInt 0)
    [(''id'', Value (VInt 1)), (''response_codes'', Items [VInt 1])] = Inr [0x90, 3, 0, 1, 1]"
  by code_simp

lemma subscribe_plain:
  assumes "broker_ok br" and "t \<noteq> []" and "hd t \<noteq> TABLE_FLAG" and "hd t \<noteq> TOPIC_SEP"
  shows "fst (subscribe tq cid r t q False br) = Inr True"
proof -
  have "subs_ok (br_subs br)" using assms(1) by (simp add: broker_ok_def)
  moreover have "for_table (topic_of t) = Inr False" using assms(2-4) by (cases t) (simp_all add: for_table_topic_of)
  ultimately show ?thesis
    using subscribe_tree_spec [OF _ topic_nodes_path [of t], of _ cid q]
    by (simp add: subscribe_def Let_def split_beta)
qed

lemma demo_connected_ok: "world_ok demo_connected"
  by (rule reachable_ok [OF demo_connected_reachable])

lemma demo_subscribed_reachable: "reachable loads no_tables demo_subscribed"
proof -
  let ?h1 = "demo_client\<lparr>hd_in := subscribe_bytes\<rparr>"
  let ?w0 = demo_connected
  let ?w1 = "put 0 (?h1, w_broker ?w0) ?w0"
  have h: "w_handlers ?w0 0 = Some demo_client" by (simp add: demo_connected_def)
  have "step loads no_tables ?w0 (put 0 (demo_client\<lparr>hd_in := hd_in demo_client @ subscribe_bytes\<rparr>, w_broker ?w0) ?w0)"
    by (rule step.receive [OF h])
  then have 1: "reachable loads no_tables ?w1"
    by (intro reachable.next_step [OF demo_connected_reachable]) (simp add: demo_client_def new_connection_def)
  let ?h2 = "demo_client\<lparr>hd_threads := [Start demo_subscribe_packet]\<rparr>"
  let ?w2 = "put 0 (?h2, w_broker ?w1) ?w1"
  have "read_loop_round loads ?h1 (w_broker ?w1) = Some (?h2, w_broker ?w1)"
    by (simp add: read_loop_round_def read_subscribe_bytes handle_packet_def packet_map_def
        demo_subscribe_packet_def demo_client_def new_connection_def)
  then have "step loads no_tables ?w1 ?w2" by (intro step.read [of _ _ ?h1]) simp_all
  with 1 have 2: "reachable loads no_tables ?w2" by (rule reachable.next_step)
  have ok: "broker_ok (w_broker ?w0)" by (rule world_ok_broker [OF demo_connected_ok])
  have s: "subscribe no_tables ''c1'' 0 ''a'' 1 False (w_broker ?w0) = (Inr True, w_broker demo_subscribed)"
    using subscribe_plain [OF ok, of "''a''" no_tables "''c1''" 0 1]
    by (simp add: const_defs demo_subscribed_def prod_eq_iff)
  have "run_thread loads no_tables 0 (Start demo_subscribe_packet) (?h2\<lparr>hd_threads := []\<rparr>) (w_broker ?w2) =
      Some (demo_client\<lparr>hd_subscriptions := [''a''], hd_sent := [[0x20, 2, 0, 0], [0x90, 3, 0, 1, 1]]\<rparr>,
        w_broker demo_subscribed)"
    using s suback_bytes
    by (simp add: start_thread_def handle_subscribe_def demo_subscribe_packet_def request_of_def
        const_defs client_key_def get_int_def write_packet_def id_kwarg_def demo_client_def
        new_connection_def)
  then have "step loads no_tables ?w2 (put 0 (demo_client\<lparr>hd_subscriptions := [''a''],
      hd_sent := [[0x20, 2, 0, 0], [0x90, 3, 0, 1, 1]]\<rparr>, w_broker demo_subscribed) ?w2)"
    by (intro step.run [of _ _ ?h2 "[]" "Start demo_subscribe_packet" "[]"]) simp_all
  moreover have "put 0 (demo_client\<lparr>hd_subscriptions := [''a''],
      hd_sent := [[0x20, 2, 0, 0], [0x90, 3, 0, 1, 1]]\<rparr>, w_broker demo_subscribed) ?w2 = demo_subscribed"
    by (simp add: put_def demo_subscribed_def demo_connected_def)
  ultimately show ?thesis using reachable.next_step [OF 2] by simp
qed

lemma demo_registered: "registered (br_subs (w_broker demo_subscribed)) [''a''] ''c1'' = Some 1"
proof -
  have t: "topic_nodes ''a'' = [''a'']" by (simp add: topic_nodes_def const_defs)
  have ok: "broker_ok (w_broker demo_connected)" by (rule world_ok_broker [OF demo_connected_ok])
  from registered_subscribe [OF ok, of "[''a'']" no_tables "''c1''" 0 "''a''" 1 False "''c1''"]
    subscribe_plain [OF ok, of "''a''" no_tables "''c1''" 0 1]
  show ?thesis by (auto simp: t demo_subscribed_def rdd_path_def const_defs)
qed

section \<open>The invariant\<close>

text \<open>
  C1: Whatever the clients send and however the threads interleave, the retained tree and the
  subscription tree stay well-formed, the client list only names connections with the id they
  are listed under, and every registration in the subscription tree is remembered by a
  connection of its client, so that this connection's end removes it.
\<close>

theorem registrations_remembered:
  assumes "reachable loads tq w"
  shows "broker_ok (w_broker w)
    \<and> (\<forall>c r. br_clients (w_broker w) c = Some r \<longrightarrow> (\<exists>h. w_handlers w r = Some h \<and> hd_id h = Some c))
    \<and> (\<forall>p c. LEAF_KEY \<notin> set p \<longrightarrow> p \<noteq> [] \<longrightarrow> registered (br_subs (w_broker w)) p c \<noteq> None \<longrightarrow>
         (\<exists>r h t. w_handlers w r = Some h \<and> hd_id h = Some c \<and> t \<in> set (hd_subscriptions h)
            \<and> topic_nodes t = p))"
proof (intro conjI allI impI)
  note ok = reachable_ok [OF assms]
  show "broker_ok (w_broker w)" by (rule world_ok_broker [OF ok])
  show "\<exists>h. w_handlers w r = Some h \<and> hd_id h = Some c" if "br_clients (w_broker w) c = Some r" for c r
    by (rule world_ok_client [OF ok that])
  fix p c
  assume "LEAF_KEY \<notin> set p" "p \<noteq> []" and reg: "registered (br_subs (w_broker w)) p c \<noteq> None"
  then have "rdd_path p" by (simp add: rdd_path_def)
  from world_ok_covered [OF ok this reg] show "\<exists>r h t. w_handlers w r = Some h \<and> hd_id h = Some c
      \<and> t \<in> set (hd_subscriptions h) \<and> topic_nodes t = p"
    by (auto simp: covered_def)
qed

lemma registrations_remembered_witness:
  "registered (br_subs (w_broker demo_subscribed)) [''a''] ''c1'' = Some 1
   \<and> (\<exists>r h t. w_handlers demo_subscribed r = Some h \<and> hd_id h = Some ''c1''
        \<and> t \<in> set (hd_subscriptions h) \<and> topic_nodes t = [''a''])"
  using registrations_remembered [OF demo_subscribed_reachable] demo_registered
  by (simp add: const_defs)

section \<open>Packet ids\<close>

lemma next_id_loop_least:
  assumes "\<forall>j<i. j \<in> set used" and "i < 65535"
  shows "case next_id_loop used i of
      Inr k \<Rightarrow> k \<notin> set used \<and> (\<forall>j<k. j \<in> set used) \<and> k < 65535
    | Inl e \<Rightarrow> e = TooManyPacketIds \<and> (\<forall>j<65535. j \<in> set used)"
  using assms
proof (induction used i rule: next_id_loop.induct)
  case (1 used i)
  show ?case
  proof (cases "i \<in> set used")
    case True
    with "1.prems"(1) have all: "\<forall>j<Suc i. j \<in> set used" by (auto simp: less_Suc_eq)
    show ?thesis
    proof (cases "i + 1 = 65535")
      case lim: True
      then have "next_id_loop used i = Inl TooManyPacketIds" using True by (simp add: next_id_loop.simps)
      moreover have "\<forall>j<65535. j \<in> set used" using all lim by simp
      ultimately show ?thesis by simp
    next
      case False
      then have "next_id_loop used i = next_id_loop used (i + 1)" using True by (simp add: next_id_loop.simps)
      moreover have "i + 1 < 65535" using False "1.prems"(2) by simp
      ultimately show ?thesis using "1.IH" [OF True False] all by simp
    qed
  qed (use "1.prems" in \<open>simp add: next_id_loop.simps\<close>)
qed

text \<open>
  The search for a packet id always ends: with the least id that is not in use, below
  65535, and with an exception exactly when all the ids from 0 to 65534 are in use.
\<close>

theorem next_packet_id_least:
  "case next_packet_id used of
     Inr k \<Rightarrow> k \<notin> set used \<and> {0..<k} \<subseteq> set used \<and> k < 65535
   | Inl e \<Rightarrow> e = TooManyPacketIds \<and> {0..<65535} \<subseteq> set used"
  using next_id_loop_least [of 0 used] by (auto simp: next_packet_id_def split: sum.splits)

text \<open>
  The broker never runs out of packet ids and in fact only ever uses the id 0, which the
  protocol reserves: a connection sends one message at a time, and the next one finds no id in
  use.
\<close>

theorem packet_id_always_zero:
  assumes "reachable loads tq w" and "w_handlers w r = Some h"
  shows "set (hd_used_ids h) \<subseteq> {0} \<and> (hd_writer h = Ready \<longrightarrow> next_packet_id (hd_used_ids h) = Inr 0)
    \<and> (\<forall>m. hd_writer h = Ready \<longrightarrow> om_qos m \<noteq> 0 \<longrightarrow> packet_to_bytes PublishPacket
         (FlagGroup (publish_flags_from_kwargs (om_qos m) False))
         [(''topic'', Value (VStr (om_topic m))), (''data'', Value (data_value (om_data m))),
          (''id'', Value (VInt 0))] = Inr bs \<longrightarrow> hd_open h \<longrightarrow>
       hd_sent (snd (send_message m h)) = hd_sent h @ [bs])"
proof -
  have ok: "handler_ok h" by (rule world_ok_handler [OF reachable_ok [OF assms(1)] assms(2)])
  have ids: "hd_writer h = Ready \<Longrightarrow> hd_used_ids h = []" using ok by (simp add: handler_ok_def)
  have "hd_sent (snd (send_message m h)) = hd_sent h @ [bs]"
    if "hd_writer h = Ready" "om_qos m \<noteq> 0" "hd_open h"
      and bs: "packet_to_bytes PublishPacket (FlagGroup (publish_flags_from_kwargs (om_qos m) False))
         [(''topic'', Value (VStr (om_topic m))), (''data'', Value (data_value (om_data m))),
          (''id'', Value (VInt 0))] = Inr bs" for m
  proof -
    let ?h1 = "h\<lparr>hd_used_ids := [0]\<rparr>"
    have c: "conditions_ok ?h1" using ok by (simp add: handler_ok_def)
    have cr: "fst (create_packet_condition cls 0 ?h1) = Inr (hd_next_ref h)"
      "hd_open (snd (create_packet_condition cls 0 ?h1)) = hd_open h"
      "hd_sent (snd (create_packet_condition cls 0 ?h1)) = hd_sent h" for cls
      using create_condition_ok(1) [OF c, of cls 0]
      by (simp_all add: create_packet_condition_def Let_def)
    show ?thesis
      using that cr ids [OF that(1)]
      by (simp add: send_message_def Let_def split_beta write_publish_def write_packet_def id_kwarg_def
          or_release_def)
  qed
  then show ?thesis using ok ids by (auto simp: handler_ok_def)
qed

lemma publish_id_bytes: "packet_to_bytes PublishPacket (FlagGroup (publish_flags_from_kwargs 1 False))
    [(''topic'', Value (VStr ''a'')), (''data'', Value (data_value (PyBytes [120]))), (''id'', Value (VInt 0))] =
    Inr [0x32, 6, 0, 1, 97, 0, 0, 120]"
  by code_simp

lemma packet_id_always_zero_witness:
  "hd_sent (snd (send_message \<lparr>om_topic = ''a'', om_qos = 1, om_data = PyBytes [120]\<rparr> demo_client)) =
     [[0x20, 2, 0, 0], [0x32, 6, 0, 1, 97, 0, 0, 120]]"
proof -
  have h: "w_handlers demo_connected 0 = Some demo_client" by (simp add: demo_connected_def)
  have d: "hd_writer demo_client = Ready" "hd_open demo_client" "hd_sent demo_client = [[0x20, 2, 0, 0]]"
    by (simp_all add: demo_client_def new_connection_def)
  show ?thesis
    using packet_id_always_zero [OF demo_connected_reachable h, of "[0x32, 6, 0, 1, 97, 0, 0, 120]"]
      publish_id_bytes d by force
qed

section \<open>The end of a connection\<close>

text \<open>
  C5: A connection that ends takes its registrations with it. When the read loop (or the write
  loop) of a linked connection is left, the registrations of its client for the topics it
  remembers are gone and all others, of this client and of the others, are as they were; what is
  left for this client some other connection of it remembers. The client is taken off the list,
  unless its id is empty, and nothing is queued for anybody.
\<close>

theorem disconnect_cleans_up:
  assumes "reachable loads tq w" and "w_handlers w r = Some h" and "hd_linked h" and "hd_id h = Some c"
    and "\<not> hd_override h" and "LEAF_KEY \<notin> set p" and "p \<noteq> []"
  shows "let br = snd (leave_loop loads h (w_broker w)) in
    (\<forall>c'. registered (br_subs br) p c' =
       (if c' = c \<and> p \<in> topic_nodes ` set (hd_subscriptions h) then None
        else registered (br_subs (w_broker w)) p c'))
    \<and> (registered (br_subs br) p c \<noteq> None \<longrightarrow>
       (\<exists>r' h'. r' \<noteq> r \<and> w_handlers w r' = Some h' \<and> hd_id h' = Some c
          \<and> p \<in> topic_nodes ` set (hd_subscriptions h')))
    \<and> br_clients br = (if c = [] then br_clients (w_broker w) else (br_clients (w_broker w))(c := None))
    \<and> br_queues br = br_queues (w_broker w)"
proof -
  note ok = reachable_ok [OF assms(1)]
  have b: "broker_ok (w_broker w)" by (rule world_ok_broker [OF ok])
  have p: "rdd_path p" using assms(6,7) by (simp add: rdd_path_def)
  let ?h = "close_handler h"
  have leave: "snd (leave_loop loads h (w_broker w)) = snd (handle_disconnected loads ?h (w_broker w))"
    using assms(3) by (simp add: leave_loop_def Let_def)
  have key: "client_key ?h = c" using assms(4) by (simp add: client_key_def)
  have reg: "registered (br_subs (snd (handle_disconnected loads ?h (w_broker w)))) p i =
      (if i = c \<and> p \<in> topic_nodes ` set (hd_subscriptions h) then None
       else registered (br_subs (w_broker w)) p i)" for i
    using registered_disconnected [OF b p, of loads ?h i] by (simp add: key)
  have "\<exists>r' h'. r' \<noteq> r \<and> w_handlers w r' = Some h' \<and> hd_id h' = Some c
      \<and> p \<in> topic_nodes ` set (hd_subscriptions h')"
    if "registered (br_subs (snd (handle_disconnected loads ?h (w_broker w)))) p c \<noteq> None"
  proof -
    from that have "registered (br_subs (w_broker w)) p c \<noteq> None" "p \<notin> topic_nodes ` set (hd_subscriptions h)"
      by (simp_all add: reg split: if_splits)
    with world_ok_covered [OF ok p] assms(2) show ?thesis by (auto simp: covered_def) (metis image_eqI option.inject)
  qed
  moreover have "br_clients (remove_client (Some c) (w_broker w)) =
      (if c = [] then br_clients (w_broker w) else (br_clients (w_broker w))(c := None))"
    by (auto simp: remove_client_def)
  ultimately show ?thesis
    using assms(4,5) handle_disconnected_fields(2,3) [OF b, of loads ?h]
    by (simp add: leave Let_def reg)
qed

lemma disconnect_cleans_up_witness:
  "registered (br_subs (snd (leave_loop no_tables (demo_client\<lparr>hd_subscriptions := [''a''],
      hd_sent := [[0x20, 2, 0, 0], [0x90, 3, 0, 1, 1]]\<rparr>) (w_broker demo_subscribed)))) [''a''] ''c1'' = None"
proof -
  let ?h = "demo_client\<lparr>hd_subscriptions := [''a''], hd_sent := [[0x20, 2, 0, 0], [0x90, 3, 0, 1, 1]]\<rparr>"
  have h: "w_handlers demo_subscribed 0 = Some ?h" by (simp add: demo_subscribed_def)
  have only: "r' \<noteq> 0 \<Longrightarrow> w_handlers demo_subscribed r' = None" for r'
    by (simp add: demo_subscribed_def)
  have d: "hd_linked ?h" "hd_id ?h = Some ''c1''" "\<not> hd_override ?h"
    by (simp_all add: demo_client_def new_connection_def)
  have "LEAF_KEY \<notin> set [''a'']" by (simp add: const_defs)
  from disconnect_cleans_up [OF demo_subscribed_reachable h d(1,2,3) this, of no_tables]
  have "registered (br_subs (snd (leave_loop no_tables ?h (w_broker demo_subscribed)))) [''a''] ''c1'' \<noteq> None \<longrightarrow>
      (\<exists>r' h'. r' \<noteq> 0 \<and> w_handlers demo_subscribed r' = Some h')"
    unfolding Let_def by blast
  with only show ?thesis by force
qed

text \<open>
  C27: A last will can be published twice. When a write fails on a broken connection the write
  loop ends the session, and the read loop ends it once more, since neither marks it as ended:
  with a plain last will the same rows are put on the broadcast queue two times.
\<close>

theorem last_will_published_twice:
  assumes "broker_ok br" and "hd_linked h" and "\<not> hd_override h" and "hd_last_will h = Some will"
    and "\<not> im_retain will" and "as_single_row will = Inr row" and "msg_table will = Inr False"
    and "hd_reader h = Reading" and "hd_writer h = Ready" and "\<not> hd_open h"
    and "br_queues br r = m # ms" and "om_qos m = 0"
    and "packet_to_bytes PublishPacket (FlagGroup (publish_flags_from_kwargs 0 False))
           [(''topic'', Value (VStr (om_topic m))), (''data'', Value (data_value (om_data m)))] = Inr bs"
  shows "\<exists>h1 br1 h2 br2. write_loop_round loads r h br = Some (h1, br1)
    \<and> read_loop_round loads h1 br1 = Some (h2, br2) \<and> hd_reader h2 = ReaderDone
    \<and> br_broadcast br2 = br_broadcast br @ [[row], [row]]"
proof -
  have twice: "br_broadcast (snd (handle_disconnected loads h' b)) = br_broadcast b @ [[row]]"
    if b: "broker_ok b" and h': "\<not> hd_override h'" "hd_last_will h' = Some will" for b h'
  proof -
    obtain b1 where u: "unsubscribe (client_key h') (hd_subscriptions h') b = (Inr True, b1)"
      "br_broadcast b1 = br_broadcast b"
      using unsubscribe_eq [of b "client_key h'" "hd_subscriptions h'"] b
      by (cases "unsubscribe (client_key h') (hd_subscriptions h') b") (auto simp: broker_ok_def)
    show ?thesis
      using h' assms(5-7) by (simp add: handle_disconnected_def u Let_def publish_def)
  qed
  let ?br = "br\<lparr>br_queues := (br_queues br)(r := ms)\<rparr>"
  let ?h1 = "(close_handler h)\<lparr>hd_writer := WriterDone\<rparr>"
  let ?br1 = "snd (handle_disconnected loads (close_handler h) ?br)"
  have ok: "broker_ok ?br" using assms(1) by (simp add: broker_ok_def)
  have "send_message m h = (Inl ConnectionError, h)"
    using assms(10,12,13) by (simp add: send_message_def write_publish_def write_packet_def)
  then have w: "write_loop_round loads r h br = Some (?h1, ?br1)"
    using assms(2,9,11)
    by (simp add: write_loop_round_def after_send_def end_writer_def split_beta) (simp add: leave_loop_def Let_def)
  let ?h2 = "(close_handler ?h1)\<lparr>hd_reader := ReaderDone\<rparr>"
  have r: "read_loop_round loads ?h1 ?br1 = Some (?h2, snd (handle_disconnected loads (close_handler ?h1) ?br1))"
    using assms(2,8) by (simp add: read_loop_round_def end_reader_def split_beta) (simp add: leave_loop_def Let_def)
  have ok1: "broker_ok ?br1" by (rule handle_disconnected_fields(4) [OF ok])
  have "br_broadcast (snd (handle_disconnected loads (close_handler ?h1) ?br1)) = br_broadcast br @ [[row], [row]]"
    using twice [OF ok1, of "close_handler ?h1"] twice [OF ok, of "close_handler h"] assms(3,4) by simp
  with w r show ?thesis by auto
qed

definition demo_will :: incoming_message where
  "demo_will = \<lparr>im_topic = topic_of ''gone'', im_qos = 0, im_retain = False, im_graft = False,
     im_data = Some [120]\<rparr>"

lemma last_will_published_twice_witness:
  "\<exists>h1 br1 h2 br2.
     write_loop_round no_tables 0 (demo_client\<lparr>hd_last_will := Some demo_will, hd_open := False\<rparr>)
       (queue_message 0 \<lparr>om_topic = ''a'', om_qos = 0, om_data = PyBytes [120]\<rparr> demo_broker) = Some (h1, br1)
   \<and> read_loop_round no_tables h1 br1 = Some (h2, br2)
   \<and> br_broadcast br2 = [[([''gone''], Some [120], 0)], [([''gone''], Some [120], 0)]]"
proof -
  let ?m = "\<lparr>om_topic = ''a'', om_qos = 0, om_data = PyBytes [120]\<rparr>"
  let ?h = "demo_client\<lparr>hd_last_will := Some demo_will, hd_open := False\<rparr>"
  have ok: "broker_ok (queue_message 0 ?m demo_broker)" by simp
  have d: "hd_linked ?h" "\<not> hd_override ?h" "hd_last_will ?h = Some demo_will" "hd_reader ?h = Reading"
    "hd_writer ?h = Ready" "\<not> hd_open ?h"
    by (simp_all add: demo_client_def new_connection_def)
  have n: "topic_nodes ''gone'' = [''gone'']" by (simp add: topic_nodes_def const_defs)
  have will: "\<not> im_retain demo_will" "as_single_row demo_will = Inr ([''gone''], Some [120], 0)"
    "msg_table demo_will = Inr False"
    by (simp_all add: demo_will_def as_single_row_def n is_node_static_def msg_table_def for_table_topic_of const_defs)
  have q: "br_queues (queue_message 0 ?m demo_broker) 0 = ?m # []"
    "br_broadcast (queue_message 0 ?m demo_broker) = []"
    by (simp_all add: queue_message_def demo_broker_def new_broker_def)
  have bs: "packet_to_bytes PublishPacket (FlagGroup (publish_flags_from_kwargs 0 False))
      [(''topic'', Value (VStr (om_topic ?m))), (''data'', Value (data_value (om_data ?m)))] =
      Inr [0x30, 4, 0, 1, 97, 120]"
    by code_simp
  from last_will_published_twice [OF ok d(1-3) will d(4-6) q(1) _ bs, of no_tables] q(2)
  show ?thesis by auto
qed

section \<open>Waiting for a packet\<close>

text \<open>
  The check "already waiting for this packet" never fires: a fresh condition is never equal
  to one in the set, because the comparison includes the identity of its lock. So a
  retransmitted PUBLISH of quality 2 is accepted again, with a second thread waiting for the
  same PUBREL, and each of the two threads publishes the message.
\<close>

theorem duplicate_wait_accepted:
  assumes "reachable loads tq w" and "w_handlers w r = Some h" and "hd_open h"
    and "get_int (pk_kwargs p) ''id'' = Inr i"
    and "packet_to_bytes PublishReceivedPacket (FlagInt 0) (id_kwarg i) = Inr bs"
  shows "\<exists>h1 h2. handle_publish_qos_2 p h = (Inr (hd_next_ref h), h1)
    \<and> handle_publish_qos_2 p h1 = (Inr (Suc (hd_next_ref h)), h2)
    \<and> hd_sent h2 = hd_sent h @ [bs, bs]
    \<and> hd_conditions h2 = hd_conditions h @
        [\<lparr>cd_ref = hd_next_ref h, cd_type_code = 6, cd_id = i, cd_result = None\<rparr>,
         \<lparr>cd_ref = Suc (hd_next_ref h), cd_type_code = 6, cd_id = i, cd_result = None\<rparr>]"
proof -
  have ok: "conditions_ok h"
    using world_ok_handler [OF reachable_ok [OF assms(1)] assms(2)] by (simp add: handler_ok_def)
  have once: "handle_publish_qos_2 p g = (Inr (hd_next_ref g),
      (snd (create_packet_condition PublishReleasedPacket i g))\<lparr>hd_sent := hd_sent g @ [bs]\<rparr>)"
    if g: "conditions_ok g" "hd_open g" for g
  proof -
    have "hd_open (snd (create_packet_condition PublishReleasedPacket i g)) = hd_open g"
      "hd_sent (snd (create_packet_condition PublishReleasedPacket i g)) = hd_sent g"
      by (simp_all add: create_packet_condition_def Let_def)
    then show ?thesis
      using g create_condition_ok(1) [OF g(1), of PublishReleasedPacket i] assms(4,5)
      by (simp add: handle_publish_qos_2_def split_beta Let_def write_packet_def)
  qed
  let ?h1 = "(snd (create_packet_condition PublishReleasedPacket i h))\<lparr>hd_sent := hd_sent h @ [bs]\<rparr>"
  note c = create_condition_ok [OF ok, of PublishReleasedPacket i]
  have h1: "conditions_ok ?h1" using c(2) by simp
  have "hd_open ?h1" using assms(3) by (simp add: create_packet_condition_def Let_def)
  from once [OF h1 this] once [OF ok assms(3)] show ?thesis
    using c(3,4) create_condition_ok(3) [OF h1, of PublishReleasedPacket i] by simp
qed

definition demo_publish_2 :: packet where
  "demo_publish_2 = \<lparr>pk_class = PublishPacket, pk_flags = FlagGroup (publish_flags_from_int 4), pk_length = 6,
     pk_kwargs = [(''topic'', Value (VStr ''a'')), (''id'', Value (VInt 7)), (''data'', Value (VBytes [120]))]\<rparr>"

lemma duplicate_wait_accepted_witness:
  "\<exists>h1 h2. handle_publish_qos_2 demo_publish_2 demo_client = (Inr 0, h1)
    \<and> handle_publish_qos_2 demo_publish_2 h1 = (Inr 1, h2)
    \<and> map cd_id (hd_conditions h2) = [7, 7]"
proof -
  have h: "w_handlers demo_connected 0 = Some demo_client" by (simp add: demo_connected_def)
  have d: "hd_open demo_client" "hd_next_ref demo_client = 0" "hd_conditions demo_client = []"
    by (simp_all add: demo_client_def new_connection_def)
  have i: "get_int (pk_kwargs demo_publish_2) ''id'' = Inr 7"
    by (simp add: demo_publish_2_def get_int_def)
  have b: "packet_to_bytes PublishReceivedPacket (FlagInt 0) (id_kwarg 7) = Inr [0x50, 2, 0, 7]"
    by code_simp
  from duplicate_wait_accepted [OF demo_connected_reachable h d(1) i b] d show ?thesis by force
qed

section \<open>Requests\<close>

lemma subscribe_loop_plain:
  assumes "broker_ok br" and "hd_id h = Some c"
    and "\<forall>x\<in>set reqs. fst x \<noteq> [] \<and> hd (fst x) \<noteq> TABLE_FLAG \<and> hd (fst x) \<noteq> TOPIC_SEP"
  shows "\<exists>br'. subscribe_loop tq r (map (\<lambda>(t, q). [(''topic'', VStr t), (''qos'', VInt q)]) reqs) codes h br =
      (Inr (codes @ map snd reqs),
       h\<lparr>hd_subscriptions := fold List.insert (map fst reqs) (hd_subscriptions h)\<rparr>, br')
    \<and> broker_ok br' \<and> br_subs br' = subs.run (map (\<lambda>(t, q). Register (topic_nodes t) c q) reqs) (br_subs br)
    \<and> br_queues br' = br_queues br"
  using assms
proof (induction reqs arbitrary: codes h br)
  case (Cons x reqs)
  obtain t q where x: "x = (t, q)" by (cases x)
  from Cons.prems(3) have t: "t \<noteq> []" "hd t \<noteq> TABLE_FLAG" "hd t \<noteq> TOPIC_SEP" by (simp_all add: x)
  have ok: "subs_ok (br_subs br)" using Cons.prems(1) by (simp add: broker_ok_def)
  obtain br1 where s: "subscribe tq c r t q False br = (Inr True, br1)"
    using subscribe_plain [OF Cons.prems(1) t] by (metis prod.collapse)
  have b1: "broker_ok br1" "br_subs br1 = subs.run [Register (topic_nodes t) c q] (br_subs br)"
    using subscribe_keeps [OF Cons.prems(1), of tq c r t q False] subscribe_eq [OF ok, of tq c r t q False]
    by (simp_all add: s)
  have q: "br_queues br1 = br_queues br"
    using s t by (cases t) (auto simp: subscribe_def for_table_topic_of Let_def split_beta)
  let ?h = "h\<lparr>hd_subscriptions := List.insert t (hd_subscriptions h)\<rparr>"
  have "hd_id ?h = Some c" using Cons.prems(2) by simp
  from Cons.IH [OF b1(1) this, of "codes @ [q]"] Cons.prems(3) show ?case
    using Cons.prems(2) t s b1(2) q
    by (auto simp: x request_of_def client_key_def Let_def)
qed simp

text \<open>
  C6: A SUBSCRIBE request with plain topics: every request is granted the quality of service it
  asks for, whatever it is, the client is registered under each topic, the connection
  remembers the topics, and one SUBACK with the codes in the order of the requests is written.
\<close>

theorem subscribe_request_granted:
  assumes "broker_ok br" and "hd_id h = Some c" and "hd_open h"
    and "\<forall>x\<in>set reqs. fst x \<noteq> [] \<and> hd (fst x) \<noteq> TABLE_FLAG \<and> hd (fst x) \<noteq> TOPIC_SEP"
    and "packet_to_bytes SubscribeAcknowledgePacket (FlagInt 0)
           [(''id'', Value (VInt i)), (''response_codes'', Items (map (\<lambda>x. VInt (snd x)) reqs))] = Inr bs"
    and "map_of (pk_kwargs p) ''id'' = Some (Value (VInt i))"
    and "map_of (pk_kwargs p) ''requests'' =
           Some (Records (map (\<lambda>(t, q). [(''topic'', VStr t), (''qos'', VInt q)]) reqs))"
  shows "\<exists>br'. handle_subscribe tq r p h br = (Inr (),
      h\<lparr>hd_subscriptions := fold List.insert (map fst reqs) (hd_subscriptions h),
        hd_sent := hd_sent h @ [bs]\<rparr>, br')
    \<and> br_queues br' = br_queues br
    \<and> (\<forall>path j. LEAF_KEY \<notin> set path \<longrightarrow> path \<noteq> [] \<longrightarrow> registered (br_subs br') path j =
         reg_spec (map (\<lambda>(t, q). Register (topic_nodes t) c q) reqs) (registered (br_subs br)) path j)"
proof -
  obtain br' where l: "subscribe_loop tq r (map (\<lambda>(t, q). [(''topic'', VStr t), (''qos'', VInt q)]) reqs) [] h br =
      (Inr (map snd reqs),
       h\<lparr>hd_subscriptions := fold List.insert (map fst reqs) (hd_subscriptions h)\<rparr>, br')"
    and b: "br_subs br' = subs.run (map (\<lambda>(t, q). Register (topic_nodes t) c q) reqs) (br_subs br)"
    "br_queues br' = br_queues br"
    using subscribe_loop_plain [OF assms(1,2,4), of tq r "[]"] by auto
  have ok: "subs_ok (br_subs br)" using assms(1) by (simp add: broker_ok_def)
  have "\<forall>x\<in>set (map (\<lambda>(t, q). Register (topic_nodes t) c q) reqs). rdd_path (op_path x)"
    by (auto simp: topic_nodes_path)
  note reg = subs.run_registered [OF ok this]
  have "handle_subscribe tq r p h br = (Inr (),
      h\<lparr>hd_subscriptions := fold List.insert (map fst reqs) (hd_subscriptions h),
        hd_sent := hd_sent h @ [bs]\<rparr>, br')"
    using assms(3,5-7) by (simp add: handle_subscribe_def l get_int_def write_packet_def id_kwarg_def comp_def)
  with b reg show ?thesis by (auto simp: rdd_path_def)
qed

lemma subscribe_request_granted_witness:
  "\<exists>br'. handle_subscribe no_tables 0 demo_subscribe_packet demo_client demo_broker =
     (Inr (), demo_client\<lparr>hd_subscriptions := [''a''], hd_sent := hd_sent demo_client @ [[0x90, 3, 0, 1, 1]]\<rparr>, br')"
proof -
  have d: "hd_id demo_client = Some ''c1''" "hd_open demo_client" "hd_subscriptions demo_client = []"
    by (simp_all add: demo_client_def new_connection_def)
  have t: "\<forall>x\<in>set [(''a'', 1)]. fst x \<noteq> [] \<and> hd (fst x) \<noteq> TABLE_FLAG \<and> hd (fst x) \<noteq> TOPIC_SEP"
    by (simp add: const_defs)
  have b: "packet_to_bytes SubscribeAcknowledgePacket (FlagInt 0)
      [(''id'', Value (VInt 1)), (''response_codes'', Items (map (\<lambda>x. VInt (snd x)) [(''a'', 1)]))] =
      Inr [0x90, 3, 0, 1, 1]"
    using suback_bytes by simp
  from subscribe_request_granted [OF demo_ok(3) d(1,2) t b, of demo_subscribe_packet no_tables 0] show ?thesis
    by (auto simp: demo_subscribe_packet_def d(3))
qed

lemma topic_nodes_slash: "topic_nodes (TOPIC_SEP # t) = [] # topic_nodes t"
  by (simp add: topic_nodes_def)

text \<open>
  A subscription to a tree cannot be ended by the topic it was made with. SUBSCRIBE strips
  the leading separator before it registers, UNSUBSCRIBE does not: the client gets its UNSUBACK
  and a warning is logged, but the registration, and the topic among those the connection
  remembers, stay.
\<close>

theorem tree_unsubscribe_ineffective:
  assumes "broker_ok br" and "hd_id h = Some c" and "hd_open h" and "t \<noteq> []"
    and "fst (subscribe tq c r t q True br) = Inr True"
    and "packet_to_bytes UnsubscribeAcknowledgePacket (FlagInt 0) (id_kwarg i) = Inr bs"
    and "TOPIC_SEP # t \<notin> set (hd_subscriptions h)"
  shows "\<exists>h1 br1 br2.
      subscribe_loop tq r [[(''topic'', VStr (TOPIC_SEP # t)), (''qos'', VInt q)]] [] h br = (Inr [q], h1, br1)
    \<and> unsubscribe_loop i [VStr (TOPIC_SEP # t)] h1 br1 = (Inr (), h1\<lparr>hd_sent := hd_sent h @ [bs]\<rparr>, br2)
    \<and> t \<in> set (hd_subscriptions h1)
    \<and> registered (br_subs br2) (topic_nodes t) c = Some q"
proof -
  obtain br1 where s: "subscribe tq c r t q True br = (Inr True, br1)"
    using assms(5) by (metis prod.collapse)
  let ?h1 = "h\<lparr>hd_subscriptions := List.insert t (hd_subscriptions h)\<rparr>"
  have 1: "subscribe_loop tq r [[(''topic'', VStr (TOPIC_SEP # t)), (''qos'', VInt q)]] [] h br = (Inr [q], ?h1, br1)"
    using assms(2) s by (simp add: request_of_def client_key_def Let_def)
  have ok1: "broker_ok br1" using subscribe_keeps [OF assms(1), of tq c r t q True] by (simp add: s)
  obtain br2 where u: "unsubscribe c [TOPIC_SEP # t] br1 = (Inr True, br2)"
    using unsubscribe_eq [of br1 c "[TOPIC_SEP # t]"] ok1
    by (cases "unsubscribe c [TOPIC_SEP # t] br1") (auto simp: broker_ok_def simp del: unsubscribe.simps)
  have n: "TOPIC_SEP # t \<noteq> t" by (metis length_Cons n_not_Suc_n)
  have "topic_nodes t \<noteq> topic_nodes (TOPIC_SEP # t)"
    using topic_nodes_slash [of t] by (metis length_Cons n_not_Suc_n)
  moreover have "registered (br_subs br1) (topic_nodes t) c = Some q"
    using registered_subscribe [OF assms(1) topic_nodes_path [of t], of tq c r t q True c] s by auto
  ultimately have reg: "registered (br_subs br2) (topic_nodes t) c = Some q"
    using registered_unsubscribe [OF ok1 topic_nodes_path [of t], of c "[TOPIC_SEP # t]" c] u
    by (simp del: unsubscribe.simps)
  have "remove1 (TOPIC_SEP # t) (List.insert t (hd_subscriptions h)) = List.insert t (hd_subscriptions h)"
    using assms(7) n by (intro remove1_idem) auto
  then have 2: "unsubscribe_loop i [VStr (TOPIC_SEP # t)] ?h1 br1 = (Inr (), ?h1\<lparr>hd_sent := hd_sent h @ [bs]\<rparr>, br2)"
    using assms(2,3,6) u by (simp add: client_key_def write_packet_def del: unsubscribe.simps)
  show ?thesis using 1 2 reg by auto
qed

lemma tree_unsubscribe_ineffective_witness:
  "\<exists>h1 br1 br2.
      subscribe_loop no_tables 0 [[(''topic'', VStr ''/a''), (''qos'', VInt 1)]] [] demo_client demo_broker = (Inr [1], h1, br1)
    \<and> unsubscribe_loop 2 [VStr ''/a''] h1 br1 = (Inr (), h1\<lparr>hd_sent := hd_sent demo_client @ [[0xB0, 2, 0, 2]]\<rparr>, br2)
    \<and> registered (br_subs br2) [''a''] ''c1'' = Some 1"
proof -
  have d: "hd_id demo_client = Some ''c1''" "hd_open demo_client" "TOPIC_SEP # ''a'' \<notin> set (hd_subscriptions demo_client)"
    by (simp_all add: demo_client_def new_connection_def)
  have n: "topic_nodes ''a'' = [''a'']" by (simp add: topic_nodes_def const_defs)
  have tr: "tm_tree (br_tm demo_broker) = PyRdd []" by (simp add: demo_broker_def new_broker_def)
  have s: "fst (subscribe no_tables ''c1'' 0 ''a'' 1 True demo_broker) = Inr True"
    using subscribe_tree_spec [OF demo_ok(2) topic_nodes_path [of "''a''"], of "''c1''" 1]
    by (simp add: subscribe_def tr tm_get_message_def tm_filter_def n filter_tree_with_topic.simps
        from_tree_item_def queue_message_def Let_def split_beta const_defs)
  have b: "packet_to_bytes UnsubscribeAcknowledgePacket (FlagInt 0) (id_kwarg 2) = Inr [0xB0, 2, 0, 2]"
    by code_simp
  have slash: "TOPIC_SEP # ''a'' = ''/a''" by (simp add: const_defs)
  have "''a'' \<noteq> []" by simp
  from tree_unsubscribe_ineffective [OF demo_ok(3) d(1,2) this s b d(3)] show ?thesis
    unfolding slash n by blast
qed

section \<open>Deliveries with acknowledgement\<close>

text \<open>
  A PUBLISH of quality 1 is acknowledged only after the broker has taken it: when
  publishing raises, nothing is written and the exception ends the thread; otherwise exactly
  the PUBACK with its packet id is written, after the rows are queued.
\<close>

theorem acknowledged_when_published:
  assumes "message_from_packet p = Inr m" and "get_int (pk_kwargs p) ''id'' = Inr i" and "hd_open h"
    and "packet_to_bytes PublishAcknowledgePacket (FlagInt 0) (id_kwarg i) = Inr bs"
  shows "handle_publish_qos_1 loads p h br =
    (case publish loads m br of
       (Inl e, br1) \<Rightarrow> (Inl e, h, br1)
     | (Inr _, br1) \<Rightarrow> (Inr (), h\<lparr>hd_sent := hd_sent h @ [bs]\<rparr>, br1))"
  using assms by (auto simp: handle_publish_qos_1_def publish_packet_data_def write_packet_def
      split: prod.split sum.split)

definition demo_publish_1 :: packet where
  "demo_publish_1 = \<lparr>pk_class = PublishPacket, pk_flags = FlagGroup (publish_flags_from_int 2), pk_length = 6,
     pk_kwargs = [(''topic'', Value (VStr ''a'')), (''id'', Value (VInt 7)), (''data'', Value (VBytes [120]))]\<rparr>"

lemma acknowledged_when_published_witness:
  "hd_sent (fst (snd (handle_publish_qos_1 no_tables demo_publish_1 demo_client new_broker))) =
     [[0x20, 2, 0, 0], [0x40, 2, 0, 7]]"
proof -
  let ?m = "\<lparr>im_topic = topic_of ''a'', im_qos = 1, im_retain = False, im_graft = False, im_data = Some [120]\<rparr>"
  have f: "publish_flags_from_int 2 = \<lparr>pf_data = 2, pf_retain = False, pf_qos = 1\<rparr>" by code_simp
  have m: "message_from_packet demo_publish_1 = Inr ?m"
    by (simp add: message_from_packet_def demo_publish_1_def get_str_def get_data_def f from_raw_data_def)
  have i: "get_int (pk_kwargs demo_publish_1) ''id'' = Inr 7" by (simp add: demo_publish_1_def get_int_def)
  have d: "hd_open demo_client" "hd_sent demo_client = [[0x20, 2, 0, 0]]"
    by (simp_all add: demo_client_def new_connection_def)
  have b: "packet_to_bytes PublishAcknowledgePacket (FlagInt 0) (id_kwarg 7) = Inr [0x40, 2, 0, 7]" by code_simp
  have n: "topic_nodes ''a'' = [''a'']" by (simp add: topic_nodes_def const_defs)
  have "fst (publish no_tables ?m new_broker) = Inr ()"
    by (simp add: publish_def msg_table_def for_table_topic_of as_single_row_def n is_node_static_def const_defs Let_def)
  then obtain br1 where "publish no_tables ?m new_broker = (Inr (), br1)" by (metis prod.collapse)
  with acknowledged_when_published [OF m i d(1) b, of no_tables new_broker] d(2) show ?thesis by simp
qed

end
