(* ===== verification/Servers.thy ===== *)
theory Servers
  imports Session_Properties
begin

text \<open>
  servers/server.py and servers/socket.py: a server accepts connections in its own thread and
  remembers them; leaving it disconnects them one by one, the newest first. What \<open>accept\<close>
  answers comes from the network.
\<close>

record server =
  sv_alive :: bool
  sv_listening :: bool
  sv_clients :: "ref list"

definition new_server :: server where
  "new_server = \<lparr>sv_alive = False, sv_listening = False, sv_clients = []\<rparr>"

text \<open>\<open>loop\<close> up to its first round; \<open>bound\<close> says whether the address could be bound.\<close>

definition start_loop :: "bool \<Rightarrow> server \<Rightarrow> server" where
  "start_loop bound sv = (let sv1 = sv\<lparr>sv_alive := True\<rparr> in if bound then sv1\<lparr>sv_listening := True\<rparr> else sv1)"

definition handle_client :: "ref \<Rightarrow> server \<Rightarrow> world \<Rightarrow> server \<times> world" where
  "handle_client r sv w =
     (sv\<lparr>sv_clients := sv_clients sv @ [r]\<rparr>, put r (new_connection, w_broker w) w)"

text \<open>One round of the loop: \<open>None\<close> from \<open>accept\<close> is an exception. The answer says whether to go on.\<close>

definition loop_round :: "ref option \<Rightarrow> server \<Rightarrow> world \<Rightarrow> bool \<times> server \<times> world" where
  "loop_round accepted sv w =
     (case accepted of
        None \<Rightarrow> (sv_alive sv, sv, w)
      | Some r \<Rightarrow> if \<not> sv_alive sv then (False, sv, w) else (sv_alive sv, handle_client r sv w))"



section \<open>Stopping\<close>

text \<open>
  Disconnecting is a sequence of steps of the world, and closes the connections; what is
  registered afterwards was registered before, and by none of them.
\<close>

definition closed_in :: "world \<Rightarrow> ref \<Rightarrow> bool" where
  "closed_in w r \<longleftrightarrow> (\<exists>h. w_handlers w r = Some h \<and> \<not> hd_alive h \<and> \<not> hd_open h)"

lemma disconnect_closes:
  assumes "w_handlers w r = Some h"
  shows "closed_in (put r (disconnect loads h (w_broker w)) w) r"
    and "closed_in w r' \<Longrightarrow> closed_in (put r (disconnect loads h (w_broker w)) w) r'"
  by (auto simp: closed_in_def disconnect_def Let_def)


lemma disconnect_fields [simp]:
  "hd_id (fst (disconnect loads h br)) = hd_id h"
  "hd_subscriptions (fst (disconnect loads h br)) = hd_subscriptions h"
  "\<not> hd_alive (fst (disconnect loads h br))" "\<not> hd_open (fst (disconnect loads h br))"
  by (simp_all add: disconnect_def Let_def)











end
