(* ===== verification/App.thy ===== *)
theory App
  imports Servers
begin

text \<open>
  app.py and the fields of \<open>Broker\<close> (broker/broker.py): from the arguments of the command line
  to the addresses the two servers are bound to.
\<close>

section \<open>The command line\<close>

text \<open>The variable \<open>kw\<close> of the loop is never assigned, so its first branch is never taken.\<close>

definition strip_dashes :: "string \<Rightarrow> string" where
  "strip_dashes name = (if take 2 name = ''--'' then drop 2 name else name)"

fun parse_args :: "string list \<Rightarrow> (string \<times> string) list \<Rightarrow> py_error + (string \<times> string) list" where
  "parse_args [] kwargs = Inr kwargs"
| "parse_args (arg # args) kwargs =
     (case split_char CHR ''='' arg of
        [name, val] \<Rightarrow> parse_args args (AList.update (strip_dashes name) val kwargs)
      | _ \<Rightarrow> Inl SyntaxError)"

section \<open>The fields of the broker\<close>

text \<open>The value of a field: the command line gives texts only. \<open>Default\<close> is what a factory makes.\<close>

datatype setting = Text string | Number int | Missing | Default

definition broker_fields :: "(string \<times> setting) list" where
  "broker_fields =
     [(''host'', Text ''0.0.0.0''), (''tcp_host'', Missing), (''ws_host'', Missing),
      (''tcp_port'', Number 1993), (''ws_port'', Number 53535), (''ssl_cert'', Missing), (''ssl_key'', Missing),
      (''tree_manager'', Default), (''table_manager'', Default), (''subscription_lock'', Default),
      (''broadcast_queue'', Default)]"

text \<open>\<open>cls(**kwargs)\<close>: a name that is no field is refused.\<close>

definition fields_of :: "(string \<Rightarrow> string option) \<Rightarrow> (string \<times> setting) list" where
  "fields_of given = map (\<lambda>(k, v). (k, case given k of Some s \<Rightarrow> Text s | None \<Rightarrow> v)) broker_fields"

definition configure :: "(string \<times> string) list \<Rightarrow> py_error + (string \<times> setting) list" where
  "configure kwargs =
     (if list_all (\<lambda>k. k \<in> set (dkeys broker_fields)) (dkeys kwargs)
      then Inr (fields_of (map_of kwargs))
      else Inl TypeError)"

definition field :: "string \<Rightarrow> (string \<times> setting) list \<Rightarrow> setting" where
  "field name br = the (map_of br name)"

fun or_setting :: "setting \<Rightarrow> setting \<Rightarrow> setting" where
  "or_setting (Text s) other = (if s = [] then other else Text s)"
| "or_setting (Number n) other = (if n = 0 then other else Number n)"
| "or_setting Missing other = other"
| "or_setting Default other = Default"

definition tcp_address :: "(string \<times> setting) list \<Rightarrow> setting \<times> setting" where
  "tcp_address br = (or_setting (field ''tcp_host'' br) (field ''host'' br), field ''tcp_port'' br)"

definition websocket_address :: "(string \<times> setting) list \<Rightarrow> setting \<times> setting" where
  "websocket_address br = (or_setting (field ''ws_host'' br) (field ''host'' br), field ''ws_port'' br)"

section \<open>Binding\<close>

text \<open>
  \<open>bind\<close> of a socket, which takes a text and a number; \<open>can_bind\<close> is the operating system. Of
  its exceptions the loop of the server handles \<open>OSError\<close>, any other ends its thread.
\<close>

fun bind_socket :: "(string \<Rightarrow> int \<Rightarrow> bool) \<Rightarrow> setting \<times> setting \<Rightarrow> py_error + unit" where
  "bind_socket can_bind (Text host, Number port) = (if can_bind host port then Inr () else Inl OSError)"
| "bind_socket can_bind _ = Inl TypeError"

definition run_server :: "(string \<Rightarrow> int \<Rightarrow> bool) \<Rightarrow> setting \<times> setting \<Rightarrow> server \<Rightarrow> (py_error + unit) \<times> server" where
  "run_server can_bind address sv =
     (case bind_socket can_bind address of
        Inr _ \<Rightarrow> (Inr (), start_loop True sv)
      | Inl e \<Rightarrow> (if e = OSError then Inr () else Inl e, start_loop False sv))"

section \<open>What the arguments mean\<close>

text \<open>The assignments of a command line, in its order.\<close>

definition assignment :: "string \<Rightarrow> string \<times> string" where
  "assignment arg =
     (strip_dashes (takeWhile (\<lambda>c. c \<noteq> CHR ''='') arg), tl (dropWhile (\<lambda>c. c \<noteq> CHR ''='') arg))"

lemma split_char_pair:
  "count_list arg sep = 1 \<Longrightarrow> split_char sep arg = [takeWhile (\<lambda>c. c \<noteq> sep) arg, tl (dropWhile (\<lambda>c. c \<noteq> sep) arg)]"
proof (induction arg)
  case (Cons c arg)
  then show ?case by (auto simp: count_list_0_iff split_char_word split: list.splits)
qed simp

lemma split_char_two: "(\<exists>name val. split_char sep arg = [name, val]) \<longleftrightarrow> count_list arg sep = 1"
  using split_char_length [of sep arg] split_char_pair [of arg sep] by auto

lemma parse_args_eq:
  "parse_args args kwargs =
     (if list_all (\<lambda>a. count_list a CHR ''='' = 1) args
      then Inr (foldl (\<lambda>kws a. AList.update (fst (assignment a)) (snd (assignment a)) kws) kwargs args)
      else Inl SyntaxError)"
proof (induction args arbitrary: kwargs)
  case (Cons arg args)
  show ?case
  proof (cases "count_list arg CHR ''='' = 1")
    case True
    then show ?thesis using Cons split_char_pair [OF True] by (simp add: assignment_def)
  next
    case False
    then have "\<nexists>name val. split_char CHR ''='' arg = [name, val]" using split_char_two by blast
    then have "parse_args (arg # args) kwargs = Inl SyntaxError" by (simp split: list.split)
    with False show ?thesis by simp
  qed
qed simp

definition assign :: "(string \<times> string) list \<Rightarrow> string \<Rightarrow> (string \<times> string) list" where
  "assign kws arg = AList.update (fst (assignment arg)) (snd (assignment arg)) kws"

lemma map_of_assign: "map_of (foldl assign kws args) = map_of kws ++ map_of (rev (map assignment args))"
  by (induction args arbitrary: kws) (simp_all add: assign_def map_add_def fun_eq_iff split: option.split)

lemma dkeys_assign: "set (dkeys (foldl assign kws args)) = set (dkeys kws) \<union> fst ` set (map assignment args)"
  by (induction args arbitrary: kws) (auto simp: assign_def AList.dom_update)

text \<open>The host a server gets: its own one if it is given and not empty, else the common one.\<close>

definition host_of :: "(string \<Rightarrow> string option) \<Rightarrow> string \<Rightarrow> string" where
  "host_of given name =
     (case given name of
        Some (c # cs) \<Rightarrow> c # cs
      | _ \<Rightarrow> (case given ''host'' of Some h \<Rightarrow> h | None \<Rightarrow> ''0.0.0.0''))"

lemma run_server_fields:
  "run_server can_bind (tcp_address (fields_of given)) sv =
     (if given ''tcp_port'' \<noteq> None then (Inl TypeError, start_loop False sv)
      else (Inr (), start_loop (can_bind (host_of given ''tcp_host'') 1993) sv))"
  "run_server can_bind (websocket_address (fields_of given)) sv =
     (if given ''ws_port'' \<noteq> None then (Inl TypeError, start_loop False sv)
      else (Inr (), start_loop (can_bind (host_of given ''ws_host'') 53535) sv))"
  by (auto simp: run_server_def tcp_address_def websocket_address_def field_def fields_of_def broker_fields_def
      host_of_def split: option.split list.split)

text \<open>
  C29: What the command line can set. Every argument must have exactly one equals sign, and
  what stands before it, without two leading dashes, must be a field of the broker; the last
  of several assignments counts. A host is passed on as it is given, the server's own before
  the common one. But a port given on the command line is a text, which \<open>bind\<close> does not take:
  the thread of that server ends with a \<open>TypeError\<close> and it never listens.
\<close>

theorem command_line:
  fixes args can_bind
  defines "given \<equiv> map_of (rev (map assignment args))"
  shows "bindR (parse_args args []) configure =
     (if \<not> list_all (\<lambda>a. count_list a CHR ''='' = 1) args then Inl SyntaxError
      else if \<not> list_all (\<lambda>a. fst (assignment a) \<in> set (dkeys broker_fields)) args then Inl TypeError
      else Inr (fields_of given))
   \<and> run_server can_bind (tcp_address (fields_of given)) new_server =
     (if given ''tcp_port'' \<noteq> None then (Inl TypeError, start_loop False new_server)
      else (Inr (), start_loop (can_bind (host_of given ''tcp_host'') 1993) new_server))
   \<and> run_server can_bind (websocket_address (fields_of given)) new_server =
     (if given ''ws_port'' \<noteq> None then (Inl TypeError, start_loop False new_server)
      else (Inr (), start_loop (can_bind (host_of given ''ws_host'') 53535) new_server))"
proof -
  have "parse_args args [] =
      (if list_all (\<lambda>a. count_list a CHR ''='' = 1) args then Inr (foldl assign [] args) else Inl SyntaxError)"
    using parse_args_eq [of args "[]"] by (simp add: assign_def [abs_def])
  moreover have "configure (foldl assign [] args) =
      (if list_all (\<lambda>a. fst (assignment a) \<in> set (dkeys broker_fields)) args then Inr (fields_of given) else Inl TypeError)"
    using map_of_assign [of "[]" args] dkeys_assign [of "[]" args]
    by (simp add: configure_def given_def list_all_iff)
  ultimately show ?thesis using run_server_fields [of can_bind given new_server] by simp
qed

end
