(* ===== verification/Delivery.thy ===== *)
theory Delivery
  imports Session_Properties
begin

text \<open>
  How messages leave the broker: the draining of a queue under a client that answers, and the
  way of a message from the connection of its publisher to those of its subscribers.
\<close>

section \<open>The queue is drained\<close>

lemma put_put [simp]: "put r s (put r s' w) = put r s w"
  by (simp add: put_def)

lemma steps_ok: "(step loads tq)\<^sup>*\<^sup>* w w' \<Longrightarrow> world_ok w \<Longrightarrow> world_ok w'"
  by (induction rule: rtranclp_induct) (auto intro: step_ok)

lemma meet_last: "\<forall>c\<in>set cs. cd_type_code c \<noteq> code \<Longrightarrow> cd_type_code c = code \<Longrightarrow> cd_id c = pid \<Longrightarrow>
    meet_first code pid p (cs @ [c]) = Some (cs @ [c\<lparr>cd_result := Some p\<rparr>])"
  by (induction cs) auto

text \<open>The acknowledgements a client sends for the packet id 0.\<close>

definition ack_packet :: "packet_class \<Rightarrow> packet" where
  "ack_packet cls = \<lparr>pk_class = cls, pk_flags = FlagInt 0, pk_length = 2, pk_kwargs = [(''id'', Value (VInt 0))]\<rparr>"

definition ack_classes :: "packet_class set" where
  "ack_classes = {PublishAcknowledgePacket, PublishReceivedPacket, PublishCompletePacket}"

lemma ack_bytes: "cls \<in> ack_classes \<Longrightarrow> \<exists>bs. read_next_packet bs = Inr (ack_packet cls, [])"
proof -
  have "read_next_packet [0x40, 2, 0, 0] = Inr (ack_packet PublishAcknowledgePacket, [])" by code_simp
  moreover have "read_next_packet [0x50, 2, 0, 0] = Inr (ack_packet PublishReceivedPacket, [])" by code_simp
  moreover have "read_next_packet [0x70, 2, 0, 0] = Inr (ack_packet PublishCompletePacket, [])" by code_simp
  ultimately show "cls \<in> ack_classes \<Longrightarrow> \<exists>bs. read_next_packet bs = Inr (ack_packet cls, [])"
    by (auto simp: ack_classes_def)
qed

text \<open>The client answers, and the waiting condition is met.\<close>

lemma client_answers:
  assumes "w_handlers w r = Some h" and "hd_reader h = Reading" and "hd_alive h" and "hd_in h = []"
    and "cls \<in> ack_classes" and "hd_conditions h = cs @ [c]" and "\<forall>c\<in>set cs. cd_type_code c \<noteq> type_code cls"
    and "cd_type_code c = type_code cls" and "cd_id c = 0"
  shows "(step loads tq)\<^sup>*\<^sup>* w
    (put r (h\<lparr>hd_conditions := cs @ [c\<lparr>cd_result := Some (ack_packet cls)\<rparr>]\<rparr>, w_broker w) w)"
proof -
  obtain bs where bs: "read_next_packet bs = Inr (ack_packet cls, [])" using ack_bytes [OF assms(5)] by blast
  let ?h1 = "h\<lparr>hd_in := bs\<rparr>"
  let ?w1 = "put r (?h1, w_broker w) w"
  let ?h2 = "h\<lparr>hd_conditions := cs @ [c\<lparr>cd_result := Some (ack_packet cls)\<rparr>]\<rparr>"
  have "step loads tq w (put r (h\<lparr>hd_in := hd_in h @ bs\<rparr>, w_broker w) w)" by (rule step.receive [OF assms(1)])
  then have 1: "step loads tq w ?w1" by (simp add: assms(4))
  have "handle_packet (ack_packet cls) (?h1\<lparr>hd_in := []\<rparr>) = (Inr (), ?h2)"
    using assms(4-6) meet_last [OF assms(7-9), of "ack_packet cls"]
    by (auto simp: handle_packet_def packet_map_def packet_with_id_def ack_classes_def ack_packet_def
        packet_notify_def get_int_def)
  then have "read_loop_round loads ?h1 (w_broker ?w1) = Some (?h2, w_broker w)"
    using assms(2,3) bs by (simp add: read_loop_round_def)
  then have "step loads tq ?w1 (put r (?h2, w_broker w) ?w1)" by (intro step.read [of _ _ ?h1]) simp_all
  with 1 show ?thesis by (simp add: converse_rtranclp_into_rtranclp)
qed

lemma wait_last:
  assumes "hd_conditions h = cs @ [c]" and "\<forall>x\<in>set cs. cd_ref x \<noteq> cd_ref c" and "cd_result c = Some p"
  shows "wait_for_packet (cd_ref c) h = Some (p, h\<lparr>hd_conditions := cs\<rparr>)"
proof -
  have "List.find (\<lambda>x. cd_ref x = cd_ref c) (cs @ [c]) = Some c"
    using assms(2) by (induction cs) auto
  moreover have "filter (\<lambda>x. cd_ref x \<noteq> cd_ref c) (cs @ [c]) = cs" using assms(2) by simp
  ultimately show ?thesis using assms(1,3) by (simp add: wait_for_packet_def)
qed

definition set_queue :: "ref \<Rightarrow> outgoing_message list \<Rightarrow> broker \<Rightarrow> broker" where
  "set_queue r ms br = br\<lparr>br_queues := (br_queues br)(r := ms)\<rparr>"

text \<open>A connection between two messages, and what it writes for a message.\<close>

definition idle :: "ref \<Rightarrow> world \<Rightarrow> handler \<Rightarrow> outgoing_message list \<Rightarrow> bool" where
  "idle r w h ms \<longleftrightarrow> world_ok w \<and> w_handlers w r = Some h \<and> hd_writer h = Ready \<and> hd_reader h = Reading
     \<and> hd_alive h \<and> hd_open h \<and> hd_in h = [] \<and> (\<forall>c\<in>set (hd_conditions h). cd_type_code c = 6)
     \<and> br_queues (w_broker w) r = ms"

definition pubrel_0 :: bytes where
  "pubrel_0 = [0x60, 2, 0, 0]"

definition publish_bytes :: "outgoing_message \<Rightarrow> py_error + bytes" where
  "publish_bytes m =
     packet_to_bytes PublishPacket (FlagGroup (publish_flags_from_kwargs (om_qos m) False))
       ([(''topic'', Value (VStr (om_topic m))), (''data'', Value (data_value (om_data m)))]
        @ (if om_qos m = 0 then [] else id_kwarg 0))"

definition message_bytes :: "outgoing_message \<Rightarrow> py_error + bytes list" where
  "message_bytes m = bindR (publish_bytes m) (\<lambda>b. Inr (b # (if om_qos m = 2 then [pubrel_0] else [])))"

lemma pubrel_bytes: "packet_to_bytes PublishReleasedPacket (FlagInt 0) (id_kwarg 0) = Inr pubrel_0"
  by code_simp

text \<open>The round of the writer that writes a PUBLISH with acknowledgement.\<close>

lemma send_round:
  assumes "idle r w h (m # ms)" and "om_qos m = 1 \<or> om_qos m = 2" and "message_bytes m = Inr (b # rest)"
  shows "step loads tq w (put r (h\<lparr>hd_used_ids := [0], hd_next_ref := Suc (hd_next_ref h),
      hd_conditions := hd_conditions h @ [\<lparr>cd_ref = hd_next_ref h,
        cd_type_code = (if om_qos m = 1 then 4 else 5), cd_id = 0, cd_result = None\<rparr>],
      hd_sent := hd_sent h @ [b], hd_writer := AwaitAck m 0 (hd_next_ref h)\<rparr>,
      set_queue r ms (w_broker w)) w)"
proof -
  have h: "w_handlers w r = Some h" "hd_writer h = Ready" "hd_open h" "br_queues (w_broker w) r = m # ms"
    and ok: "handler_ok h"
    using assms(1) world_ok_handler by (auto simp: idle_def)
  have c: "\<forall>x\<in>set (hd_conditions h). cd_ref x < hd_next_ref h" and u: "hd_used_ids h = []"
    using ok h(2) by (simp_all add: handler_ok_def conditions_ok_def)
  have fresh: "\<lparr>cd_ref = hd_next_ref h, cd_type_code = k, cd_id = i, cd_result = x\<rparr> \<notin> set (hd_conditions h)" for k i x
    using c by auto
  have b: "packet_to_bytes PublishPacket (FlagGroup (publish_flags_from_kwargs (om_qos m) False))
         ([(''topic'', Value (VStr (om_topic m))), (''data'', Value (data_value (om_data m)))] @ id_kwarg 0) = Inr b"
    using assms(2,3) by (auto simp: message_bytes_def publish_bytes_def res_simps split: if_splits)
  have "write_loop_round loads r h (w_broker w) = Some (h\<lparr>hd_used_ids := [0], hd_next_ref := Suc (hd_next_ref h),
      hd_conditions := hd_conditions h @ [\<lparr>cd_ref = hd_next_ref h,
        cd_type_code = (if om_qos m = 1 then 4 else 5), cd_id = 0, cd_result = None\<rparr>],
      hd_sent := hd_sent h @ [b], hd_writer := AwaitAck m 0 (hd_next_ref h)\<rparr>,
      set_queue r ms (w_broker w))"
    using h u fresh b assms(2)
    by (auto simp: write_loop_round_def send_message_def Let_def create_packet_condition_def
        write_publish_def write_packet_def or_release_def after_send_def set_queue_def)
  then show ?thesis by (rule step.send [OF h(1)])
qed

text \<open>The connection is idle again after a run that has sent the first message of its queue.\<close>

lemma idle_again:
  assumes "idle r w h (m # ms)" and "(step loads tq)\<^sup>*\<^sup>* w (put r (h', set_queue r ms (w_broker w)) w)"
    and "hd_writer h' = Ready" and "hd_reader h' = Reading" and "hd_alive h'" and "hd_open h'" and "hd_in h' = []"
    and "hd_conditions h' = hd_conditions h"
  shows "idle r (put r (h', set_queue r ms (w_broker w)) w) h' ms"
proof -
  have "world_ok w" "\<forall>c\<in>set (hd_conditions h). cd_type_code c = 6" using assms(1) by (simp_all add: idle_def)
  with assms(3-8) steps_ok [OF assms(2)] show ?thesis by (simp add: idle_def set_queue_def)
qed

lemma send_qos_0:
  assumes "idle r w h (m # ms)" and "om_qos m = 0" and "message_bytes m = Inr bs"
  shows "\<exists>h'. (step loads tq)\<^sup>*\<^sup>* w (put r (h', set_queue r ms (w_broker w)) w)
    \<and> idle r (put r (h', set_queue r ms (w_broker w)) w) h' ms \<and> hd_sent h' = hd_sent h @ bs"
proof -
  have h: "w_handlers w r = Some h" "hd_writer h = Ready" "hd_reader h = Reading" "hd_alive h" "hd_open h"
    "hd_in h = []" "br_queues (w_broker w) r = m # ms" using assms(1) by (auto simp: idle_def)
  obtain b where b: "bs = [b]" "packet_to_bytes PublishPacket (FlagGroup (publish_flags_from_kwargs 0 False))
      [(''topic'', Value (VStr (om_topic m))), (''data'', Value (data_value (om_data m)))] = Inr b"
    using assms(2,3) by (auto simp: message_bytes_def publish_bytes_def res_simps)
  let ?br = "set_queue r ms (w_broker w)" and ?h' = "h\<lparr>hd_sent := hd_sent h @ [b], hd_writer := Ready\<rparr>"
  have "write_loop_round loads r h (w_broker w) = Some (?h', ?br)"
    using h assms(2) b(2) by (simp add: write_loop_round_def send_message_def write_publish_def write_packet_def
        after_send_def Let_def set_queue_def)
  then have "step loads tq w (put r (?h', ?br) w)" by (rule step.send [OF h(1)])
  then have s: "(step loads tq)\<^sup>*\<^sup>* w (put r (?h', ?br) w)" by blast
  have "idle r (put r (?h', ?br) w) ?h' ms" by (rule idle_again [OF assms(1) s]) (simp_all add: h)
  with s show ?thesis using b(1) by (intro exI [of _ ?h']) simp
qed

text \<open>The connection when the client has answered the PUBLISH and the writer has not gone on yet.\<close>

definition acknowledged :: "handler \<Rightarrow> outgoing_message \<Rightarrow> bytes \<Rightarrow> handler" where
  "acknowledged h m b = h\<lparr>hd_used_ids := [0], hd_next_ref := Suc (hd_next_ref h),
     hd_conditions := hd_conditions h @ [\<lparr>cd_ref = hd_next_ref h, cd_type_code = (if om_qos m = 1 then 4 else 5),
       cd_id = 0, cd_result = Some (ack_packet (if om_qos m = 1 then PublishAcknowledgePacket else PublishReceivedPacket))\<rparr>],
     hd_sent := hd_sent h @ [b], hd_writer := AwaitAck m 0 (hd_next_ref h)\<rparr>"

lemma idle_refs: "idle r w h ms \<Longrightarrow> \<forall>x\<in>set (hd_conditions h). cd_ref x < hd_next_ref h"
  using world_ok_handler by (auto simp: idle_def handler_ok_def conditions_ok_def)

lemma send_acknowledged_by_client:
  assumes "idle r w h (m # ms)" and "om_qos m = 1 \<or> om_qos m = 2" and "message_bytes m = Inr (b # rest)"
  shows "(step loads tq)\<^sup>*\<^sup>* w (put r (acknowledged h m b, set_queue r ms (w_broker w)) w)"
    and "\<exists>p. wait_for_packet (hd_next_ref h) (acknowledged h m b) =
      Some (p, (acknowledged h m b)\<lparr>hd_conditions := hd_conditions h\<rparr>)"
proof -
  have h: "w_handlers w r = Some h" "hd_reader h = Reading" "hd_alive h" "hd_open h" "hd_in h = []"
    "\<forall>c\<in>set (hd_conditions h). cd_type_code c = 6" using assms(1) by (auto simp: idle_def)
  let ?c = "\<lparr>cd_ref = hd_next_ref h, cd_type_code = (if om_qos m = 1 then 4 else 5), cd_id = 0, cd_result = None\<rparr>"
  let ?p = "ack_packet (if om_qos m = 1 then PublishAcknowledgePacket else PublishReceivedPacket)"
  let ?br = "set_queue r ms (w_broker w)"
  let ?h1 = "h\<lparr>hd_used_ids := [0], hd_next_ref := Suc (hd_next_ref h), hd_conditions := hd_conditions h @ [?c],
      hd_sent := hd_sent h @ [b], hd_writer := AwaitAck m 0 (hd_next_ref h)\<rparr>"
  have a: "acknowledged h m b = ?h1\<lparr>hd_conditions := hd_conditions h @ [?c\<lparr>cd_result := Some ?p\<rparr>]\<rparr>"
    by (simp add: acknowledged_def)
  have 1: "step loads tq w (put r (?h1, ?br) w)" by (rule send_round [OF assms])
  have "(step loads tq)\<^sup>*\<^sup>* (put r (?h1, ?br) w)
      (put r (acknowledged h m b, w_broker (put r (?h1, ?br) w)) (put r (?h1, ?br) w))"
    unfolding a by (rule client_answers [where c = ?c]) (use h assms(2) in \<open>auto simp: ack_classes_def\<close>)
  with 1 show "(step loads tq)\<^sup>*\<^sup>* w (put r (acknowledged h m b, ?br) w)"
    by (simp add: converse_rtranclp_into_rtranclp)
  show "\<exists>p. wait_for_packet (hd_next_ref h) (acknowledged h m b) =
      Some (p, (acknowledged h m b)\<lparr>hd_conditions := hd_conditions h\<rparr>)"
    using wait_last [of "acknowledged h m b" "hd_conditions h" "?c\<lparr>cd_result := Some ?p\<rparr>" ?p] idle_refs [OF assms(1)]
    by (fastforce simp: acknowledged_def)
qed

lemma send_qos_1:
  assumes "idle r w h (m # ms)" and "om_qos m = 1" and "message_bytes m = Inr bs"
  shows "\<exists>h'. (step loads tq)\<^sup>*\<^sup>* w (put r (h', set_queue r ms (w_broker w)) w)
    \<and> idle r (put r (h', set_queue r ms (w_broker w)) w) h' ms \<and> hd_sent h' = hd_sent h @ bs"
proof -
  have h: "hd_reader h = Reading" "hd_alive h" "hd_open h" "hd_in h = []" using assms(1) by (auto simp: idle_def)
  obtain b where b: "bs = [b]" using assms(2,3) by (auto simp: message_bytes_def res_simps)
  have q: "om_qos m = 1 \<or> om_qos m = 2" using assms(2) by simp
  note a = send_acknowledged_by_client [OF assms(1) q assms(3) [unfolded b]]
  let ?a = "acknowledged h m b" and ?br = "set_queue r ms (w_broker w)"
  let ?h3 = "h\<lparr>hd_next_ref := Suc (hd_next_ref h), hd_used_ids := [], hd_sent := hd_sent h @ [b], hd_writer := Ready\<rparr>"
  have "write_loop_round loads r ?a ?br = Some (?h3, ?br)"
    using a(2) assms(2) h
    by (auto simp: acknowledged_def write_loop_round_def send_acknowledged_def release_id_def after_send_def)
  then have "step loads tq (put r (?a, ?br) w) (put r (?h3, ?br) (put r (?a, ?br) w))"
    by (intro step.send [of _ _ ?a]) simp_all
  with a(1) [of loads tq] have s: "(step loads tq)\<^sup>*\<^sup>* w (put r (?h3, ?br) w)" by simp
  have "idle r (put r (?h3, ?br) w) ?h3 ms" by (rule idle_again [OF assms(1) s]) (simp_all add: h)
  with s show ?thesis using b by (intro exI [of _ ?h3]) simp
qed

text \<open>With quality 2 the writer sends PUBREL and waits once more.\<close>

lemma send_qos_2:
  assumes "idle r w h (m # ms)" and "om_qos m = 2" and "message_bytes m = Inr bs"
  shows "\<exists>h'. (step loads tq)\<^sup>*\<^sup>* w (put r (h', set_queue r ms (w_broker w)) w)
    \<and> idle r (put r (h', set_queue r ms (w_broker w)) w) h' ms \<and> hd_sent h' = hd_sent h @ bs"
proof -
  have h: "hd_reader h = Reading" "hd_alive h" "hd_open h" "hd_in h = []"
    "\<forall>c\<in>set (hd_conditions h). cd_type_code c = 6" using assms(1) by (auto simp: idle_def)
  obtain b where b: "bs = [b, pubrel_0]" using assms(2,3) by (auto simp: message_bytes_def res_simps)
  have q: "om_qos m = 1 \<or> om_qos m = 2" using assms(2) by simp
  note a = send_acknowledged_by_client [OF assms(1) q assms(3) [unfolded b]]
  define n where "n = hd_next_ref h"
  have refs: "\<forall>x\<in>set (hd_conditions h). cd_ref x < n" using idle_refs [OF assms(1)] by (simp add: n_def)
  let ?a = "acknowledged h m b" and ?br = "set_queue r ms (w_broker w)"
  let ?d = "\<lparr>cd_ref = Suc n, cd_type_code = 7, cd_id = 0, cd_result = None\<rparr>"
  let ?h3 = "h\<lparr>hd_used_ids := [0], hd_next_ref := Suc (Suc n), hd_conditions := hd_conditions h @ [?d],
      hd_sent := hd_sent h @ [b, pubrel_0], hd_writer := AwaitComplete 0 (Suc n)\<rparr>"
  have "?d \<notin> set (hd_conditions h)" using refs by auto
  then have "write_loop_round loads r ?a ?br = Some (?h3, ?br)"
    using a(2) assms(2) h pubrel_bytes
    by (auto simp: acknowledged_def n_def write_loop_round_def send_acknowledged_def create_packet_condition_def
        Let_def write_packet_def or_release_def after_send_def)
  then have "step loads tq (put r (?a, ?br) w) (put r (?h3, ?br) (put r (?a, ?br) w))"
    by (intro step.send [of _ _ ?a]) simp_all
  with a(1) [of loads tq] have 3: "(step loads tq)\<^sup>*\<^sup>* w (put r (?h3, ?br) w)" by simp
  let ?d' = "?d\<lparr>cd_result := Some (ack_packet PublishCompletePacket)\<rparr>"
  let ?h4 = "?h3\<lparr>hd_conditions := hd_conditions h @ [?d']\<rparr>"
  have "(step loads tq)\<^sup>*\<^sup>* (put r (?h3, ?br) w) (put r (?h4, w_broker (put r (?h3, ?br) w)) (put r (?h3, ?br) w))"
    by (rule client_answers [where c = ?d]) (use h in \<open>auto simp: ack_classes_def\<close>)
  with 3 have 4: "(step loads tq)\<^sup>*\<^sup>* w (put r (?h4, ?br) w)" by simp
  have "wait_for_packet (Suc n) ?h4 = Some (ack_packet PublishCompletePacket, ?h4\<lparr>hd_conditions := hd_conditions h\<rparr>)"
    using wait_last [of ?h4 "hd_conditions h" ?d' "ack_packet PublishCompletePacket"] refs by fastforce
  then have "write_loop_round loads r ?h4 ?br = Some (h\<lparr>hd_next_ref := Suc (Suc n), hd_used_ids := [],
      hd_sent := hd_sent h @ [b, pubrel_0], hd_writer := Ready\<rparr>, ?br)" (is "_ = Some (?h5, _)")
    using h by (simp add: write_loop_round_def send_completed_def release_id_def after_send_def)
  then have "step loads tq (put r (?h4, ?br) w) (put r (?h5, ?br) (put r (?h4, ?br) w))"
    by (intro step.send [of _ _ ?h4]) simp_all
  with 4 have 5: "(step loads tq)\<^sup>*\<^sup>* w (put r (?h5, ?br) w)" by simp
  have "idle r (put r (?h5, ?br) w) ?h5 ms" by (rule idle_again [OF assms(1) 5]) (simp_all add: h)
  with 5 show ?thesis using b by (intro exI [of _ ?h5]) simp
qed

lemma send_one:
  assumes "idle r w h (m # ms)" and "om_qos m = 0 \<or> om_qos m = 1 \<or> om_qos m = 2" and "message_bytes m = Inr bs"
  shows "\<exists>h'. (step loads tq)\<^sup>*\<^sup>* w (put r (h', set_queue r ms (w_broker w)) w)
    \<and> idle r (put r (h', set_queue r ms (w_broker w)) w) h' ms \<and> hd_sent h' = hd_sent h @ bs"
  using assms(2) send_qos_0 [OF assms(1) _ assms(3)] send_qos_1 [OF assms(1) _ assms(3)]
    send_qos_2 [OF assms(1) _ assms(3)] by blast

lemma set_queue_twice [simp]: "set_queue r ms (set_queue r ms' br) = set_queue r ms br"
  by (simp add: set_queue_def)

lemma put_same: "w_handlers w r = Some h \<Longrightarrow> br_queues (w_broker w) r = ms \<Longrightarrow> put r (h, set_queue r ms (w_broker w)) w = w"
  by (cases w) (auto simp: put_def set_queue_def)

text \<open>Draining one queue changes nothing but that queue and its connection.\<close>

lemma drain:
  assumes "idle r w h ms" and "\<forall>m\<in>set ms. om_qos m = 0 \<or> om_qos m = 1 \<or> om_qos m = 2"
    and "mapR message_bytes ms = Inr bss"
  shows "\<exists>h'. (step loads tq)\<^sup>*\<^sup>* w (put r (h', set_queue r [] (w_broker w)) w)
    \<and> idle r (put r (h', set_queue r [] (w_broker w)) w) h' [] \<and> hd_sent h' = hd_sent h @ concat bss"
  using assms
proof (induction ms arbitrary: w h bss)
  case Nil
  then show ?case using put_same [of w r h "[]"] by (intro exI [of _ h]) (auto simp: idle_def)
next
  case (Cons m ms)
  obtain bs bss' where b: "message_bytes m = Inr bs" "mapR message_bytes ms = Inr bss'" "bss = bs # bss'"
    using Cons.prems(3) by (auto simp: res_simps)
  obtain h1 where 1: "(step loads tq)\<^sup>*\<^sup>* w (put r (h1, set_queue r ms (w_broker w)) w)"
    "idle r (put r (h1, set_queue r ms (w_broker w)) w) h1 ms" "hd_sent h1 = hd_sent h @ bs"
    using send_one [OF Cons.prems(1) _ b(1), of loads tq] Cons.prems(2) by auto
  obtain h2 where "(step loads tq)\<^sup>*\<^sup>* (put r (h1, set_queue r ms (w_broker w)) w) (put r (h2, set_queue r [] (w_broker w)) w)"
    "idle r (put r (h2, set_queue r [] (w_broker w)) w) h2 []" "hd_sent h2 = hd_sent h1 @ concat bss'"
    using Cons.IH [OF 1(2) _ b(2)] Cons.prems(2) by auto
  with rtranclp_trans [OF 1(1)] 1(3) b(3) show ?case by (intro exI [of _ h2]) auto
qed

text \<open>
  C2: With a client that answers, every queued message is sent: from a connection between two
  messages, whatever is in its queue, there is a run after which the queue is empty and the
  connection is again between two messages, having written each message, and PUBREL after each
  of quality 2, in the order of the queue.
\<close>

theorem queue_is_drained:
  assumes "idle r w h ms" and "\<forall>m\<in>set ms. om_qos m = 0 \<or> om_qos m = 1 \<or> om_qos m = 2"
    and "mapR message_bytes ms = Inr bss"
  shows "\<exists>w' h'. (step loads tq)\<^sup>*\<^sup>* w w' \<and> idle r w' h' [] \<and> hd_sent h' = hd_sent h @ concat bss"
  using drain [OF assms, of loads tq] by blast

lemma queue_is_drained_witness:
  "\<exists>w' h'. (step no_tables no_tables)\<^sup>*\<^sup>*
      (demo_connected\<lparr>w_broker := queue_message 0 \<lparr>om_topic = ''a'', om_qos = 2, om_data = PyBytes [120]\<rparr>
         (w_broker demo_connected)\<rparr>) w'
    \<and> w_handlers w' 0 = Some h' \<and> br_queues (w_broker w') 0 = []
    \<and> hd_sent h' = [[0x20, 2, 0, 0], [0x34, 6, 0, 1, 97, 0, 0, 120], [0x60, 2, 0, 0]]"
proof -
  let ?m = "\<lparr>om_topic = ''a'', om_qos = 2, om_data = PyBytes [120]\<rparr>"
  let ?w = "demo_connected\<lparr>w_broker := queue_message 0 ?m (w_broker demo_connected)\<rparr>"
  have "world_ok ?w"
    using demo_connected_ok by (simp add: world_ok_def) (simp add: queue_message_def)
  then have "idle 0 ?w demo_client [?m]"
    by (simp add: idle_def demo_connected_def demo_client_def new_connection_def queue_message_def new_broker_def)
  moreover have "message_bytes ?m = Inr [[0x34, 6, 0, 1, 97, 0, 0, 120], [0x60, 2, 0, 0]]" by code_simp
  then have "mapR message_bytes [?m] = Inr [[[0x34, 6, 0, 1, 97, 0, 0, 120], [0x60, 2, 0, 0]]]" by simp
  ultimately obtain w' h' where "(step no_tables no_tables)\<^sup>*\<^sup>* ?w w'" "idle 0 w' h' []"
    "hd_sent h' = hd_sent demo_client @ [[0x34, 6, 0, 1, 97, 0, 0, 120], [0x60, 2, 0, 0]]"
    using queue_is_drained [of 0 ?w demo_client "[?m]" _ no_tables no_tables] by auto
  then show ?thesis
    by (intro exI [of _ w'] exI [of _ h']) (simp add: idle_def demo_client_def new_connection_def)
qed

section \<open>Several queues\<close>

lemma idle_handler: "idle r w h ms \<Longrightarrow> w_handlers w r = Some h"
  by (simp add: idle_def)

lemma idle_same:
  "idle r w h ms \<Longrightarrow> world_ok w' \<Longrightarrow> w_handlers w' r = w_handlers w r \<Longrightarrow>
   br_queues (w_broker w') r = br_queues (w_broker w) r \<Longrightarrow> idle r w' h ms"
  by (simp add: idle_def)

definition sendable :: "outgoing_message \<Rightarrow> bool" where
  "sendable m \<longleftrightarrow> (om_qos m = 0 \<or> om_qos m = 1 \<or> om_qos m = 2) \<and> \<not> isl (message_bytes m)"

text \<open>What is written for the messages of a queue.\<close>

definition written :: "outgoing_message list \<Rightarrow> bytes list" where
  "written ms = concat (map (\<lambda>m. case message_bytes m of Inl e \<Rightarrow> [] | Inr bs \<Rightarrow> bs) ms)"

lemma sendable_written: "list_all sendable ms \<Longrightarrow> \<exists>bss. mapR message_bytes ms = Inr bss \<and> written ms = concat bss"
  by (induction ms) (auto simp: sendable_def written_def res_simps split: sum.splits)

lemma drain_sendable:
  assumes "idle r w h ms" and "list_all sendable ms"
  shows "\<exists>h'. (step loads tq)\<^sup>*\<^sup>* w (put r (h', set_queue r [] (w_broker w)) w)
    \<and> idle r (put r (h', set_queue r [] (w_broker w)) w) h' [] \<and> hd_sent h' = hd_sent h @ written ms"
proof -
  obtain bss where bss: "mapR message_bytes ms = Inr bss" "written ms = concat bss"
    using sendable_written [OF assms(2)] by blast
  have "\<forall>m\<in>set ms. om_qos m = 0 \<or> om_qos m = 1 \<or> om_qos m = 2"
    using assms(2) by (simp add: list_all_iff sendable_def)
  from drain [OF assms(1) this bss(1), of loads tq] bss(2) show ?thesis by simp
qed

lemma drain_all:
  assumes "distinct rs" and "\<And>r. r \<in> set rs \<Longrightarrow> idle r w (hs r) (ms r) \<and> list_all sendable (ms r)"
  shows "\<exists>w'. (step loads tq)\<^sup>*\<^sup>* w w'
    \<and> (\<forall>r\<in>set rs. \<exists>h'. idle r w' h' [] \<and> hd_sent h' = hd_sent (hs r) @ written (ms r))
    \<and> (\<forall>r. r \<notin> set rs \<longrightarrow> w_handlers w' r = w_handlers w r \<and> br_queues (w_broker w') r = br_queues (w_broker w) r)"
  using assms
proof (induction rs arbitrary: w)
  case (Cons r rs)
  obtain h where 1: "(step loads tq)\<^sup>*\<^sup>* w (put r (h, set_queue r [] (w_broker w)) w)"
    "idle r (put r (h, set_queue r [] (w_broker w)) w) h []" "hd_sent h = hd_sent (hs r) @ written (ms r)"
    using drain_sendable [of r w "hs r" "ms r" loads tq] Cons.prems(2) by auto
  define w1 where "w1 = put r (h, set_queue r [] (w_broker w)) w"
  have others: "w_handlers w1 x = w_handlers w x" "br_queues (w_broker w1) x = br_queues (w_broker w) x" if "x \<noteq> r" for x
    using that by (simp_all add: w1_def put_def set_queue_def)
  have ok1: "world_ok w1" using 1(2) by (simp add: idle_def w1_def)
  have "idle x w1 (hs x) (ms x) \<and> list_all sendable (ms x)" if "x \<in> set rs" for x
    using idle_same [OF _ ok1] others [of x] Cons.prems that by fastforce
  then obtain w2 where 2: "(step loads tq)\<^sup>*\<^sup>* w1 w2"
    "\<forall>x\<in>set rs. \<exists>h'. idle x w2 h' [] \<and> hd_sent h' = hd_sent (hs x) @ written (ms x)"
    "\<And>x. x \<notin> set rs \<Longrightarrow> w_handlers w2 x = w_handlers w1 x \<and> br_queues (w_broker w2) x = br_queues (w_broker w1) x"
    using Cons.IH [of w1] Cons.prems(1) by auto
  have "idle r w2 h []"
    using idle_same [OF 1(2) steps_ok [OF 2(1) ok1]] 2(3) [of r] Cons.prems(1) by (simp add: w1_def)
  then show ?case
    using rtranclp_trans [OF 1(1) [folded w1_def] 2(1)] 1(3) 2(2,3) others by (intro exI [of _ w2]) auto
qed auto

section \<open>From publisher to subscribers\<close>

text \<open>A PUBLISH that is not retained, of quality 0 or 1; \<open>i\<close> is its packet id, if it has one.\<close>

definition plain_request :: "packet \<Rightarrow> string \<Rightarrow> bytes option \<Rightarrow> int \<Rightarrow> int \<Rightarrow> bool" where
  "plain_request p raw data qos i \<longleftrightarrow> pk_class p = PublishPacket
     \<and> get_str (pk_kwargs p) ''topic'' = Inr raw \<and> get_data (pk_kwargs p) ''data'' = Inr data
     \<and> (case pk_flags p of FlagGroup f \<Rightarrow> pf_qos f = qos \<and> \<not> pf_retain f | FlagInt n \<Rightarrow> False)
     \<and> (qos = 0 \<or> qos = 1 \<and> get_int (pk_kwargs p) ''id'' = Inr i)"

definition answer_to_publisher :: "int \<Rightarrow> int \<Rightarrow> py_error + bytes list" where
  "answer_to_publisher qos i =
     (if qos = 0 then Inr []
      else bindR (packet_to_bytes PublishAcknowledgePacket (FlagInt 0) (id_kwarg i)) (\<lambda>b. Inr [b]))"


text \<open>The request is read, a thread is started for it, and the thread publishes and answers.\<close>

lemma request_published:
  assumes "w_handlers w r0 = Some h0" and "hd_reader h0 = Reading" and "hd_alive h0" and "hd_open h0" and "hd_in h0 = []"
    and "read_next_packet bs = Inr (p, [])" and "plain_request p raw data qos i"
    and "answer_to_publisher qos i = Inr acks" and "from_raw_data raw data qos False = Inr m"
    and "publish loads m (w_broker w) = (Inr (), br1)"
  shows "(step loads tq)\<^sup>*\<^sup>* (put r0 (h0\<lparr>hd_in := bs\<rparr>, w_broker w) w) (put r0 (h0\<lparr>hd_sent := hd_sent h0 @ acks\<rparr>, br1) w)"
proof -
  obtain f where p: "pk_class p = PublishPacket" "get_str (pk_kwargs p) ''topic'' = Inr raw"
    "get_data (pk_kwargs p) ''data'' = Inr data" "pk_flags p = FlagGroup f" "pf_qos f = qos" "\<not> pf_retain f"
    "qos = 0 \<or> qos = 1 \<and> get_int (pk_kwargs p) ''id'' = Inr i"
    using assms(7) by (auto simp: plain_request_def split: packet_flags.splits)
  let ?w0 = "put r0 (h0\<lparr>hd_in := bs\<rparr>, w_broker w) w"
  let ?h1 = "h0\<lparr>hd_threads := hd_threads h0 @ [Start p]\<rparr>"
  let ?w1 = "put r0 (?h1, w_broker w) w"
  have "read_loop_round loads (h0\<lparr>hd_in := bs\<rparr>) (w_broker ?w0) = Some (?h1, w_broker w)"
    using assms(2-6) p(1) by (simp add: read_loop_round_def handle_packet_def packet_map_def)
  then have "step loads tq ?w0 (put r0 (?h1, w_broker w) ?w0)"
    by (intro step.read [of _ _ "h0\<lparr>hd_in := bs\<rparr>"]) simp_all
  then have 1: "step loads tq ?w0 ?w1" by simp
  have "message_from_packet p = Inr m" using p assms(9) by (simp add: message_from_packet_def)
  then have d: "publish_packet_data loads p (w_broker w) = (Inr (), br1)"
    using assms(10) by (simp add: publish_packet_data_def)
  have "run_thread loads tq r0 (Start p) (?h1\<lparr>hd_threads := hd_threads h0 @ []\<rparr>) (w_broker ?w1) =
      Some (h0\<lparr>hd_sent := hd_sent h0 @ acks\<rparr>, br1)"
    using p d assms(4,8)
    by (auto simp: start_thread_def handle_publish_eq handle_publish_qos_1_def answer_to_publisher_def
        write_packet_def res_simps)
  then have "step loads tq ?w1 (put r0 (h0\<lparr>hd_sent := hd_sent h0 @ acks\<rparr>, br1) ?w1)"
    by (intro step.run [of _ _ ?h1 "hd_threads h0" "Start p" "[]"]) simp_all
  with 1 show ?thesis by (simp add: converse_rtranclp_into_rtranclp)
qed

lemma delivery_run:
  assumes "reachable loads tq w" and "br_broadcast (w_broker w) = []"
    and "w_handlers w r0 = Some h0" and "hd_reader h0 = Reading" and "hd_alive h0" and "hd_open h0" and "hd_in h0 = []"
    and "read_next_packet bs = Inr (p, [])" and "plain_request p raw data qos i" and "answer_to_publisher qos i = Inr acks"
    and "raw \<noteq> []" and "hd raw \<notin> {TABLE_FLAG, TOPIC_SEP}" and "list_all is_node_static (topic_nodes raw)"
    and "\<And>b. data = Some b \<Longrightarrow> utf8_valid b"
  defines "messages \<equiv> messages_for [(topic_nodes raw, data, qos)] (w_broker w)"
  assumes "distinct rs" and "\<And>r. r \<in> set rs \<Longrightarrow> idle r w (hs r) [] \<and> list_all sendable (messages r)"
  shows "\<exists>w' h0'. (step loads tq)\<^sup>*\<^sup>* (put r0 (h0\<lparr>hd_in := bs\<rparr>, w_broker w) w) w'
    \<and> w_handlers w' r0 = Some h0' \<and> (r0 \<notin> set rs \<longrightarrow> hd_sent h0' = hd_sent h0 @ acks)
    \<and> (\<forall>r\<in>set rs. \<exists>h'. idle r w' h' [] \<and>
         hd_sent h' = hd_sent (hs r) @ (if r = r0 then acks else []) @ written (messages r))"
proof -
  let ?br = "w_broker w" and ?rows = "[(topic_nodes raw, data, qos)]"
  have ok: "world_ok w" by (rule reachable_ok [OF assms(1)])
  obtain m where m: "from_raw_data raw data qos False = Inr m" by (simp add: from_raw_data_def)
  note pub = plain_publish_round(1) [OF world_ok_broker [OF ok] assms(2) m assms(11-14)]
    plain_publish_round(2) [OF world_ok_broker [OF ok] assms(2) m assms(11-14)]
  define h1 where "h1 = h0\<lparr>hd_sent := hd_sent h0 @ acks\<rparr>"
  define br2 where "br2 = ?br\<lparr>br_queues := (\<lambda>r. br_queues ?br r @ messages r)\<rparr>"
  define w2 where "w2 = put r0 (h1, br2) w"
  have 1: "(step loads tq)\<^sup>*\<^sup>* (put r0 (h0\<lparr>hd_in := bs\<rparr>, ?br) w) (put r0 (h1, ?br\<lparr>br_broadcast := [?rows]\<rparr>) w)"
    unfolding h1_def by (rule request_published [OF assms(3-10) m pub(1)])
  have "step loads tq (put r0 (h1, ?br\<lparr>br_broadcast := [?rows]\<rparr>) w)
      ((put r0 (h1, ?br\<lparr>br_broadcast := [?rows]\<rparr>) w)\<lparr>w_broker := br2\<rparr>)"
    using pub(2) by (intro step.deliver) (simp add: put_def br2_def messages_def)
  then have 2: "(step loads tq)\<^sup>*\<^sup>* (put r0 (h0\<lparr>hd_in := bs\<rparr>, ?br) w) w2"
    using 1 by (simp add: w2_def put_def)
  have "world_ok (put r0 (h0\<lparr>hd_in := hd_in h0 @ bs\<rparr>, ?br) w)" by (rule step_ok [OF step.receive [OF assms(3)] ok])
  then have ok2: "world_ok w2" using steps_ok [OF 2] assms(7) by simp
  define hs2 where "hs2 = (\<lambda>r. if r = r0 then h1 else hs r)"
  have "idle r w2 (hs2 r) (messages r) \<and> list_all sendable (messages r)" if "r \<in> set rs" for r
    using assms(17) [OF that] ok2 assms(3) by (auto simp: idle_def hs2_def w2_def put_def br2_def h1_def)
  then obtain w' where w': "(step loads tq)\<^sup>*\<^sup>* w2 w'"
    "\<forall>r\<in>set rs. \<exists>h'. idle r w' h' [] \<and> hd_sent h' = hd_sent (hs2 r) @ written (messages r)"
    "\<And>r. r \<notin> set rs \<Longrightarrow> w_handlers w' r = w_handlers w2 r"
    using drain_all [OF assms(16), of w2 hs2 messages loads tq] by blast
  have same: "hs r0 = h0" if "r0 \<in> set rs" using assms(3) assms(17) [OF that] by (simp add: idle_def)
  have "\<exists>h0'. w_handlers w' r0 = Some h0' \<and> (r0 \<notin> set rs \<longrightarrow> hd_sent h0' = hd_sent h0 @ acks)"
    using w'(2) w'(3) [of r0] by (cases "r0 \<in> set rs") (auto simp: idle_def w2_def h1_def)
  moreover have "\<exists>h'. idle r w' h' [] \<and> hd_sent h' = hd_sent (hs r) @ (if r = r0 then acks else []) @ written (messages r)"
    if "r \<in> set rs" for r
    using bspec [OF w'(2) that] same that by (cases "r = r0") (simp_all add: hs2_def h1_def)
  ultimately show ?thesis using rtranclp_trans [OF 2 w'(1)] by blast
qed

text \<open>
  C9: From the bytes of the publisher to the bytes of the subscribers. A connected client sends
  a plain PUBLISH of quality 0 or 1 that is not retained, to a topic without wildcards outside
  the tables; nothing else waits to be broadcast, and each of the connections \<open>rs\<close> is between two
  messages. With clients that answer there is a run in which the publisher gets its
  acknowledgement (PUBACK for quality 1, nothing for 0) and each of these connections exactly
  the packets for its registrations that match the topic, after which each is between two
  messages again, with an empty queue.
\<close>

theorem publication_delivered:
  assumes "reachable loads tq w" and "br_broadcast (w_broker w) = []"
    and "w_handlers w r0 = Some h0" and "hd_reader h0 = Reading" and "hd_alive h0" and "hd_open h0" and "hd_in h0 = []"
    and "read_next_packet bs = Inr (p, [])" and "plain_request p raw data qos i" and "answer_to_publisher qos i = Inr acks"
    and "raw \<noteq> []" and "hd raw \<notin> {TABLE_FLAG, TOPIC_SEP}" and "list_all is_node_static (topic_nodes raw)"
    and "\<And>b. data = Some b \<Longrightarrow> utf8_valid b"
  defines "messages \<equiv> messages_for [(topic_nodes raw, data, qos)] (w_broker w)"
  assumes "distinct rs" and "\<And>r. r \<in> set rs \<Longrightarrow> idle r w (hs r) [] \<and> list_all sendable (messages r)"
  shows "\<exists>w' h0'. (step loads tq)\<^sup>*\<^sup>* (put r0 (h0\<lparr>hd_in := bs\<rparr>, w_broker w) w) w'
    \<and> w_handlers w' r0 = Some h0' \<and> (r0 \<notin> set rs \<longrightarrow> hd_sent h0' = hd_sent h0 @ acks)
    \<and> (\<forall>r\<in>set rs. \<exists>h'. idle r w' h' [] \<and>
         hd_sent h' = hd_sent (hs r) @ (if r = r0 then acks else []) @ written (messages r))"
  unfolding messages_def using delivery_run [OF assms(1-14)] assms(16,17) unfolding messages_def by blast

text \<open>A client that is subscribed to \<open>a\<close> publishes to it with quality 1.\<close>

definition demo_subscriber :: handler where
  "demo_subscriber = demo_client\<lparr>hd_subscriptions := [''a''], hd_sent := [[0x20, 2, 0, 0], [0x90, 3, 0, 1, 1]]\<rparr>"

definition demo_request :: bytes where
  "demo_request = [0x32, 6, 0, 1, 97, 0, 7, 120]"

lemma demo_delivery:
  shows "br_broadcast (w_broker demo_subscribed) = []" and "w_handlers demo_subscribed 0 = Some demo_subscriber"
    and "hd_reader demo_subscriber = Reading" and "hd_alive demo_subscriber" and "hd_open demo_subscriber"
    and "hd_in demo_subscriber = []" and "read_next_packet demo_request = Inr (demo_publish_1, [])"
    and "plain_request demo_publish_1 ''a'' (Some [120]) 1 7" and "answer_to_publisher 1 7 = Inr [[0x40, 2, 0, 7]]"
    and "''a'' \<noteq> []" and "hd ''a'' \<notin> {TABLE_FLAG, TOPIC_SEP}" and "list_all is_node_static (topic_nodes ''a'')"
    and "\<And>b. Some [120] = Some b \<Longrightarrow> utf8_valid b" and "distinct [0 :: ref]"
    and "r \<in> set [0] \<Longrightarrow> idle r demo_subscribed demo_subscriber []
      \<and> list_all sendable (messages_for [(topic_nodes ''a'', Some [120], 1)] (w_broker demo_subscribed) r)"
    and "written (messages_for [(topic_nodes ''a'', Some [120], 1)] (w_broker demo_subscribed) 0) =
      [[0x32, 6, 0, 1, 97, 0, 0, 120]]"
proof -
  let ?w = demo_subscribed
  have n: "topic_nodes ''a'' = [''a'']" by (simp add: topic_nodes_def const_defs)
  show h: "w_handlers ?w 0 = Some demo_subscriber" "hd_reader demo_subscriber = Reading" "hd_alive demo_subscriber"
    "hd_open demo_subscriber" "hd_in demo_subscriber = []"
    by (simp_all add: demo_subscribed_def demo_subscriber_def demo_client_def new_connection_def)
  have h': "hd_writer demo_subscriber = Ready" "hd_conditions demo_subscriber = []"
    by (simp_all add: demo_subscriber_def demo_client_def new_connection_def)
  show "read_next_packet demo_request = Inr (demo_publish_1, [])" by code_simp
  have "publish_flags_from_int 2 = \<lparr>pf_data = 2, pf_retain = False, pf_qos = 1\<rparr>" by code_simp
  then show "plain_request demo_publish_1 ''a'' (Some [120]) 1 7"
    by (simp add: plain_request_def demo_publish_1_def get_str_def get_data_def get_int_def)
  show "answer_to_publisher 1 7 = Inr [[0x40, 2, 0, 7]]" by code_simp
  show "''a'' \<noteq> []" "hd ''a'' \<notin> {TABLE_FLAG, TOPIC_SEP}" "list_all is_node_static (topic_nodes ''a'')"
    "\<And>b. Some [120] = Some b \<Longrightarrow> utf8_valid b" "distinct [0 :: ref]"
    by (auto simp: n const_defs is_node_static_def ascii_valid)
  show "br_broadcast (w_broker ?w) = []" by code_simp
  have br: "br_queues (w_broker ?w) 0 = []" "br_clients (w_broker ?w) ''c1'' = Some 0"
    by code_simp+
  have "sub_list (br_subs (w_broker ?w)) = [([''a''], ''c1'', 1)]" by code_simp
  then have ms: "messages_for [(topic_nodes ''a'', Some [120], 1)] (w_broker ?w) 0 =
      [\<lparr>om_topic = ''a'', om_qos = 1, om_data = PyBytes [120]\<rparr>]"
    by (simp add: messages_for_def n br(2) rows_for_def topic_match_Cons sub_message_of_def reply_data_def
        build_message_data_def const_defs)
  have mb: "message_bytes \<lparr>om_topic = ''a'', om_qos = 1, om_data = PyBytes [120]\<rparr> = Inr [[0x32, 6, 0, 1, 97, 0, 0, 120]]"
    by code_simp
  show "idle r ?w demo_subscriber [] \<and> list_all sendable (messages_for [(topic_nodes ''a'', Some [120], 1)] (w_broker ?w) r)"
    if "r \<in> set [0]"
    using that h h' br(1) reachable_ok [OF demo_subscribed_reachable] mb by (simp add: ms idle_def sendable_def)
  show "written (messages_for [(topic_nodes ''a'', Some [120], 1)] (w_broker ?w) 0) = [[0x32, 6, 0, 1, 97, 0, 0, 120]]"
    by (simp add: ms written_def mb)
qed

lemma publication_delivered_witness:
  "\<exists>w' h'. (step no_json no_tables)\<^sup>*\<^sup>*
      (put 0 (demo_subscriber\<lparr>hd_in := demo_request\<rparr>, w_broker demo_subscribed) demo_subscribed) w'
    \<and> w_handlers w' 0 = Some h' \<and> br_queues (w_broker w') 0 = []
    \<and> hd_sent h' = [[0x20, 2, 0, 0], [0x90, 3, 0, 1, 1], [0x40, 2, 0, 7], [0x32, 6, 0, 1, 97, 0, 0, 120]]"
proof -
  from publication_delivered [where rs = "[0]" and hs = "\<lambda>_. demo_subscriber" and loads = no_json and tq = no_tables,
      OF demo_subscribed_reachable demo_delivery(1-15)] obtain w' h'
    where "(step no_json no_tables)\<^sup>*\<^sup>*
      (put 0 (demo_subscriber\<lparr>hd_in := demo_request\<rparr>, w_broker demo_subscribed) demo_subscribed) w'"
      "idle 0 w' h' []" "hd_sent h' = hd_sent demo_subscriber @ [[0x40, 2, 0, 7]] @
        written (messages_for [(topic_nodes ''a'', Some [120], 1)] (w_broker demo_subscribed) 0)"
    by auto
  then show ?thesis
    by (intro exI [of _ w'] exI [of _ h']) (simp add: idle_def demo_delivery(16) demo_subscriber_def)
qed

end
