(* ===== verification/Ordering.thy ===== *)
theory Ordering
  imports Delivery
begin

text \<open>
  The order of deliveries: whatever the threads and the network do, the messages of a queue
  leave in their order, each once, among the other packets of the connection.
\<close>

section \<open>Packets that are not PUBLISH\<close>

definition is_publish :: "bytes \<Rightarrow> bool" where
  "is_publish bs \<longleftrightarrow> bs \<noteq> [] \<and> drop_bit 4 (hd bs) = 3"

lemma to_bytes_other:
  assumes "packet_to_bytes cls (FlagInt 0) kws = Inr bs" and "cls \<noteq> PublishPacket"
  shows "\<not> is_publish bs"
  using assms
  by (cases cls) (auto simp: packet_to_bytes_def get_header_bytes_def is_publish_def res_simps Let_def
      split: if_splits)

text \<open>What the threads that do not send messages leave: their own packets, and the writer as it was.\<close>

definition quiet :: "handler \<Rightarrow> handler \<Rightarrow> bool" where
  "quiet h h' \<longleftrightarrow> hd_writer h' = hd_writer h
     \<and> (\<exists>os. hd_sent h' = hd_sent h @ os \<and> list_all (\<lambda>b. \<not> is_publish b) os)"

lemma quietI: "hd_writer h' = hd_writer h \<Longrightarrow> hd_sent h' = hd_sent h \<Longrightarrow> quiet h h'"
  by (simp add: quiet_def)

lemma quiet_refl [simp]: "quiet h h"
  by (simp add: quiet_def)

lemma quiet_trans: "quiet h h' \<Longrightarrow> quiet h' h'' \<Longrightarrow> quiet h h''"
  unfolding quiet_def by (metis append.assoc list_all_append)

lemma quiet_fields [simp]:
  "quiet h (h'\<lparr>hd_in := bs\<rparr>) = quiet h h'" "quiet h (h'\<lparr>hd_open := b\<rparr>) = quiet h h'"
  "quiet h (h'\<lparr>hd_subscriptions := ts\<rparr>) = quiet h h'" "quiet h (h'\<lparr>hd_conditions := cs\<rparr>) = quiet h h'"
  "quiet h (h'\<lparr>hd_threads := th\<rparr>) = quiet h h'" "quiet h (h'\<lparr>hd_linked := b\<rparr>) = quiet h h'"
  "quiet h (h'\<lparr>hd_override := b\<rparr>) = quiet h h'" "quiet h (h'\<lparr>hd_reader := rd\<rparr>) = quiet h h'"
  "quiet h (h'\<lparr>hd_id := i\<rparr>) = quiet h h'" "quiet h (h'\<lparr>hd_last_will := m\<rparr>) = quiet h h'"
  "quiet h (h'\<lparr>hd_keep_alive := k\<rparr>) = quiet h h'" "quiet h (h'\<lparr>hd_next_ref := n\<rparr>) = quiet h h'"
  "quiet h (close_handler h') = quiet h h'"
  "quiet (h\<lparr>hd_threads := th\<rparr>) h' = quiet h h'" "quiet (h\<lparr>hd_in := bs\<rparr>) h' = quiet h h'"
  "quiet (h\<lparr>hd_subscriptions := ts\<rparr>) h' = quiet h h'" "quiet (h\<lparr>hd_linked := b\<rparr>) h' = quiet h h'"
  "quiet (h\<lparr>hd_override := b\<rparr>) h' = quiet h h'" "quiet (h\<lparr>hd_id := i\<rparr>) h' = quiet h h'"
  "quiet (h\<lparr>hd_last_will := m\<rparr>) h' = quiet h h'" "quiet (h\<lparr>hd_conditions := cs\<rparr>) h' = quiet h h'"
  by (simp_all add: quiet_def close_handler_eq)

lemma quiet_write: "cls \<noteq> PublishPacket \<Longrightarrow> quiet h (snd (write_packet cls (FlagInt 0) kws h))"
  by (auto simp: quiet_def write_packet_def to_bytes_other split: sum.split)

lemma quiet_create: "quiet h (snd (create_packet_condition cls pid h))"
  by (simp add: create_packet_condition_def Let_def)

lemma quiet_notify: "quiet h (snd (packet_notify p h))"
  by (auto simp: packet_notify_def split: sum.split option.split)

lemma quiet_wait: "wait_for_packet c h = Some (p, h1) \<Longrightarrow> quiet h h1"
  by (auto dest!: wait_for_packet_Some)

section \<open>Queues that grow\<close>

definition grows :: "broker \<Rightarrow> broker \<Rightarrow> bool" where
  "grows br br' \<longleftrightarrow> (\<forall>r. \<exists>new. br_queues br' r = br_queues br r @ new)"

lemma growsI: "br_queues br' = br_queues br \<Longrightarrow> grows br br'"
  by (simp add: grows_def)

lemma grows_refl [simp]: "grows br br"
  by (simp add: grows_def)

lemma grows_trans: "grows br br' \<Longrightarrow> grows br' br'' \<Longrightarrow> grows br br''"
  unfolding grows_def by (metis append.assoc)

lemma grows_fields [simp]:
  "grows br (br'\<lparr>br_subs := s\<rparr>) = grows br br'" "grows br (br'\<lparr>br_clients := c\<rparr>) = grows br br'"
  "grows (br\<lparr>br_broadcast := rows\<rparr>) br' = grows br br'"
  by (simp_all add: grows_def)

lemma grows_queue: "grows br (queue_message r m br)"
  by (auto simp: grows_def queue_message_def)

lemma unsubscribe_queues [simp]: "br_queues (snd (unsubscribe cid ts br)) = br_queues br"
proof (induction cid ts br rule: unsubscribe.induct)
  case (2 cid t ts br)
  have "br_queues (snd (unsubscribe_topic cid t br)) = br_queues br"
    by (auto simp: unsubscribe_topic_def broker_warn_def Let_def split_beta split: sum.split)
  with 2 show ?case by (auto split: sum.split prod.split)
qed simp

lemma disconnected_queues [simp]: "br_queues (snd (handle_disconnected loads h br)) = br_queues br"
proof -
  obtain x br1 where u: "unsubscribe (client_key h) (hd_subscriptions h) br = (x, br1)" by fastforce
  then have "br_queues br1 = br_queues br" using unsubscribe_queues by (metis snd_conv)
  then show ?thesis by (auto simp: handle_disconnected_def u Let_def split: sum.split option.split)
qed

lemma grows_subscribe: "grows br (snd (subscribe tq cid r t q tree br))"
  using grows_queue by (auto simp: subscribe_def Let_def split_beta split: sum.split option.split)

lemma grows_deliver_to: "grows br (snd (deliver_to t d items br))"
proof (induction t d items br rule: deliver_to.induct)
  case (2 t d cid qos rest br)
  then show ?case by (auto split: option.split pyobj.split intro: grows_trans [OF grows_queue])
qed simp

lemma grows_deliver: "grows br (snd (deliver_messages ms br))"
proof (induction ms br rule: deliver_messages.induct)
  case (2 c nodes data ms br)
  show ?case
  proof (cases "py_items c")
    case (Inr items)
    obtain x br1 where d: "deliver_to (str_from_nodes nodes) data items br = (x, br1)" by fastforce
    have "grows br br1" using grows_deliver_to [of br "str_from_nodes nodes" data items] d by simp
    then show ?thesis using 2 [OF Inr d [symmetric]] grows_trans by (auto simp: Inr d split: sum.split)
  qed simp
qed simp

lemma grows_main_loop: "main_loop_round br = Some br' \<Longrightarrow> grows br br'"
  using grows_deliver [of "br\<lparr>br_broadcast := b\<rparr>" for b]
  by (auto simp: main_loop_round_def process_outgoing_rows_def Let_def intro: growsI split: list.splits sum.splits if_splits)

section \<open>What the other threads do\<close>

definition calm :: "handler \<times> broker \<Rightarrow> handler \<times> broker \<Rightarrow> bool" where
  "calm s s' \<longleftrightarrow> quiet (fst s) (fst s') \<and> grows (snd s) (snd s')"

lemma calm_pair [simp]: "calm (h, br) (h', br') \<longleftrightarrow> quiet h h' \<and> grows br br'"
  by (simp add: calm_def)

lemma calm_trans: "calm s s' \<Longrightarrow> calm s' s'' \<Longrightarrow> calm s s''"
  unfolding calm_def using quiet_trans grows_trans by blast

lemma calm_disconnect: "calm (h, br) (disconnect loads h br)" "calm (h, br) (override_connection loads h br)"
  by (simp_all add: disconnect_def override_connection_def Let_def growsI)

lemma calm_end_reader: "calm (h, br) (end_reader loads h br)"
  by (simp add: end_reader_def leave_loop_def Let_def growsI)

lemma calm_subscribe_loop: "calm (h, br) (snd (subscribe_loop tq r requests codes h br))"
proof (induction requests arbitrary: codes h br)
  case (Cons request requests)
  have step: "calm (h, br) (snd (subscribe_loop tq r requests codes (h\<lparr>hd_subscriptions := ts\<rparr>) br1))"
      "calm (h, br) (snd (subscribe_loop tq r requests codes h br1))"
    if "grows br br1" for codes ts br1
    using calm_trans [of "(h, br)" "(h\<lparr>hd_subscriptions := ts\<rparr>, br1)", OF _ Cons.IH]
      calm_trans [of "(h, br)" "(h, br1)", OF _ Cons.IH] that by simp_all
  have g: "grows br br1" if "subscribe tq c r t q tree br = (x, br1)" for c t q tree x br1
    using grows_subscribe [of br tq c r t q tree] that by simp
  show ?case by (auto simp: Let_def g step split: sum.split prod.split bool.split)
qed simp

lemma calm_handle_subscribe: "calm (h, br) (snd (handle_subscribe tq r p h br))"
proof (cases "\<exists>requests. map_of (pk_kwargs p) ''requests'' = Some (Records requests)")
  case True
  then obtain requests where rq: "map_of (pk_kwargs p) ''requests'' = Some (Records requests)" by blast
  obtain x h1 br1 where l: "subscribe_loop tq r requests [] h br = (x, h1, br1)" by (metis prod_cases3)
  have c: "quiet h h1" "grows br br1" using calm_subscribe_loop [of h br tq r requests "[]"] by (simp_all add: l)
  then show ?thesis
    using quiet_trans [OF c(1) quiet_write [of SubscribeAcknowledgePacket]]
    by (simp add: handle_subscribe_def rq l Let_def split_beta split: sum.split)
next
  case False
  then show ?thesis by (auto simp: handle_subscribe_def split: option.split field_value.split)
qed

lemma calm_unsubscribe_loop: "calm (h, br) (snd (unsubscribe_loop i topics h br))"
proof (induction i topics h br rule: unsubscribe_loop.induct)
  case (2 i topic topics h br)
  let ?h = "h\<lparr>hd_subscriptions := remove1 topic (hd_subscriptions h)\<rparr>"
  obtain x br1 where u: "unsubscribe (client_key h) [topic] br = (x, br1)" by fastforce
  obtain y h1 where w: "write_packet UnsubscribeAcknowledgePacket (FlagInt 0) (id_kwarg i) ?h = (y, h1)" by fastforce
  have 1: "quiet h h1" using quiet_write [of UnsubscribeAcknowledgePacket ?h "id_kwarg i"] by (simp add: w)
  have 2: "grows br br1" using unsubscribe_queues [of "client_key h" "[topic]" br] u by (intro growsI) simp
  have "calm (h, br) (snd (unsubscribe_loop i topics h1 br1))" if "x = Inr True" "y = Inr ()"
    using calm_trans [of "(h, br)" "(h1, br1)"] 1 2 "2.IH"(1) [OF u [symmetric] _ _ w [symmetric]] that by simp
  moreover have "calm (h, br) (snd (unsubscribe_loop i topics h br1))" if "x = Inr False"
    using calm_trans [of "(h, br)" "(h, br1)"] 2 "2.IH"(2) [OF u [symmetric], of False] that by simp
  ultimately show ?case
    using 1 2 by (auto simp: u w simp del: unsubscribe.simps split: sum.split bool.split)
qed simp_all

lemma calm_handle_unsubscribe: "calm (h, br) (snd (handle_unsubscribe p h br))"
  by (auto simp: handle_unsubscribe_def calm_unsubscribe_loop split: option.split field_value.split sum.split)

lemma grows_publish_data [simp]: "grows br (snd (publish_packet_data loads p br))"
  by (rule growsI) simp

lemma calm_qos_1: "calm (h, br) (snd (handle_publish_qos_1 loads p h br))"
proof -
  obtain x br1 where p: "publish_packet_data loads p br = (x, br1)" by fastforce
  then have "grows br br1" using grows_publish_data [of br loads p] by simp
  then show ?thesis
    using quiet_write [of PublishAcknowledgePacket h]
    by (simp add: handle_publish_qos_1_def p Let_def split_beta split: sum.split)
qed

lemma quiet_qos_2: "quiet h (snd (handle_publish_qos_2 p h))"
  using quiet_trans [OF quiet_create quiet_write [of PublishReceivedPacket]] quiet_create
  by (auto simp: handle_publish_qos_2_def Let_def split_beta split: sum.split prod.split)

lemma calm_finish_qos_2:
  assumes "finish_publish_qos_2 loads p c h br = Some s"
  shows "calm (h, br) (snd s)"
proof -
  obtain q h1 where w: "wait_for_packet c h = Some (q, h1)"
    using assms by (auto simp: finish_publish_qos_2_def split: option.splits)
  obtain x br1 where p: "publish_packet_data loads p br = (x, br1)" by fastforce
  then have "grows br br1" "quiet h h1" using grows_publish_data [of br loads p] quiet_wait [OF w] by simp_all
  then show ?thesis
    using assms quiet_trans [OF _ quiet_write [of PublishCompletePacket], of h h1]
    by (auto simp: finish_publish_qos_2_def w p Let_def split_beta split: sum.splits)
qed

lemma calm_handle_publish: "calm (h, br) (snd (handle_publish loads p h br))"
  using calm_qos_1 [of h br loads p] quiet_qos_2 [of h p]
  by (simp add: handle_publish_eq Let_def split_beta split: sum.split)

lemma calm_start_thread: "calm (h, br) (snd (start_thread loads tq r p h br))"
  by (simp add: start_thread_def Let_def split_beta handle_ping_request_def quiet_write calm_handle_subscribe
      calm_handle_unsubscribe calm_handle_publish)

lemma calm_run_thread:
  assumes "run_thread loads tq r t h br = Some s"
  shows "calm (h, br) s"
proof (cases t)
  case (Start p)
  obtain x h1 br1 where st: "start_thread loads tq r p h br = (x, h1, br1)" by (metis prod_cases3)
  then have "quiet h h1" "grows br br1" using calm_start_thread [of h br loads tq r p] by simp_all
  then show ?thesis using assms by (auto simp: Start st split: sum.splits option.splits)
next
  case (AwaitRelease p c)
  then obtain y where "finish_publish_qos_2 loads p c h br = Some y" "s = snd y" using assms by auto
  then show ?thesis using calm_finish_qos_2 by blast
qed

lemma quiet_handle_packet: "quiet h (snd (handle_packet p h))"
  using quiet_notify [of h p] by (auto simp: handle_packet_def split: prod.split sum.split bool.split)

lemma calm_read_loop:
  assumes "read_loop_round loads h br = Some s"
  shows "calm (h, br) s"
proof -
  have "quiet h h1" if "handle_packet p (h\<lparr>hd_in := rest\<rparr>) = (x, h1)" for p rest x h1
    using quiet_handle_packet [of "h\<lparr>hd_in := rest\<rparr>" p] that by simp
  moreover have "calm (h, br) (end_reader loads h1 br)" if "quiet h h1" for h1
    using calm_trans [of "(h, br)" "(h1, br)", OF _ calm_end_reader] that by simp
  ultimately show ?thesis
    using assms calm_end_reader [of h br loads]
    by (auto simp: read_loop_round_def split: if_splits sum.splits prod.splits)
qed

section \<open>What the writer does\<close>

text \<open>Either the queue only grows, and other packets are sent, or its first message is taken and sent.\<close>

definition drifts :: "ref \<Rightarrow> handler \<times> broker \<Rightarrow> handler \<times> broker \<Rightarrow> bool" where
  "drifts r s s' \<longleftrightarrow> (\<exists>new. br_queues (snd s') r = br_queues (snd s) r @ new)
     \<and> (\<exists>os. hd_sent (fst s') = hd_sent (fst s) @ os \<and> list_all (\<lambda>b. \<not> is_publish b) os)
     \<and> (hd_writer (fst s) = WriterDone \<longrightarrow> hd_writer (fst s') = WriterDone)"

definition takes :: "ref \<Rightarrow> handler \<times> broker \<Rightarrow> handler \<times> broker \<Rightarrow> bool" where
  "takes r s s' \<longleftrightarrow> hd_writer (fst s) \<noteq> WriterDone \<and> (\<exists>m. br_queues (snd s) r = m # br_queues (snd s') r
     \<and> (case publish_bytes m of
          Inl e \<Rightarrow> hd_sent (fst s') = hd_sent (fst s) \<and> hd_writer (fst s') = WriterDone
        | Inr b \<Rightarrow> hd_sent (fst s') = hd_sent (fst s) @ [b]
            \<or> hd_sent (fst s') = hd_sent (fst s) \<and> hd_writer (fst s') = WriterDone))"

lemma calm_drifts: "calm s s' \<Longrightarrow> drifts r s s'"
  by (auto simp: calm_def quiet_def grows_def drifts_def)

lemma after_send_simps:
  "hd_sent (fst (after_send loads res br)) = hd_sent (snd res)"
  "br_queues (snd (after_send loads res br)) = br_queues br"
  "fst res = Inl e \<Longrightarrow> hd_writer (fst (after_send loads res br)) = WriterDone"
  by (cases "fst res"; cases res;
      simp add: after_send_def end_writer_def leave_loop_def close_handler_eq Let_def split_beta)+

lemma create_sent [simp]: "hd_sent (snd (create_packet_condition cls pid h)) = hd_sent h"
  by (simp add: create_packet_condition_def Let_def)

lemma write_packet_sent:
  "case fst (write_packet cls flags kws h) of
     Inl e \<Rightarrow> hd_sent (snd (write_packet cls flags kws h)) = hd_sent h
   | Inr u \<Rightarrow> \<exists>b. packet_to_bytes cls flags kws = Inr b \<and> hd_sent (snd (write_packet cls flags kws h)) = hd_sent h @ [b]"
  by (auto simp: write_packet_def split: sum.split)

lemma send_message_sent:
  assumes "handler_ok h" and "hd_writer h = Ready"
  shows "case fst (send_message m h) of
      Inl e \<Rightarrow> hd_sent (snd (send_message m h)) = hd_sent h
    | Inr w \<Rightarrow> \<exists>b. publish_bytes m = Inr b \<and> hd_sent (snd (send_message m h)) = hd_sent h @ [b]"
proof -
  have c: "conditions_ok h" and u: "hd_used_ids h = []" using assms by (simp_all add: handler_ok_def)
  let ?h1 = "h\<lparr>hd_used_ids := [0]\<rparr>"
  have cr: "fst (create_packet_condition cls 0 ?h1) = Inr (hd_next_ref h)" for cls
    using create_condition_ok(1) [of ?h1 cls 0] c by simp
  let ?cls = "if om_qos m = 1 then PublishAcknowledgePacket else PublishReceivedPacket"
  let ?h2 = "snd (create_packet_condition ?cls 0 ?h1)"
  note w0 = write_packet_sent [of PublishPacket "FlagGroup (publish_flags_from_kwargs (om_qos m) False)"
      "[(''topic'', Value (VStr (om_topic m))), (''data'', Value (data_value (om_data m)))] @ []" h]
  note w1 = write_packet_sent [of PublishPacket "FlagGroup (publish_flags_from_kwargs (om_qos m) False)"
      "[(''topic'', Value (VStr (om_topic m))), (''data'', Value (data_value (om_data m)))] @ id_kwarg 0" ?h2]
  show ?thesis
  proof (cases "om_qos m = 0")
    case True
    then show ?thesis using w0
      by (auto simp: send_message_def write_publish_def publish_bytes_def Let_def split_beta split: sum.splits)
  next
    case False
    then have "send_message m h = or_release 0 (bindR (fst (write_publish m (id_kwarg 0) ?h2))
        (\<lambda>_. Inr (AwaitAck m 0 (hd_next_ref h))), snd (write_publish m (id_kwarg 0) ?h2))"
      using cr [of ?cls] u by (simp add: send_message_def Let_def split_beta)
    then show ?thesis using w1 False
      by (cases "fst (write_publish m (id_kwarg 0) ?h2)")
        (auto simp: or_release_def release_id_def write_publish_def publish_bytes_def)
  qed
qed

lemma others_append: "hd_sent h' = hd_sent h @ os \<Longrightarrow> list_all (\<lambda>b. \<not> is_publish b) os \<Longrightarrow>
    \<exists>os. hd_sent h' = hd_sent h @ os \<and> list_all (\<lambda>b. \<not> is_publish b) os"
  by blast

lemma send_acknowledged_sent:
  assumes "send_acknowledged m pid c h = Some res"
  shows "\<exists>os. hd_sent (snd res) = hd_sent h @ os \<and> list_all (\<lambda>b. \<not> is_publish b) os"
proof -
  obtain q h1 where w: "wait_for_packet c h = Some (q, h1)" and r: "res = (if om_qos m = 2 then
      or_release pid (case create_packet_condition PublishCompletePacket (int pid) h1 of
        (Inl e, h2) \<Rightarrow> (Inl e, h2)
      | (Inr c', h2) \<Rightarrow> (let (r, h3) = write_packet PublishReleasedPacket (FlagInt 0) (id_kwarg (int pid)) h2
          in (bindR r (\<lambda>_. Inr (AwaitComplete pid c')), h3)))
      else (Inr Ready, release_id pid h1))"
    using assms by (auto simp: send_acknowledged_def split: option.splits)
  have q: "quiet h h1" by (rule quiet_wait [OF w])
  have rel: "hd_sent (snd (or_release pid x)) = hd_sent (snd x)" for x
    by (cases x) (simp add: or_release_def release_id_def split: sum.split)
  have "quiet h (snd (create_packet_condition PublishCompletePacket (int pid) h1))"
    by (rule quiet_trans [OF q quiet_create])
  then have "quiet h (snd (write_packet PublishReleasedPacket (FlagInt 0) (id_kwarg (int pid))
      (snd (create_packet_condition PublishCompletePacket (int pid) h1))))"
    by (rule quiet_trans [OF _ quiet_write]) simp
  then show ?thesis using q
    by (cases "fst (create_packet_condition PublishCompletePacket (int pid) h1)")
      (auto simp: r rel quiet_def release_id_def split_beta Let_def)
qed

lemma send_completed_sent: "send_completed pid c h = Some res \<Longrightarrow> hd_sent (snd res) = hd_sent h"
  by (auto simp: send_completed_def release_id_def dest!: wait_for_packet_Some split: option.splits)

lemma writer_moves:
  assumes "handler_ok h" and "write_loop_round loads r h br = Some s"
  shows "drifts r (h, br) s \<or> takes r (h, br) s"
    and "r' \<noteq> r \<Longrightarrow> br_queues (snd s) r' = br_queues br r'"
proof -
  have "(drifts r (h, br) s \<or> takes r (h, br) s) \<and> (r' \<noteq> r \<longrightarrow> br_queues (snd s) r' = br_queues br r')" for r'
  proof (cases "hd_writer h")
    case Ready
    then obtain m ms where q: "br_queues br r = m # ms" and s: "s = after_send loads (send_message m h)
        (br\<lparr>br_queues := (br_queues br)(r := ms)\<rparr>)"
      using assms(2) by (auto simp: write_loop_round_def split: list.splits)
    have "takes r (h, br) s"
      using send_message_sent [OF assms(1) Ready, of m] q Ready
      by (auto simp: takes_def s after_send_simps split: sum.splits)
    then show ?thesis by (simp add: s after_send_simps)
  next
    case (AwaitAck m pid c)
    then obtain res where "send_acknowledged m pid c h = Some res" "s = after_send loads res br"
      using assms(2) by (auto simp: write_loop_round_def)
    then show ?thesis
      using send_acknowledged_sent AwaitAck by (simp add: drifts_def after_send_simps)
  next
    case (AwaitComplete pid c)
    then obtain res where "send_completed pid c h = Some res" "s = after_send loads res br"
      using assms(2) by (auto simp: write_loop_round_def)
    then show ?thesis
      using send_completed_sent AwaitComplete by (auto simp: drifts_def after_send_simps)
  qed (use assms(2) in \<open>simp add: write_loop_round_def\<close>)
  then show "drifts r (h, br) s \<or> takes r (h, br) s" "r' \<noteq> r \<Longrightarrow> br_queues (snd s) r' = br_queues br r'" by blast+
qed

section \<open>Steps of the world\<close>

definition moves :: "ref \<Rightarrow> world \<Rightarrow> handler \<Rightarrow> world \<Rightarrow> bool" where
  "moves r w h w' \<longleftrightarrow> (\<exists>h'. w_handlers w' r = Some h'
     \<and> (drifts r (h, w_broker w) (h', w_broker w') \<or> takes r (h, w_broker w) (h', w_broker w')))"

lemma moves_put:
  assumes "w_handlers w r = Some h" and "w_handlers w r' = Some h'" and "calm (h', w_broker w) s"
  shows "moves r w h (put r' s w)"
proof -
  have "calm (h, w_broker w) (if r = r' then fst s else h, snd s)" using assms by (cases s) auto
  from calm_drifts [OF this, of r] show ?thesis using assms(1) by (auto simp: moves_def)
qed

lemma grows_add_session: "grows (w_broker w) (w_broker (add_session loads cid r h w))"
  by (rule growsI) (simp add: add_session_def add_client_def Let_def override_connection_def disconnect_def
      split: option.split)

lemma moves_add_session:
  assumes "w_handlers w r = Some h" and "w_handlers w r' = Some h'" and "quiet h' h1"
  shows "moves r w h (add_session loads cid r' h1 w)"
proof -
  have o: "quiet x (fst (override_connection loads x br))" for x br
    using calm_disconnect(2) [of x br loads] by (simp add: calm_def)
  have "\<exists>h2. w_handlers (add_session loads cid r' h1 w) r = Some h2 \<and> quiet h h2"
    using assms o by (auto simp: add_session_def Let_def split: option.split)
  then show ?thesis using calm_drifts [of "(h, w_broker w)"] grows_add_session [of w loads cid r' h1]
    by (auto simp: moves_def)
qed

lemma connect_client_cases:
  assumes "connect_client loads r h w = Some w'"
  shows "\<exists>h1. quiet h h1 \<and> (w' = put r (end_reader loads h1 (w_broker w)) w \<or> (\<exists>cid. w' = add_session loads cid r h1 w))"
proof -
  have q: "quiet h h2" if "write_packet ConnectAcknowledgePacket (FlagInt 0) kws (h\<lparr>hd_in := rest, hd_id := i, hd_last_will := m\<rparr>) = (y, h2)"
    for kws rest i m y h2
    using quiet_write [of ConnectAcknowledgePacket "h\<lparr>hd_in := rest, hd_id := i, hd_last_will := m\<rparr>" kws] that by simp
  have r: "\<exists>h1. quiet h h1 \<and> (put r (end_reader loads h2 (w_broker w)) w = put r (end_reader loads h1 (w_broker w)) w
      \<or> (\<exists>cid. put r (end_reader loads h2 (w_broker w)) w = add_session loads cid r h1 w))" if "quiet h h2" for h2
    using that by blast
  have a: "\<exists>h1. quiet h h1 \<and> (add_session loads cid r h2 w = put r (end_reader loads h1 (w_broker w)) w
      \<or> (\<exists>cid'. add_session loads cid r h2 w = add_session loads cid' r h1 w))" if "quiet h h2" for h2 cid
    using that by blast
  show ?thesis
    using assms q
    by (auto simp: connect_client_def Let_def intro!: r a split: sum.splits prod.splits if_splits)
qed

lemma step_moves:
  assumes "step loads tq w w'" and "world_ok w" and "w_handlers w r = Some h"
  shows "moves r w h w'"
  using assms
proof (induction rule: step.induct)
  case (accept w r')
  then have "r' \<noteq> r" by auto
  with accept show ?case using calm_drifts [of "(h, w_broker w)" "(h, w_broker w)" r] by (auto simp: moves_def)
next
  case (connect w r' h' w')
  from connect_client_cases [OF connect(3)] obtain h1 where h1: "quiet h' h1"
    "w' = put r' (end_reader loads h1 (w_broker w)) w \<or> (\<exists>cid. w' = add_session loads cid r' h1 w)" by blast
  have "calm (h', w_broker w) (end_reader loads h1 (w_broker w))"
    using calm_trans [of _ "(h1, w_broker w)", OF _ calm_end_reader] h1(1) by simp
  then show ?case
    using h1 moves_put [OF connect(5,1)] moves_add_session [OF connect(5,1) h1(1)] by blast
next
  case (run w r' h' ts t ts' s)
  have "calm (h', w_broker w) s" using calm_run_thread [OF run(3)] by (cases s) simp
  then show ?case by (rule moves_put [OF run(5,1)])
next
  case (send w r' h' s)
  note m = writer_moves [OF world_ok_handler [OF send(3,1)] send(2)]
  show ?case
  proof (cases "r = r'")
    case True
    with m(1) send(1,4) show ?thesis by (auto simp: moves_def)
  next
    case False
    with m(2) [OF False] send(4) show ?thesis
      by (auto simp: moves_def drifts_def intro!: exI [of _ h])
  qed
next
  case (deliver w br)
  then show ?case using calm_drifts [of "(h, w_broker w)" "(h, br)" r] grows_main_loop by (auto simp: moves_def)
next
  case (read w r' h' s)
  then show ?case using moves_put [OF read(4,1) calm_read_loop [OF read(2)]] by blast
next
  case (lost w r' h')
  then show ?case using moves_put [OF lost(4,1) calm_end_reader] by blast
next
  case (stop w r' h')
  then show ?case using moves_put [OF stop(3,1) calm_disconnect(1)] by blast
next
  case (receive w r' h' bs)
  then show ?case using moves_put [OF receive(3,1)] by simp
next
  case (break w r' h')
  then show ?case using moves_put [OF break(3,1)] by simp
next
  case (shuffle w r' h' ts cs)
  then show ?case using moves_put [OF shuffle(5,1)] by simp
qed

section \<open>In order\<close>

lemma shuffles_append:
  "zs \<in> shuffles xs ys \<Longrightarrow> zs @ as \<in> shuffles (xs @ as) ys \<and> zs @ as \<in> shuffles xs (ys @ as)"
proof (induction xs ys arbitrary: zs rule: shuffles.induct)
  case (1 ys)
  have "ys @ as \<in> shuffles as ys" for ys :: "'a list" by (induction ys) (auto intro: Cons_in_shuffles_rightI)
  with 1 show ?case by simp
next
  case (2 xs)
  have "xs @ as \<in> shuffles xs as" for xs :: "'a list" by (induction xs) (auto intro: Cons_in_shuffles_leftI)
  with 2 show ?case by simp
next
  case (3 x xs y ys)
  then show ?case by auto
qed

text \<open>
  From \<open>(h, br)\<close> to \<open>(h', br')\<close>, the messages \<open>taken\<close> of the queue of \<open>r\<close> were sent in this order,
  among other packets; the last one may be missing, and then the writer has ended.
\<close>

definition sent_in_order :: "handler \<Rightarrow> outgoing_message list \<Rightarrow> handler \<Rightarrow> bool" where
  "sent_in_order h taken h' \<longleftrightarrow> (\<exists>sent bs os. hd_sent h' = hd_sent h @ sent \<and> sent \<in> shuffles bs os
     \<and> list_all (\<lambda>b. \<not> is_publish b) os
     \<and> (mapR publish_bytes taken = Inr bs
        \<or> hd_writer h' = WriterDone \<and> taken \<noteq> [] \<and> mapR publish_bytes (butlast taken) = Inr bs))"

lemma in_order_drifts:
  assumes "sent_in_order h taken h1" and "drifts r (h1, br1) (h2, br2)"
  shows "sent_in_order h taken h2"
proof -
  obtain sent bs os where 1: "hd_sent h1 = hd_sent h @ sent" "sent \<in> shuffles bs os"
    "list_all (\<lambda>b. \<not> is_publish b) os" "mapR publish_bytes taken = Inr bs
        \<or> hd_writer h1 = WriterDone \<and> taken \<noteq> [] \<and> mapR publish_bytes (butlast taken) = Inr bs"
    using assms(1) unfolding sent_in_order_def by blast
  obtain os' where 2: "hd_sent h2 = hd_sent h1 @ os'" "list_all (\<lambda>b. \<not> is_publish b) os'"
    "hd_writer h1 = WriterDone \<longrightarrow> hd_writer h2 = WriterDone"
    using assms(2) by (auto simp: drifts_def)
  show ?thesis
    unfolding sent_in_order_def
    using 1 2 shuffles_append [OF 1(2), of os']
    by (intro exI [of _ "sent @ os'"] exI [of _ bs] exI [of _ "os @ os'"]) auto
qed

lemma in_order_takes:
  assumes "sent_in_order h taken h1" and "takes r (h1, br1) (h2, br2)" and "br_queues br1 r = m # br_queues br2 r"
  shows "sent_in_order h (taken @ [m]) h2"
proof -
  have "hd_writer h1 \<noteq> WriterDone" using assms(2) by (simp add: takes_def)
  then obtain sent bs os where 1: "hd_sent h1 = hd_sent h @ sent" "sent \<in> shuffles bs os"
    "list_all (\<lambda>b. \<not> is_publish b) os" "mapR publish_bytes taken = Inr bs"
    using assms(1) unfolding sent_in_order_def by blast
  have "hd_sent h2 = hd_sent h1 \<and> hd_writer h2 = WriterDone
      \<or> (\<exists>b. publish_bytes m = Inr b \<and> hd_sent h2 = hd_sent h1 @ [b])"
    using assms(2,3) by (auto simp: takes_def split: sum.splits)
  then show ?thesis
  proof
    assume "hd_sent h2 = hd_sent h1 \<and> hd_writer h2 = WriterDone"
    with 1 show ?thesis unfolding sent_in_order_def
      by (intro exI [of _ sent] exI [of _ bs] exI [of _ os]) simp
  next
    assume "\<exists>b. publish_bytes m = Inr b \<and> hd_sent h2 = hd_sent h1 @ [b]"
    then obtain b where b: "publish_bytes m = Inr b" "hd_sent h2 = hd_sent h1 @ [b]" by blast
    with 1 shuffles_append [OF 1(2), of "[b]"] show ?thesis unfolding sent_in_order_def
      by (intro exI [of _ "sent @ [b]"] exI [of _ "bs @ [b]"] exI [of _ os]) (auto simp: mapR_append)
  qed
qed

text \<open>
  C4: Deliveries keep their order. However the threads of all connections, the main loop and
  the network interleave, what is added to the queue of a connection leaves it at the other
  end, and what has left it was sent in that order, each message once, as one PUBLISH packet,
  among packets of other types; only the last one may not have been sent, when writing failed,
  and then the writer has ended and takes no more.
\<close>

theorem messages_in_order:
  assumes "reachable loads tq w" and "(step loads tq)\<^sup>*\<^sup>* w w'" and "w_handlers w r = Some h"
  shows "\<exists>h' added taken. w_handlers w' r = Some h'
    \<and> br_queues (w_broker w) r @ added = taken @ br_queues (w_broker w') r \<and> sent_in_order h taken h'"
  using assms(2)
proof (induction rule: rtranclp_induct)
  case base
  have "sent_in_order h [] h" unfolding sent_in_order_def
    by (intro exI [of _ "[]"]) simp
  then show ?case using assms(3) by (intro exI [of _ h] exI [of _ "[]"]) simp
next
  case (step w1 w2)
  then obtain h1 added taken where 1: "w_handlers w1 r = Some h1"
    "br_queues (w_broker w) r @ added = taken @ br_queues (w_broker w1) r" "sent_in_order h taken h1" by blast
  have "world_ok w1" by (rule steps_ok [OF step(1) reachable_ok [OF assms(1)]])
  from step_moves [OF step(2) this 1(1)] obtain h2 where h2: "w_handlers w2 r = Some h2"
    "drifts r (h1, w_broker w1) (h2, w_broker w2) \<or> takes r (h1, w_broker w1) (h2, w_broker w2)"
    unfolding moves_def by blast
  from h2(2) show ?case
  proof
    assume d: "drifts r (h1, w_broker w1) (h2, w_broker w2)"
    then obtain new where "br_queues (w_broker w2) r = br_queues (w_broker w1) r @ new" by (auto simp: drifts_def)
    with 1(2) h2(1) in_order_drifts [OF 1(3) d] show ?thesis
      by (intro exI [of _ h2] exI [of _ "added @ new"] exI [of _ taken]) simp
  next
    assume t: "takes r (h1, w_broker w1) (h2, w_broker w2)"
    then obtain m where m: "br_queues (w_broker w1) r = m # br_queues (w_broker w2) r" by (auto simp: takes_def)
    with 1(2) h2(1) in_order_takes [OF 1(3) t m] show ?thesis
      by (intro exI [of _ h2] exI [of _ added] exI [of _ "taken @ [m]"]) simp
  qed
qed

lemma messages_in_order_witness:
  "\<exists>w' h' taken. (step no_json no_tables)\<^sup>*\<^sup>* demo_subscribed w' \<and> w_handlers w' 0 = Some h'
    \<and> hd_sent h' = [[0x20, 2, 0, 0], [0x90, 3, 0, 1, 1], [0x40, 2, 0, 7], [0x32, 6, 0, 1, 97, 0, 0, 120]]
    \<and> sent_in_order demo_subscriber taken h'"
proof -
  from delivery_run [where rs = "[0]" and hs = "\<lambda>_. demo_subscriber" and loads = no_json and tq = no_tables,
      OF demo_subscribed_reachable demo_delivery(1-15)] obtain w' h'
    where w': "(step no_json no_tables)\<^sup>*\<^sup>*
      (put 0 (demo_subscriber\<lparr>hd_in := demo_request\<rparr>, w_broker demo_subscribed) demo_subscribed) w'"
      "idle 0 w' h' []" "hd_sent h' = hd_sent demo_subscriber @ [[0x40, 2, 0, 7]] @
        written (messages_for [(topic_nodes ''a'', Some [120], 1)] (w_broker demo_subscribed) 0)"
    by auto
  have "step no_json no_tables demo_subscribed
      (put 0 (demo_subscriber\<lparr>hd_in := hd_in demo_subscriber @ demo_request\<rparr>, w_broker demo_subscribed) demo_subscribed)"
    by (rule step.receive [OF demo_delivery(2)])
  then have run: "(step no_json no_tables)\<^sup>*\<^sup>* demo_subscribed w'"
    using w'(1) by (simp add: demo_delivery(6) converse_rtranclp_into_rtranclp)
  have h': "w_handlers w' 0 = Some h'" using w'(2) by (simp add: idle_def)
  from messages_in_order [OF demo_subscribed_reachable run demo_delivery(2)] h' obtain taken
    where "sent_in_order demo_subscriber taken h'" by auto
  with run h' w'(3) show ?thesis
    by (intro exI [of _ w'] exI [of _ h'] exI [of _ taken]) (simp add: demo_delivery(16) demo_subscriber_def)
qed

section \<open>A message that can not be written\<close>

lemma item_error: "item_to_bytes t v \<noteq> Inl ConnectionError"
  by (cases t; cases v) (auto simp: pack_int_def py_encode_def res_simps)

lemma mapR_error: "(\<And>x. f x \<noteq> Inl e) \<Longrightarrow> mapR f xs \<noteq> Inl e"
  by (induction xs) (auto simp: res_simps)

lemma field_error: "field_to_bytes t v \<noteq> Inl ConnectionError"
  using item_error mapR_error [of "item_to_bytes x" ConnectionError for x]
  by (cases t; cases v) (auto simp: list_to_bytes_def res_simps)

lemma write_fields_error: "write_fields fs flags kws \<noteq> Inl ConnectionError"
  by (induction fs flags kws rule: write_fields.induct) (auto simp: field_error Let_def res_simps)

lemma to_bytes_error: "packet_to_bytes cls flags kws \<noteq> Inl ConnectionError"
  using write_fields_error by (auto simp: packet_to_bytes_def get_header_bytes_def res_simps Let_def)

lemma quality_128: "128 \<le> om_qos m \<Longrightarrow> \<exists>e. publish_bytes m = Inl e"
proof -
  assume q: "128 \<le> om_qos m"
  let ?f = "publish_flags_from_kwargs (om_qos m) False"
  have d: "pf_data ?f = 2 * om_qos m"
    by (simp add: publish_flags_from_kwargs_def set_flag_def qos_flag_write_def push_bit_eq_mult Let_def)
  have "2 * om_qos m \<le> 2 * om_qos m OR push_bit 4 3" by (rule or_greater_eq) simp
  then have "\<not> push_bit 4 3 OR 2 * om_qos m < 256" using q by (simp add: or.commute [of "2 * om_qos m"])
  then have "get_header_bytes PublishPacket (FlagGroup ?f) n = Inl ValueError" for n
    by (simp add: get_header_bytes_def d)
  then show ?thesis
    by (cases "write_fields (packet_fields PublishPacket) (FlagGroup ?f)
        ([(''topic'', Value (VStr (om_topic m))), (''data'', Value (data_value (om_data m)))]
        @ (if om_qos m = 0 then [] else id_kwarg 0))") (simp_all add: publish_bytes_def packet_to_bytes_def)
qed

lemma send_message_fails:
  assumes "handler_ok h" and "hd_writer h = Ready" and "publish_bytes m = Inl e"
  shows "\<exists>h'. send_message m h = (Inl e, h') \<and> hd_sent h' = hd_sent h \<and> hd_alive h' = hd_alive h
    \<and> hd_open h' = hd_open h \<and> hd_reader h' = hd_reader h"
proof -
  have c: "conditions_ok h" and u: "hd_used_ids h = []" using assms by (simp_all add: handler_ok_def)
  let ?h1 = "h\<lparr>hd_used_ids := [0]\<rparr>"
  let ?cls = "if om_qos m = 1 then PublishAcknowledgePacket else PublishReceivedPacket"
  obtain n h2 where cr: "create_packet_condition ?cls 0 ?h1 = (Inr n, h2)"
    using create_condition_ok(1) [of ?h1 ?cls 0] c by (metis conditions_ok_threads(2) prod.collapse)
  have h2: "hd_sent h2 = hd_sent h" "hd_alive h2 = hd_alive h" "hd_open h2 = hd_open h" "hd_reader h2 = hd_reader h"
    using cr by (auto simp: create_packet_condition_def Let_def split: if_splits)
  show ?thesis
  proof (cases "om_qos m = 0")
    case True
    then show ?thesis using assms(3)
      by (simp add: send_message_def write_publish_def write_packet_def publish_bytes_def)
  next
    case False
    then have "write_publish m (id_kwarg 0) h2 = (Inl e, h2)"
      using assms(3) by (simp add: write_publish_def write_packet_def publish_bytes_def)
    with False have "send_message m h = (Inl e, release_id 0 h2)"
      using cr u by (simp add: send_message_def Let_def or_release_def)
    with h2 show ?thesis by (simp add: release_id_def)
  qed
qed

lemma done_stays:
  assumes "(step loads tq)\<^sup>*\<^sup>* w w'" and "world_ok w" and "w_handlers w r = Some h" and "hd_writer h = WriterDone"
  shows "\<exists>h'. w_handlers w' r = Some h' \<and> hd_writer h' = WriterDone
    \<and> (\<exists>new. br_queues (w_broker w') r = br_queues (w_broker w) r @ new)
    \<and> (\<exists>os. hd_sent h' = hd_sent h @ os \<and> list_all (\<lambda>b. \<not> is_publish b) os)"
  using assms(1)
proof (induction rule: rtranclp_induct)
  case (step w1 w2)
  then obtain h1 new os where 1: "w_handlers w1 r = Some h1" "hd_writer h1 = WriterDone"
    "br_queues (w_broker w1) r = br_queues (w_broker w) r @ new" "hd_sent h1 = hd_sent h @ os"
    "list_all (\<lambda>b. \<not> is_publish b) os" by blast
  from step_moves [OF step(2) steps_ok [OF step(1) assms(2)] 1(1)] obtain h2 where "w_handlers w2 r = Some h2"
    "drifts r (h1, w_broker w1) (h2, w_broker w2) \<or> takes r (h1, w_broker w1) (h2, w_broker w2)"
    unfolding moves_def by blast
  with 1 show ?case by (auto simp: drifts_def takes_def)
qed (use assms in auto)

text \<open>
  C28: A message that can not be written silences its client. When the bytes of the next message
  can not be made (its quality is 128 or more, its topic is longer than two bytes can say), the
  thread that sends messages ends with that exception, which is none it handles: the connection
  stays as it is, open and read from, the queue goes on growing, and no message is ever sent on
  it again.
\<close>

theorem unsendable_silences:
  assumes "world_ok w" and "w_handlers w r = Some h" and "hd_writer h = Ready"
    and "br_queues (w_broker w) r = m # ms" and "128 \<le> om_qos m \<or> (\<exists>e. publish_bytes m = Inl e)"
  shows "\<exists>w1 h1. step loads tq w w1 \<and> w_handlers w1 r = Some h1 \<and> hd_sent h1 = hd_sent h
    \<and> hd_alive h1 = hd_alive h \<and> hd_open h1 = hd_open h \<and> hd_reader h1 = hd_reader h
    \<and> (\<forall>w2. (step loads tq)\<^sup>*\<^sup>* w1 w2 \<longrightarrow> (\<exists>h2 new os. w_handlers w2 r = Some h2
         \<and> br_queues (w_broker w2) r = ms @ new \<and> hd_sent h2 = hd_sent h @ os \<and> list_all (\<lambda>b. \<not> is_publish b) os))"
proof -
  have ok: "handler_ok h" by (rule world_ok_handler [OF assms(1,2)])
  obtain e where e: "publish_bytes m = Inl e" using assms(5) quality_128 by blast
  have ne: "e \<noteq> ConnectionError" using e to_bytes_error by (auto simp: publish_bytes_def)
  let ?br = "(w_broker w)\<lparr>br_queues := (br_queues (w_broker w))(r := ms)\<rparr>"
  obtain h0 where h0: "send_message m h = (Inl e, h0)" "hd_sent h0 = hd_sent h" "hd_alive h0 = hd_alive h"
    "hd_open h0 = hd_open h" "hd_reader h0 = hd_reader h"
    using send_message_fails [OF ok assms(3) e] by blast
  let ?h1 = "h0\<lparr>hd_writer := WriterDone\<rparr>" and ?w1 = "put r (h0\<lparr>hd_writer := WriterDone\<rparr>, ?br) w"
  have "write_loop_round loads r h (w_broker w) = Some (?h1, ?br)"
    using assms(3,4) h0(1) ne by (simp add: write_loop_round_def after_send_def end_writer_def)
  then have s: "step loads tq w ?w1" by (rule step.send [OF assms(2)])
  note d = done_stays [OF _ step_ok [OF s assms(1)], of _ _ _ r ?h1]
  have "\<exists>h2 new os. w_handlers w2 r = Some h2 \<and> br_queues (w_broker w2) r = ms @ new
      \<and> hd_sent h2 = hd_sent h @ os \<and> list_all (\<lambda>b. \<not> is_publish b) os" if "(step loads tq)\<^sup>*\<^sup>* ?w1 w2" for w2
    using d [OF that] h0(2) by auto
  with s h0 show ?thesis by (intro exI [of _ ?w1] exI [of _ ?h1]) simp
qed

lemma unsendable_silences_witness:
  "\<exists>w1 h1. w_handlers w1 0 = Some h1 \<and> hd_alive h1 \<and> hd_open h1
    \<and> (\<forall>w2. (step no_tables no_tables)\<^sup>*\<^sup>* w1 w2 \<longrightarrow> (\<exists>h2 new os. w_handlers w2 0 = Some h2
         \<and> br_queues (w_broker w2) 0 = new \<and> hd_sent h2 = [0x20, 2, 0, 0] # os \<and> list_all (\<lambda>b. \<not> is_publish b) os))"
proof -
  let ?m = "\<lparr>om_topic = ''a'', om_qos = 200, om_data = PyBytes [120]\<rparr>"
  let ?w = "demo_connected\<lparr>w_broker := queue_message 0 ?m (w_broker demo_connected)\<rparr>"
  have "world_ok ?w"
    using demo_connected_ok by (simp add: world_ok_def) (simp add: queue_message_def)
  moreover have "w_handlers ?w 0 = Some demo_client" "hd_writer demo_client = Ready"
    "br_queues (w_broker ?w) 0 = [?m]"
    by (simp_all add: demo_connected_def demo_client_def new_connection_def queue_message_def new_broker_def)
  moreover have "hd_sent demo_client = [[0x20, 2, 0, 0]]" "hd_alive demo_client" "hd_open demo_client"
    by (simp_all add: demo_client_def new_connection_def)
  ultimately show ?thesis
    using unsendable_silences [of ?w 0 demo_client ?m "[]" no_tables no_tables] by fastforce
qed

section \<open>Requests of one connection\<close>

text \<open>What has arrived are exactly these packets.\<close>

fun requests :: "packet list \<Rightarrow> bytes \<Rightarrow> bool" where
  "requests [] bs \<longleftrightarrow> bs = []"
| "requests (p # ps) bs \<longleftrightarrow> (case read_next_packet bs of Inl e \<Rightarrow> False | Inr (p', rest) \<Rightarrow> p' = p \<and> requests ps rest)"

definition publish_0 :: "packet \<Rightarrow> bool" where
  "publish_0 p \<longleftrightarrow> pk_class p = PublishPacket
     \<and> (case get_publish_flags (pk_flags p) of Inl e \<Rightarrow> False | Inr f \<Rightarrow> pf_qos f = 0)"

lemma put_self: "w_handlers w r = Some h \<Longrightarrow> put r (h, w_broker w) w = w"
  by (cases w) (simp add: put_def fun_upd_idem)

lemma read_requests:
  "w_handlers w r = Some h \<Longrightarrow> hd_reader h = Reading \<Longrightarrow> hd_alive h \<Longrightarrow> requests ps (hd_in h) \<Longrightarrow>
   list_all publish_0 ps \<Longrightarrow> (step loads tq)\<^sup>*\<^sup>* w
     (put r (h\<lparr>hd_in := [], hd_threads := hd_threads h @ map Start ps\<rparr>, w_broker w) w)"
proof (induction ps arbitrary: w h)
  case Nil
  then show ?case by (cases h) (simp add: put_self)
next
  case (Cons p ps)
  then obtain rest where r: "read_next_packet (hd_in h) = Inr (p, rest)" "requests ps rest"
    by (auto split: sum.splits)
  let ?h = "h\<lparr>hd_in := rest, hd_threads := hd_threads h @ [Start p]\<rparr>"
  have "read_loop_round loads h (w_broker w) = Some (?h, w_broker w)"
    using Cons.prems r(1) by (simp add: read_loop_round_def handle_packet_def packet_map_def publish_0_def)
  then have s: "step loads tq w (put r (?h, w_broker w) w)" by (rule step.read [OF Cons.prems(1)])
  have "(step loads tq)\<^sup>*\<^sup>* (put r (?h, w_broker w) w) (put r (?h\<lparr>hd_in := [],
      hd_threads := hd_threads ?h @ map Start ps\<rparr>, w_broker w) (put r (?h, w_broker w) w))"
    using Cons.IH [of "put r (?h, w_broker w) w" ?h] Cons.prems r(2) by simp
  with s show ?case by (simp add: converse_rtranclp_into_rtranclp)
qed

lemma run_requests:
  "w_handlers w r = Some h \<Longrightarrow> mset (hd_threads h) = mset (map Start ps) \<Longrightarrow> list_all publish_0 ps \<Longrightarrow>
   (step loads tq)\<^sup>*\<^sup>* w (put r (h\<lparr>hd_threads := []\<rparr>,
     foldl (\<lambda>br p. snd (publish_packet_data loads p br)) (w_broker w) ps) w)"
proof (induction ps arbitrary: w h)
  case Nil
  then show ?case by (cases h) (simp add: put_self)
next
  case (Cons p ps)
  then have "Start p \<in> set (hd_threads h)" by (metis list.set_intros(1) list.simps(9) mset_eq_setD)
  then obtain us vs where t: "hd_threads h = us @ Start p # vs" by (blast dest: split_list)
  let ?h = "h\<lparr>hd_threads := us @ vs\<rparr>" and ?br = "snd (publish_packet_data loads p (w_broker w))"
  have "run_thread loads tq r (Start p) ?h (w_broker w) = Some (?h, ?br)"
    using Cons.prems(3)
    by (cases "publish_packet_data loads p (w_broker w)"; cases "fst (publish_packet_data loads p (w_broker w))")
       (auto simp: publish_0_def start_thread_def handle_publish_eq split: sum.splits)
  then have s: "step loads tq w (put r (?h, ?br) w)" by (rule step.run [OF Cons.prems(1) t])
  have "mset (hd_threads ?h) = mset (map Start ps)" using Cons.prems(2) by (simp add: t)
  then have "(step loads tq)\<^sup>*\<^sup>* (put r (?h, ?br) w) (put r (?h\<lparr>hd_threads := []\<rparr>,
      foldl (\<lambda>br p. snd (publish_packet_data loads p br)) ?br ps) (put r (?h, ?br) w))"
    using Cons.IH [of "put r (?h, ?br) w" ?h] Cons.prems(3) by simp
  with s show ?case by (simp add: converse_rtranclp_into_rtranclp)
qed

text \<open>
  C26: The publications of one client are carried out in any order. Every packet that is read is
  handled by a thread of its own, so of the PUBLISH packets that have arrived on a connection
  any permutation is a possible order in which the broker retains and broadcasts them, though
  the client sent them one after another.
\<close>

theorem requests_in_any_order:
  assumes "w_handlers w r = Some h" and "hd_reader h = Reading" and "hd_alive h" and "hd_threads h = []"
    and "requests ps (hd_in h)" and "list_all publish_0 ps" and "mset ps' = mset ps"
  shows "(step loads tq)\<^sup>*\<^sup>* w (put r (h\<lparr>hd_in := []\<rparr>,
    foldl (\<lambda>br p. snd (publish_packet_data loads p br)) (w_broker w) ps') w)"
proof -
  let ?h = "h\<lparr>hd_in := [], hd_threads := map Start ps\<rparr>"
  have 1: "(step loads tq)\<^sup>*\<^sup>* w (put r (?h, w_broker w) w)"
    using read_requests [OF assms(1-3,5,6)] assms(4) by simp
  have "list_all publish_0 ps'" using assms(6) mset_eq_setD [OF assms(7)] by (simp add: list_all_iff)
  then have 2: "(step loads tq)\<^sup>*\<^sup>* (put r (?h, w_broker w) w) (put r (?h\<lparr>hd_threads := []\<rparr>,
      foldl (\<lambda>br p. snd (publish_packet_data loads p br)) (w_broker w) ps') (put r (?h, w_broker w) w))"
    using run_requests [of "put r (?h, w_broker w) w" r ?h ps'] assms(7) by simp
  have "h\<lparr>hd_in := [], hd_threads := []\<rparr> = h\<lparr>hd_in := []\<rparr>" using assms(4) by (cases h) simp
  with rtranclp_trans [OF 1 2] show ?thesis by simp
qed

text \<open>A client publishes \<open>x\<close> and then \<open>y\<close> to the retained topic \<open>a\<close>; \<open>x\<close> is what is retained.\<close>

definition first_publish :: bytes where "first_publish = [0x31, 4, 0, 1, 97, 120]"
definition second_publish :: bytes where "second_publish = [0x31, 4, 0, 1, 97, 121]"

lemma requests_in_any_order_witness:
  "\<exists>w'. (step no_json no_tables)\<^sup>*\<^sup>*
      (put 0 (demo_subscriber\<lparr>hd_in := first_publish @ second_publish\<rparr>, w_broker demo_subscribed) demo_subscribed) w'
    \<and> leaf_at (tm_tree (br_tm (w_broker w'))) [''a''] = Some (PyBytes [120])"
proof -
  let ?w = "put 0 (demo_subscriber\<lparr>hd_in := first_publish @ second_publish\<rparr>, w_broker demo_subscribed) demo_subscribed"
  define p where "p = fst (projr (read_next_packet first_publish))"
  define q where "q = fst (projr (read_next_packet second_publish))"
  have "requests [p, q] (first_publish @ second_publish)" unfolding p_def q_def by code_simp
  moreover have "list_all publish_0 [p, q]" unfolding p_def q_def by code_simp
  moreover have "hd_threads demo_subscriber = []" by (simp add: demo_subscriber_def demo_client_def new_connection_def)
  ultimately have "(step no_json no_tables)\<^sup>*\<^sup>* ?w (put 0 (demo_subscriber\<lparr>hd_in := []\<rparr>,
      foldl (\<lambda>br p. snd (publish_packet_data no_json p br)) (w_broker ?w) [q, p]) ?w)"
    using requests_in_any_order [of ?w 0 "demo_subscriber\<lparr>hd_in := first_publish @ second_publish\<rparr>"
        "[p, q]" "[q, p]" no_json no_tables] demo_delivery(3,4) by simp
  moreover have "leaf_at (tm_tree (br_tm (foldl (\<lambda>br p. snd (publish_packet_data no_json p br))
      (w_broker demo_subscribed) [q, p]))) [''a''] = Some (PyBytes [120])"
    unfolding p_def q_def by code_simp
  ultimately show ?thesis by (intro exI conjI) (assumption | simp)+
qed

end
