(* ===== verification/Mirror.thy ===== *)
theory Mirror
  imports Broker
begin

text \<open>
  What a subscriber of one topic hears, compared with the retained payload of that topic: they
  agree when the calls of the broker run one after another, and can differ for ever when the
  threads of two requests run between each other's steps.
\<close>

section \<open>The calls of the broker, one after another\<close>




section \<open>What does not disturb a subscription\<close>

definition storable :: "row list \<Rightarrow> bool" where
  "storable rows \<longleftrightarrow> rows_ok rows \<and> row_data_ok rows"

text \<open>
  A message whose rows can be stored and decoded: its payload is text, and that of a grafted
  tree is no JSON at all or a tree as deep as the topic has wildcards.
\<close>

definition well_behaved :: "(string \<Rightarrow> py_error + pyobj) \<Rightarrow> incoming_message \<Rightarrow> bool" where
  "well_behaved loads m \<longleftrightarrow> rdd_path (node_list (im_topic m))
     \<and> (case im_data m of None \<Rightarrow> True
        | Some b \<Rightarrow> utf8_valid b \<and> (im_graft m \<longrightarrow> EVERYTHING_CARD \<notin> set (node_list (im_topic m))
            \<and> (case loads (raw_str b) of Inl e \<Rightarrow> True
               | Inr data \<Rightarrow> payload (wilds (node_list (im_topic m))) data)))"


section \<open>The last value\<close>

definition last_or :: "'a option \<Rightarrow> 'a list \<Rightarrow> 'a option" where
  "last_or d xs = (if xs = [] then d else Some (last xs))"

lemma last_or_simps [simp]:
  "last_or d [] = d" "last_or d (x # xs) = last_or (Some x) xs" "last_or d (xs @ ys) = last_or (last_or d xs) ys"
  by (simp_all add: last_or_def)

lemma last_or_same:
  assumes "\<And>x. x \<in> set xs \<Longrightarrow> x = c" and "ys \<noteq> [] \<Longrightarrow> last ys = c" and "xs = [] \<longleftrightarrow> ys = []"
  shows "last_or d xs = last_or d ys"
  using assms by (cases "xs = []") (auto simp: last_or_def)

text \<open>The payloads of the messages for a topic, and those of the rows that wait to be broadcast.\<close>

definition heard :: "string \<Rightarrow> outgoing_message list \<Rightarrow> pyobj list" where
  "heard t ms = map om_data (filter (\<lambda>m. om_topic m = t) ms)"

definition row_values :: "string \<Rightarrow> row list \<Rightarrow> pyobj list" where
  "row_values t rows = map (\<lambda>row. obj_of_data (fst (snd row))) (filter (\<lambda>row. fst row = topic_nodes t) rows)"

definition awaited :: "string \<Rightarrow> broker \<Rightarrow> pyobj list" where
  "awaited t br = row_values t (concat (br_broadcast br))"

lemma heard_append [simp]: "heard t (xs @ ys) = heard t xs @ heard t ys" "heard t [] = []"
  by (simp_all add: heard_def)

lemma row_values_append [simp]: "row_values t (xs @ ys) = row_values t xs @ row_values t ys" "row_values t [] = []"
  by (simp_all add: row_values_def)

lemma topic_match_static_self: "MANY_CARD \<notin> set p \<Longrightarrow> topic_match p p' \<longleftrightarrow> p' = p"
  using topic_match_literal by (auto simp: topic_match_def intro!: list_all2_refl)

section \<open>One round of the main loop\<close>

definition texts :: "pyobj \<Rightarrow> bool" where
  "texts subs \<longleftrightarrow> (\<forall>p cid q. LEAF_KEY \<notin> set p \<longrightarrow> registered subs p cid = Some q \<longrightarrow> (\<exists>t. p = topic_nodes t))"

definition subscriber :: "string \<Rightarrow> string \<Rightarrow> ref \<Rightarrow> broker \<Rightarrow> bool" where
  "subscriber t cid r br \<longleftrightarrow> broker_ok br \<and> texts (br_subs br) \<and> MANY_CARD \<notin> set (topic_nodes t)
     \<and> registered (br_subs br) (topic_nodes t) cid \<noteq> None \<and> br_clients br cid = Some r"


lemma heard_round:
  assumes "subscriber t cid r br"
  shows "last_or d (heard t (messages_for rows br r)) = last_or d (row_values t rows)"
proof (rule last_or_same)
  let ?p = "topic_nodes t"
  have s: "subs_ok (br_subs br)" "texts (br_subs br)" "MANY_CARD \<notin> set ?p" "br_clients br cid = Some r"
    using assms by (simp_all add: subscriber_def broker_ok_def)
  have rf: "rows_for ?p rows = filter (\<lambda>row. fst row = ?p) rows"
    using s(3) by (simp add: rows_for_def topic_match_static_self)
  have lit: "sub_message_of rows ?p q = \<lparr>om_topic = t, om_qos = q, om_data = last (row_values t rows)\<rparr>"
    if "rows_for ?p rows \<noteq> []" for q
    using that s(3) unfolding rf
    by (simp add: sub_message_of_def reply_data_def build_message_data_def rf row_values_def last_map)
  have all: "om_data m = last (row_values t rows) \<and> row_values t rows \<noteq> []"
    if m: "m \<in> set (messages_for rows br r)" "om_topic m = t" for m
  proof -
    obtain p' cid' q' where x: "(p', cid', q') \<in> set (sub_list (br_subs br))" "rows_for p' rows \<noteq> []"
      "m = sub_message_of rows p' q'" using m(1) by (auto simp: messages_for_def)
    then obtain t' where "p' = topic_nodes t'" using s(1,2) by (auto simp: sub_list_iff texts_def)
    moreover have "om_topic m = join_char TOPIC_SEP p'" using x(3) by (simp add: sub_message_of_def)
    ultimately have "p' = ?p" using m(2) by simp
    with x lit show ?thesis by (simp add: row_values_def rf)
  qed
  show "x = last (row_values t rows)" if "x \<in> set (heard t (messages_for rows br r))" for x
    using that all by (auto simp: heard_def)
  show "heard t (messages_for rows br r) = [] \<longleftrightarrow> row_values t rows = []"
  proof
    assume "row_values t rows = []"
    then show "heard t (messages_for rows br r) = []" using all by (auto simp: heard_def filter_empty_conv)
  next
    assume none: "heard t (messages_for rows br r) = []"
    obtain q where "registered (br_subs br) ?p cid = Some q" using assms by (auto simp: subscriber_def)
    then have "(?p, cid, q) \<in> set (sub_list (br_subs br))"
      using s(1) topic_nodes_path [of t] by (simp add: sub_list_iff rdd_path_def)
    then have "rows_for ?p rows \<noteq> [] \<Longrightarrow> sub_message_of rows ?p q \<in> set (messages_for rows br r)"
      using s(4) by (force simp: messages_for_def)
    moreover have "sub_message_of rows ?p q \<notin> set (messages_for rows br r)" if "rows_for ?p rows \<noteq> []"
    proof -
      have "om_topic (sub_message_of rows ?p q) = t" by (simp add: sub_message_of_def)
      with none show ?thesis by (auto simp: heard_def filter_empty_conv)
    qed
    ultimately have "rows_for ?p rows = []" by blast
    then show "row_values t rows = []" by (simp add: row_values_def rf)
  qed
qed simp

text \<open>A round hands over what was awaited, and changes nothing else.\<close>

definition pending_ok :: "broker \<Rightarrow> bool" where
  "pending_ok br \<longleftrightarrow> (\<forall>rows\<in>set (br_broadcast br). storable rows)"

lemma round_queues:
  assumes "subs_ok (br_subs br)" and "pending_ok br" and "br_broadcast br = rows # rest"
  shows "main_loop_round br =
    Some (br\<lparr>br_broadcast := rest, br_queues := (\<lambda>r. br_queues br r @ messages_for rows br r)\<rparr>)"
proof -
  let ?br = "br\<lparr>br_broadcast := rest\<rparr>"
  have r: "row_data_ok rows" "\<forall>x\<in>set rows. fst x \<noteq> []"
    using assms(2,3) by (auto simp: pending_ok_def storable_def rows_ok_def rdd_path_def)
  have none: "messages_for [] br = (\<lambda>_. [])"
    by (auto simp: messages_for_def rows_for_def)
  have "process_outgoing_rows rows ?br = (Inr (), ?br\<lparr>br_queues := (\<lambda>r. br_queues br r @ messages_for rows br r)\<rparr>)"
    using process_outgoing_rows_aux [of ?br rows] assms(1) r
    by (simp add: queue_all_eq deliveries_sub_list messages_for_def)
  then show ?thesis
    using assms(3) none by (cases "rows = []") (simp_all add: main_loop_round_def)
qed

lemma round_heard:
  assumes "subscriber t cid r br" and "pending_ok br" and "main_loop_round br = Some br'"
  shows "subscriber t cid r br' \<and> pending_ok br' \<and> br_tm br' = br_tm br
    \<and> length (br_broadcast br) = Suc (length (br_broadcast br'))
    \<and> (\<exists>new. br_queues br' r = br_queues br r @ new
         \<and> (\<forall>d. last_or d (heard t new @ awaited t br') = last_or d (awaited t br)))"
proof -
  obtain rows rest where b: "br_broadcast br = rows # rest"
    using assms(3) by (auto simp: main_loop_round_def split: list.splits)
  have "subs_ok (br_subs br)" using assms(1) by (simp add: subscriber_def broker_ok_def)
  from round_queues [OF this assms(2) b] assms(3) have br': "br' = br\<lparr>br_broadcast := rest,
      br_queues := (\<lambda>r. br_queues br r @ messages_for rows br r)\<rparr>" by simp
  show ?thesis
    using assms(1,2) heard_round [OF assms(1)]
    by (auto simp: br' b subscriber_def broker_ok_def pending_ok_def awaited_def intro!: exI [of _ "messages_for rows br r"])
qed

section \<open>Every event keeps what is heard in step with the tree\<close>











lemma retained_last:
  "(case map_of (rev rows) (topic_nodes t) of Some v \<Rightarrow> Some (obj_of_data (fst v)) | None \<Rightarrow> d)
   = last_or d (row_values t rows)"
  by (induction rows rule: rev_induct) (auto simp: row_values_def)

lemma get_rows_storable:
  assumes "wf_tree tree" and "rdd_path topic" and "LEAF_KEY \<notin> set base"
    and "get_applicable_rows topic data qos base tree fw = Inr rows" and "\<forall>b. data = Some b \<longrightarrow> utf8_valid b"
  shows "storable rows"
proof -
  have "rdd_path (fst row) \<and> snd row = (data, qos)" if "row \<in> set rows" for row
    using assms(1-4) that
  proof (induction topic arbitrary: base tree fw rows)
    case (Cons n ns)
    obtain kvs where kvs: "tree = PyRdd kvs" using Cons.prems(1) by (blast dest: wf_rdd_ex)
    have n: "n \<noteq> LEAF_KEY" "LEAF_KEY \<notin> set ns" using Cons.prems(2) by (auto simp: rdd_path_def)
    have step: "rdd_path (fst row) \<and> snd row = (data, qos)"
      if "ns \<noteq> []" "k \<noteq> LEAF_KEY" "map_of kvs k = Some v"
        "get_applicable_rows ns data qos (base @ [k]) v fw' = Inr rows'" "row \<in> set rows'" for k v fw' rows'
      using Cons.IH [OF _ _ _ that(4,5)] Cons.prems(1,3) that n wf_rdd_child [of is_data kvs k v]
      by (simp add: kvs rdd_path_def)
    have here: "rdd_path (base @ k # ks)" if "k \<noteq> LEAF_KEY" "LEAF_KEY \<notin> set ks" for k ks
      using Cons.prems(3) that by (auto simp: rdd_path_def)
    consider "n = EVERYTHING_CARD" | "n = MANY_CARD" "ns = []" | "n = MANY_CARD" "ns \<noteq> []"
      | "n \<noteq> EVERYTHING_CARD" "n \<noteq> MANY_CARD" by blast
    then show ?case
    proof cases
      case 1
      with Cons.prems get_everything_rows [OF Cons.prems(1), of base data qos] show ?thesis
        by (auto simp: below_Nil rdd_path_def split: if_splits)
    next
      case 2
      with Cons.prems(4,5) show ?thesis
        using here by (auto simp: kvs const_defs dest!: concat_mapR_memD split: if_splits)
    next
      case 3
      with Cons.prems(4,5) obtain k v rows' where "(k, v) \<in> set kvs" "k \<noteq> LEAF_KEY"
        "get_applicable_rows ns data qos (base @ [k]) v True = Inr rows'" "row \<in> set rows'"
        by (auto simp: kvs const_defs dest!: concat_mapR_memD split: if_splits)
      moreover from this(1) Cons.prems(1) have "map_of kvs k = Some v" by (simp add: kvs)
      ultimately show ?thesis using step 3 by blast
    next
      case 4
      with Cons.prems(4,5) step here n show ?thesis
        by (auto simp: kvs res_simps split: if_splits option.splits)
    qed
  qed simp
  then show ?thesis using assms(5) by (fastforce simp: storable_def rows_ok_def row_data_ok_def rdd_path_def)
qed

lemma well_behaved_rows:
  assumes "well_behaved loads m" and "wf_tree tree" and "message_rows loads m tree = Inr rows"
  shows "storable rows"
proof (cases "im_graft m")
  case False
  with assms show ?thesis
    using get_rows_storable [of tree "node_list (im_topic m)" "[]" "im_data m"]
    by (auto simp: well_behaved_def message_rows_def msg_get_applicable_rows_def split: option.splits)
next
  case True
  then obtain b data where d: "im_data m = Some b" "py_decode b = Inr (raw_str b)" "loads (raw_str b) = Inr data"
    using assms(3) by (auto simp: message_rows_def msg_flatten_into_rows_def py_decode_def res_simps split: option.splits if_splits)
  let ?topic = "node_list (im_topic m)"
  have t: "rdd_path ?topic" "EVERYTHING_CARD \<notin> set ?topic" "payload (wilds ?topic) data"
    using assms(1) True d(1,3) by (auto simp: well_behaved_def)
  have "rows = graft_rows ?topic data (im_qos m)"
    using flatten_rows [OF t(3) _ _ t(2), of tree PyNone "im_qos m" "[]"] t(1) assms(2,3) True
    by (simp add: message_rows_def msg_flatten_into_rows_def d pop_flags_payload [OF t(3)]
        graft_rows_def ok_tree_def rdd_path_def)
  with graft_rows_props(2) [OF t(3,1,2)] payload_leaves_props [OF t(3)] show ?thesis
    by (auto simp: storable_def row_data_ok_def rows_ok_def rdd_path_def graft_rows_def)
qed

text \<open>A retained message of good rows: it is stored and the same rows are to be broadcast.\<close>

lemma process_well_behaved:
  assumes "wf_tree (tm_tree tm)" and "well_behaved loads m"
  shows "(\<exists>e. message_rows loads m (tm_tree tm) = Inl e \<and> process_message loads m tm = (Inl e, tm))
    \<or> (\<exists>rows tree. process_message loads m tm =
          (Inr rows, tm\<lparr>tm_tree := tree, tm_tasks := tm_tasks tm @ rows\<rparr>)
        \<and> message_rows loads m (tm_tree tm) = Inr rows \<and> storable rows \<and> wf_tree tree
        \<and> (\<forall>t. leaf_at tree (topic_nodes t) = last_or (leaf_at (tm_tree tm) (topic_nodes t)) (row_values t rows)))"
proof (cases "message_rows loads m (tm_tree tm)")
  case (Inr rows)
  then have ok: "storable rows" using well_behaved_rows assms by blast
  then obtain tree where "retain_rows rows tm = (Inr (), tm\<lparr>tm_tree := tree, tm_tasks := tm_tasks tm @ rows\<rparr>)"
    "wf_tree tree" "\<forall>p. rdd_path p \<longrightarrow> leaf_at tree p = (case map_of (rev rows) p of
       Some v \<Rightarrow> Some (obj_of_data (fst v)) | None \<Rightarrow> leaf_at (tm_tree tm) p)"
    using retain_rows_aux [OF assms(1), of rows] by (auto simp: storable_def)
  with Inr ok show ?thesis by (auto simp: process_message_rows retained_last topic_nodes_path)
qed (simp add: process_message_rows)





section \<open>A subscriber mirrors the retained tree\<close>


lemma demo_texts: "texts (br_subs demo_broker)"
proof -
  have "\<exists>t. p = topic_nodes t" if "(p, c, q) \<in> set (sub_list demo_subs)" for p c q
  proof -
    have "topic_nodes ''house/+/lamp'' = [''house'', ''+'', ''lamp'']"
      "topic_nodes ''house/hall/lamp'' = [''house'', ''hall'', ''lamp'']" by (simp_all add: topic_nodes_def const_defs)
    moreover have "p = [''house'', ''+'', ''lamp''] \<or> p = [''house'', ''hall'', ''lamp'']"
      using that by (auto simp: demo_sub_list)
    ultimately show ?thesis by metis
  qed
  then show ?thesis
    using sub_list_iff [OF demo_ok(1)] by (fastforce simp: texts_def demo_broker_def new_broker_def)
qed

definition lamp_message :: "bytes \<Rightarrow> incoming_message" where
  "lamp_message b = \<lparr>im_topic = topic_of ''house/hall/lamp'', im_qos = 0, im_retain = True,
     im_graft = False, im_data = Some b\<rparr>"

lemma demo_mirror:
  "topic_nodes ''house/hall/lamp'' = [''house'', ''hall'', ''lamp'']"
  "registered (br_subs demo_broker) [''house'', ''hall'', ''lamp''] ''c2'' = Some 0"
  "br_clients demo_broker ''c2'' = Some 1" "br_broadcast demo_broker = []" "br_queues demo_broker 1 = []"
  "leaf_at (tm_tree (br_tm demo_broker)) p = None"
  by (simp_all add: demo_broker_def new_broker_def demo_subs_def registered_def topic_nodes_def const_defs)


section \<open>Two threads at once\<close>

text \<open>
  \<open>publish\<close> and \<open>subscribe\<close> in the two steps between which another thread can run: the tree is
  changed before the rows are put on the queue, and the immediate answer is made before the lock
  of the subscriptions is taken.
\<close>

definition publish_rows ::
    "(string \<Rightarrow> py_error + pyobj) \<Rightarrow> incoming_message \<Rightarrow> broker \<Rightarrow> (py_error + row list option) \<times> broker" where
  "publish_rows loads m br =
     (case msg_table m of
        Inl e \<Rightarrow> (Inl e, br)
      | Inr True \<Rightarrow>
          (Inr None, br\<lparr>br_table_tasks := br_table_tasks br @ [(im_topic m, im_data m, im_qos m)]\<rparr>)
      | Inr False \<Rightarrow>
          (let (r, tm') = (if im_retain m then process_message loads m (br_tm br)
                           else (bindR (as_single_row m) (\<lambda>row. Inr [row]), br_tm br))
           in (bindR r (\<lambda>rows. Inr (Some rows)), br\<lparr>br_tm := tm'\<rparr>)))"

definition put_rows :: "row list \<Rightarrow> broker \<Rightarrow> broker" where
  "put_rows rows br = br\<lparr>br_broadcast := br_broadcast br @ [rows]\<rparr>"

definition subscribe_answer ::
    "(string \<Rightarrow> py_error + pyobj) \<Rightarrow> ref \<Rightarrow> string \<Rightarrow> int \<Rightarrow> bool \<Rightarrow> broker \<Rightarrow> (py_error + unit) \<times> broker" where
  "subscribe_answer table_query ref topic_str qos tree br =
     (let topic = topic_of topic_str;
          answer = (if tree then
                      bindR (tm_get_message topic qos (tm_tree (br_tm br))) (\<lambda>m. Inr (Some m))
                    else bindR (for_table topic) (\<lambda>table.
                      if table then bindR (table_get_message table_query topic qos) (\<lambda>m. Inr (Some m))
                      else Inr None))
      in case answer of
           Inl e \<Rightarrow> (Inl e, br)
         | Inr reply \<Rightarrow> (Inr (), case reply of None \<Rightarrow> br | Some m \<Rightarrow> queue_message ref m br))"

definition subscribe_register :: "string \<Rightarrow> string \<Rightarrow> int \<Rightarrow> broker \<Rightarrow> (py_error + bool) \<times> broker" where
  "subscribe_register cid topic_str qos br =
     (let (r, subs') = subscribe_tree (node_list (topic_of topic_str)) cid qos (br_subs br)
      in (bindR r (\<lambda>_. Inr True), br\<lparr>br_subs := subs'\<rparr>))"

lemma publish_pieces:
  "publish loads m br = (case publish_rows loads m br of
     (Inl e, br1) \<Rightarrow> (Inl e, br1)
   | (Inr None, br1) \<Rightarrow> (Inr (), br1)
   | (Inr (Some rows), br1) \<Rightarrow> (Inr (), put_rows rows br1))"
  by (auto simp: publish_def publish_rows_def put_rows_def Let_def split_beta split: sum.split bool.split)

lemma subscribe_pieces:
  "subscribe tq cid r t q tree br = (case subscribe_answer tq r t q tree br of
     (Inl e, br1) \<Rightarrow> (Inl e, br1)
   | (Inr _, br1) \<Rightarrow> subscribe_register cid t q br1)"
  by (auto simp: subscribe_def subscribe_answer_def subscribe_register_def Let_def split_beta
      split: sum.split option.split)

definition plain_message :: "string \<Rightarrow> bytes \<Rightarrow> incoming_message \<Rightarrow> bool" where
  "plain_message t b m \<longleftrightarrow> im_topic m = topic_of t \<and> im_retain m \<and> \<not> im_graft m \<and> im_data m = Some b
     \<and> utf8_valid b \<and> t \<noteq> [] \<and> hd t \<notin> {TABLE_FLAG, TOPIC_SEP} \<and> list_all is_node_static (topic_nodes t)"

lemma applicable_static:
  "list_all is_node_static topic \<Longrightarrow> LEAF_KEY \<notin> set topic \<Longrightarrow> applicable False topic tree p \<longleftrightarrow> p = topic"
  by (auto simp: applicable_def topic_match_static)

text \<open>The first step of a plain publication.\<close>

lemma publish_rows_plain:
  assumes "broker_ok br" and "plain_message t b m"
  obtains rows tm where "publish_rows loads m br = (Inr (Some rows), br\<lparr>br_tm := tm\<rparr>)"
    and "storable rows" and "rows = [(topic_nodes t, Some b, im_qos m)]" and "wf_tree (tm_tree tm)"
    and "leaf_at (tm_tree tm) (topic_nodes t) = Some (PyBytes b)"
proof -
  have m: "im_topic m = topic_of t" "im_retain m" "\<not> im_graft m" "im_data m = Some b"
    and b: "utf8_valid b" and t: "t \<noteq> []" "hd t \<notin> {TABLE_FLAG, TOPIC_SEP}" "list_all is_node_static (topic_nodes t)"
    using assms(2) by (simp_all add: plain_message_def)
  have wf: "wf_tree (tm_tree (br_tm br))" using assms(1) by (simp add: broker_ok_def)
  have s: "EVERYTHING_CARD \<notin> set (topic_nodes t)" "LEAF_KEY \<notin> set (topic_nodes t)"
    using t(3) topic_nodes_path [of t] by (auto simp: list_all_iff is_node_static_def rdd_path_def)
  obtain rows where r: "message_rows loads m (tm_tree (br_tm br)) = Inr rows"
    "set rows = {(p, Some b, im_qos m) | p. p = topic_nodes t}" "distinct (map fst rows)"
    using get_applicable_rows_spec [OF wf topic_nodes_path s(1), of "Some b" "im_qos m" "[]" False] m
    by (auto simp: message_rows_def msg_get_applicable_rows_def applicable_static [OF t(3) s(2)])
  then have rows: "rows = [(topic_nodes t, Some b, im_qos m)]"
    by (cases rows; cases "tl rows") auto
  have "well_behaved loads m" using m b topic_nodes_path by (simp add: well_behaved_def)
  from process_well_behaved [OF wf this] r(1) obtain tree where tree:
    "process_message loads m (br_tm br) =
       (Inr rows, (br_tm br)\<lparr>tm_tree := tree, tm_tasks := tm_tasks (br_tm br) @ rows\<rparr>)"
    "storable rows" "wf_tree tree"
    "leaf_at tree (topic_nodes t) = last_or (leaf_at (tm_tree (br_tm br)) (topic_nodes t)) (row_values t rows)"
    by auto
  have "publish_rows loads m br = (Inr (Some rows), br\<lparr>br_tm := (br_tm br)\<lparr>tm_tree := tree,
      tm_tasks := tm_tasks (br_tm br) @ rows\<rparr>\<rparr>)"
    using msg_table_topic_of [OF m(1) t(1,2)] m(2) tree(1) by (simp add: publish_rows_def)
  from that [OF this tree(2) rows] tree(3,4) show thesis by (simp add: rows row_values_def)
qed

lemma subscriber_same:
  "subscriber t cid r br \<Longrightarrow> wf_tree (tm_tree tm) \<Longrightarrow>
   subscriber t cid r (br\<lparr>br_tm := tm, br_broadcast := bs\<rparr>)"
  by (simp add: subscriber_def broker_ok_def)

text \<open>
  C24: Two publications of one retained topic can leave a subscriber with the wrong payload. When
  the thread of the second runs between the two steps of the first, the retained payload is the
  second one, but the last message of a subscriber carries the first one, and nothing is left
  to be sent.
\<close>

theorem publishers_overtake:
  assumes "subscriber t cid r br" and "br_broadcast br = []"
    and "plain_message t b1 m1" and "plain_message t b2 m2"
  shows "\<exists>rows1 rows2 br1 br2 br3 br4 new. publish_rows loads m1 br = (Inr (Some rows1), br1)
    \<and> publish_rows loads m2 br1 = (Inr (Some rows2), br2)
    \<and> main_loop_round (put_rows rows1 (put_rows rows2 br2)) = Some br3 \<and> main_loop_round br3 = Some br4
    \<and> br_broadcast br4 = [] \<and> leaf_at (tm_tree (br_tm br4)) (topic_nodes t) = Some (PyBytes b2)
    \<and> br_queues br4 r = br_queues br r @ new \<and> last_or None (heard t new) = Some (PyBytes b1)"
proof -
  have ok: "broker_ok br" using assms(1) by (simp add: subscriber_def)
  obtain rows1 tm1 where 1: "publish_rows loads m1 br = (Inr (Some rows1), br\<lparr>br_tm := tm1\<rparr>)"
    "storable rows1" "rows1 = [(topic_nodes t, Some b1, im_qos m1)]" "wf_tree (tm_tree tm1)"
    using publish_rows_plain [OF ok assms(3)] by metis
  let ?br1 = "br\<lparr>br_tm := tm1\<rparr>"
  have "broker_ok ?br1" using ok 1(4) by (simp add: broker_ok_def)
  then obtain rows2 tm2 where 2: "publish_rows loads m2 ?br1 = (Inr (Some rows2), ?br1\<lparr>br_tm := tm2\<rparr>)"
    "storable rows2" "rows2 = [(topic_nodes t, Some b2, im_qos m2)]" "wf_tree (tm_tree tm2)"
    "leaf_at (tm_tree tm2) (topic_nodes t) = Some (PyBytes b2)"
    using publish_rows_plain [OF _ assms(4)] by metis
  let ?br2 = "br\<lparr>br_tm := tm2, br_broadcast := [rows2, rows1]\<rparr>"
  have put: "put_rows rows1 (put_rows rows2 (?br1\<lparr>br_tm := tm2\<rparr>)) = ?br2" by (simp add: put_rows_def assms(2))
  have s: "subscriber t cid r ?br2" by (rule subscriber_same [OF assms(1) 2(4)])
  have p: "pending_ok ?br2" using 1(2) 2(2) by (simp add: pending_ok_def)
  have a: "awaited t ?br2 = [PyBytes b2, PyBytes b1]" by (simp add: awaited_def row_values_def 1(3) 2(3))
  obtain br3 where r3: "main_loop_round ?br2 = Some br3"
    using round_queues [OF _ p, of rows2 "[rows1]"] s by (auto simp: subscriber_def broker_ok_def)
  from round_heard [OF s p this] obtain new1 where 3: "subscriber t cid r br3" "pending_ok br3"
    "br_tm br3 = tm2" "length (br_broadcast br3) = 1" "br_queues br3 r = br_queues br r @ new1"
    "\<And>d. last_or d (heard t new1 @ awaited t br3) = Some (PyBytes b1)"
    by (auto simp: a)
  then obtain rows where "br_broadcast br3 = [rows]" by (cases "br_broadcast br3") auto
  then obtain br4 where r4: "main_loop_round br3 = Some br4"
    using round_queues [OF _ 3(2)] 3(1) by (auto simp: subscriber_def broker_ok_def)
  from round_heard [OF 3(1,2) this] 3(3-5) obtain new2 where 4: "br_tm br4 = tm2" "br_broadcast br4 = []"
    "br_queues br4 r = br_queues br r @ new1 @ new2" "\<And>d. last_or d (heard t new2 @ awaited t br4) = last_or d (awaited t br3)"
    by auto
  have "last_or None (heard t (new1 @ new2)) = Some (PyBytes b1)"
    using 3(6) [of None] 4(4) [of "last_or None (heard t new1)"] 4(2) by (simp add: awaited_def)
  with 1(1) 2(1,5) r3 [folded put] r4 4(1-3) show ?thesis by (intro exI conjI) (assumption | simp)+
qed

lemma publishers_overtake_witness:
  "\<exists>(br' :: broker) new. br_broadcast br' = [] \<and> leaf_at (tm_tree (br_tm br')) [''house'', ''hall'', ''lamp''] = Some (PyBytes [50])
    \<and> br_queues br' 1 = new \<and> last_or None (heard ''house/hall/lamp'' new) = Some (PyBytes [49])"
proof -
  have s: "subscriber ''house/hall/lamp'' ''c2'' 1 demo_broker"
    by (simp add: subscriber_def demo_texts demo_mirror const_defs)
  have p: "plain_message ''house/hall/lamp'' b (lamp_message b)" if "utf8_valid b" for b
    using that by (simp add: plain_message_def lamp_message_def demo_mirror const_defs is_node_static_def)
  have "utf8_valid [49]" "utf8_valid [50]" by simp_all
  from publishers_overtake [OF s demo_mirror(4) p [OF this(1)] p [OF this(2)], of no_json]
  obtain br' :: broker and new where "br_broadcast br' = []" "br_queues br' 1 = br_queues demo_broker 1 @ new"
    "leaf_at (tm_tree (br_tm br')) (topic_nodes ''house/hall/lamp'') = Some (PyBytes [50])"
    "last_or None (heard ''house/hall/lamp'' new) = Some (PyBytes [49])" by blast
  then show ?thesis
    by (intro exI [of _ br'] exI [of _ new]) (simp add: demo_mirror del: One_nat_def)
qed

text \<open>
  C25: A subscription can miss an update for good. Its immediate answer is made from the retained
  tree before it is registered; a message that is published and broadcast in between is neither
  in the answer nor sent later, though the client is registered and the message retained.
\<close>

theorem subscriber_misses_update:
  assumes "broker_ok br" and "br_broadcast br = []" and "plain_message t b m"
    and "\<And>p c q'. LEAF_KEY \<notin> set p \<Longrightarrow> registered (br_subs br) p c = Some q' \<Longrightarrow>
      topic_match p (topic_nodes t) \<Longrightarrow> br_clients br c \<noteq> Some r"
    and "subscribe_answer tq r t q tree br = (Inr (), br1)"
  shows "\<exists>rows br2 br3 br4. publish_rows loads m br1 = (Inr (Some rows), br2)
    \<and> main_loop_round (put_rows rows br2) = Some br3 \<and> subscribe_register cid t q br3 = (Inr True, br4)
    \<and> registered (br_subs br4) (topic_nodes t) cid = Some q
    \<and> leaf_at (tm_tree (br_tm br4)) (topic_nodes t) = Some (PyBytes b)
    \<and> br_broadcast br4 = [] \<and> br_queues br4 r = br_queues br1 r"
proof -
  have 1: "broker_ok br1" "br_subs br1 = br_subs br" "br_clients br1 = br_clients br" "br_broadcast br1 = []"
    using assms(1,2,5) by (auto simp: subscribe_answer_def broker_ok_def queue_message_def Let_def
        split: sum.splits option.splits)
  obtain rows tm where 2: "publish_rows loads m br1 = (Inr (Some rows), br1\<lparr>br_tm := tm\<rparr>)"
    "storable rows" "rows = [(topic_nodes t, Some b, im_qos m)]"
    "leaf_at (tm_tree tm) (topic_nodes t) = Some (PyBytes b)"
    using publish_rows_plain [OF 1(1) assms(3)] by metis
  let ?br2 = "put_rows rows (br1\<lparr>br_tm := tm\<rparr>)"
  have ok: "subs_ok (br_subs br1)" using 1(1) by (simp add: broker_ok_def)
  have none: "messages_for rows ?br2 r = []"
  proof -
    have "br_clients br c \<noteq> Some r" if "(p, c, q') \<in> set (sub_list (br_subs br))" "rows_for p rows \<noteq> []" for p c q'
      using that ok assms(4) [of p c q'] by (auto simp: 1(2) sub_list_iff rows_for_def 2(3) split: if_splits)
    then show ?thesis using 1(2,3) by (auto simp: messages_for_def put_rows_def filter_empty_conv)
  qed
  let ?br3 = "?br2\<lparr>br_broadcast := [], br_queues := (\<lambda>r. br_queues br1 r @ messages_for rows ?br2 r)\<rparr>"
  have r: "main_loop_round ?br2 = Some ?br3"
    using round_queues [of ?br2 rows "[]"] ok 2(2) 1(4) by (simp add: put_rows_def pending_ok_def)
  have sub: "br_subs ?br3 = br_subs br1" by (simp add: put_rows_def)
  note reg = subscribe_tree_spec [OF ok topic_nodes_path [of t], of cid q]
  have "subscribe_register cid t q ?br3 = (Inr True, ?br3\<lparr>br_subs := snd (subscribe_tree (topic_nodes t) cid q (br_subs br1))\<rparr>)"
    using reg by (simp add: subscribe_register_def sub split_beta)
  with 2(1,4) r none reg topic_nodes_path [of t] show ?thesis
    by (intro exI conjI) (assumption | simp add: put_rows_def rdd_path_def)+
qed

lemma subscriber_misses_update_witness:
  "\<exists>br1 br2 rows (br4 :: broker). subscribe_answer no_tables 1 ''a'' 0 True demo_broker = (Inr (), br1)
    \<and> publish_rows no_json \<lparr>im_topic = topic_of ''a'', im_qos = 0, im_retain = True, im_graft = False,
         im_data = Some [49]\<rparr> br1 = (Inr (Some rows), br2)
    \<and> registered (br_subs br4) [''a''] ''c2'' = Some 0 \<and> br_broadcast br4 = []
    \<and> leaf_at (tm_tree (br_tm br4)) [''a''] = Some (PyBytes [49]) \<and> br_queues br4 1 = br_queues br1 1"
proof -
  let ?m = "\<lparr>im_topic = topic_of ''a'', im_qos = 0, im_retain = True, im_graft = False, im_data = Some [49]\<rparr>"
  have a: "topic_nodes ''a'' = [''a'']" by (simp add: topic_nodes_def const_defs)
  have p: "plain_message ''a'' [49] ?m" by (simp add: plain_message_def a const_defs is_node_static_def)
  have n: "br_clients demo_broker c \<noteq> Some 1"
    if "LEAF_KEY \<notin> set p" "registered (br_subs demo_broker) p c = Some q'" "topic_match p (topic_nodes ''a'')" for p c q'
  proof -
    have "(p, c, q') \<in> set (sub_list demo_subs)"
      using that(1,2) by (simp add: sub_list_iff demo_broker_def new_broker_def)
    with that(3) show ?thesis by (auto simp: a demo_sub_list topic_match_def)
  qed
  have "tm_get_message (topic_of ''a'') 0 (PyRdd []) = Inr \<lparr>om_topic = ''a'', om_qos = 0, om_data = PyStr []\<rparr>"
    by (simp add: tm_get_message_def tm_filter_def a from_tree_item_def filter_tree_with_topic.simps const_defs)
  then obtain br1 where s: "subscribe_answer no_tables 1 ''a'' 0 True demo_broker = (Inr (), br1)"
    by (simp add: subscribe_answer_def demo_broker_def new_broker_def)
  from subscriber_misses_update [where loads = no_json and cid = "''c2''", OF demo_ok(3) demo_mirror(4) p n s] show ?thesis
    using s by (fastforce simp: a)
qed

end
