(* ===== verification/Sockets.thy ===== *)
theory Sockets
  imports Streams
begin

text \<open>
  servers/socket.py and utils/recv_until.py: reading from a TCP socket. What the peer sends
  until it closes is a list of segments, the pieces in which the network delivers it; \<open>recv(n)\<close>
  answers at most \<open>n\<close> bytes of the first segment, and no bytes when the peer has closed.
\<close>

type_synonym segments = "bytes list"

fun recv :: "nat \<Rightarrow> segments \<Rightarrow> bytes \<times> segments" where
  "recv n [] = ([], [])"
| "recv n (seg # segs) = (take n seg, if length seg \<le> n then segs else drop n seg # segs)"

definition segments_ok :: "segments \<Rightarrow> bool" where
  "segments_ok segs \<longleftrightarrow> [] \<notin> set segs"

section \<open>Reading a number of bytes\<close>

text \<open>The loop of \<open>SocketHandler.read\<close>; every round asks for \<open>size\<close> bytes.\<close>

function socket_read_loop :: "nat \<Rightarrow> bytes \<Rightarrow> segments \<Rightarrow> py_error + bytes \<times> segments" where
  "socket_read_loop n cached_bytes segs =
     (if length cached_bytes < n then
        (case recv n segs of (buf, segs') \<Rightarrow>
           if buf = [] then Inl ConnectionError
           else socket_read_loop n (cached_bytes @ buf) segs')
      else Inr (cached_bytes, segs))"
  by pat_completeness auto
termination
  by (relation "measure (\<lambda>(n, cached_bytes, segs). n - length cached_bytes)")
     (auto intro!: diff_less_mono2 simp: length_greater_0_conv [symmetric] simp del: length_greater_0_conv)

declare socket_read_loop.simps [simp del]

definition socket_read :: "nat \<Rightarrow> segments \<Rightarrow> py_error + bytes \<times> segments" where
  "socket_read n segs = socket_read_loop n [] segs"

section \<open>Reading up to a delimiter\<close>

definition occurs :: "bytes \<Rightarrow> bytes \<Rightarrow> bool" where
  "occurs edl data \<longleftrightarrow> list_ex (\<lambda>i. take (length edl) (drop i data) = edl) [0..<Suc (length data)]"

partial_function (option) recv_until_loop :: "bytes \<Rightarrow> bytes \<Rightarrow> segments \<Rightarrow> (bytes \<times> segments) option" where
  "recv_until_loop edl data segs =
     (if occurs edl data then Some (data, segs)
      else (let (buf, segs') = recv 1024 segs in recv_until_loop edl (data @ buf) segs'))"

text \<open>\<open>None\<close> when the loop does not end; otherwise the decoded text.\<close>

definition recv_until :: "string \<Rightarrow> segments \<Rightarrow> ((py_error + string) \<times> segments) option" where
  "recv_until delimiter segs =
     (let (buf, segs1) = recv 1024 segs
      in map_option (\<lambda>(data, segs2). (py_decode data, segs2))
           (recv_until_loop (raw_bytes delimiter) buf segs1))"

section \<open>What is received\<close>

lemma recv_concat: "recv n segs = (buf, segs') \<Longrightarrow> concat segs = buf @ concat segs'"
  by (cases segs) (auto split: if_splits)

lemma recv_length: "length (fst (recv n segs)) \<le> n"
  by (cases segs) auto

lemma recv_ok: "segments_ok segs \<Longrightarrow> segments_ok (snd (recv n segs))"
  by (cases segs) (auto simp: segments_ok_def)

lemma recv_Nil_iff: "segments_ok segs \<Longrightarrow> 0 < n \<Longrightarrow> fst (recv n segs) = [] \<longleftrightarrow> segs = []"
  by (cases segs) (auto simp: segments_ok_def)

lemma socket_read_loop_Inr:
  "socket_read_loop n cached segs = Inr (bs, segs') \<Longrightarrow>
   \<exists>more. bs = cached @ more \<and> concat segs = more @ concat segs' \<and> n \<le> length bs
     \<and> (length cached < n \<longrightarrow> length bs < n + n)"
proof (induction n cached segs rule: socket_read_loop.induct)
  case (1 n cached segs)
  show ?case
  proof (cases "length cached < n")
    case False
    then show ?thesis using "1.prems" by (simp add: socket_read_loop.simps)
  next
    case True
    obtain buf segs1 where r: "recv n segs = (buf, segs1)" by fastforce
    have ne: "buf \<noteq> []" and rest: "socket_read_loop n (cached @ buf) segs1 = Inr (bs, segs')"
      using "1.prems" True r by (auto simp: socket_read_loop.simps [of n cached segs] split: if_splits)
    have len: "length buf \<le> n" using recv_length [of n segs] r by simp
    from "1.IH" [OF True r [symmetric] ne rest] obtain more
      where m: "bs = (cached @ buf) @ more" "concat segs1 = more @ concat segs'" "n \<le> length bs"
        "length (cached @ buf) < n \<longrightarrow> length bs < n + n" by blast
    have "length bs < n + n"
    proof (cases "length (cached @ buf) < n")
      case False
      then have "socket_read_loop n (cached @ buf) segs1 = Inr (cached @ buf, segs1)"
        by (simp add: socket_read_loop.simps)
      with rest True len show ?thesis by auto
    qed (use m(4) in simp)
    with m recv_concat [OF r] show ?thesis by auto
  qed
qed

lemma socket_read_loop_Inl:
  "socket_read_loop n cached segs = Inl e \<Longrightarrow> segments_ok segs \<Longrightarrow>
   e = ConnectionError \<and> length cached + length (concat segs) < n"
proof (induction n cached segs rule: socket_read_loop.induct)
  case (1 n cached segs)
  have lt: "length cached < n" using "1.prems"(1) by (cases "length cached < n") (simp_all add: socket_read_loop.simps)
  obtain buf segs1 where r: "recv n segs = (buf, segs1)" by fastforce
  show ?case
  proof (cases "buf = []")
    case True
    then have "segs = []" using recv_Nil_iff [OF "1.prems"(2), of n] lt r by auto
    then show ?thesis using "1.prems"(1) lt by (simp add: socket_read_loop.simps [of n cached "[]"])
  next
    case False
    then have "socket_read_loop n (cached @ buf) segs1 = Inl e"
      using "1.prems"(1) lt r by (simp add: socket_read_loop.simps [of n cached segs])
    from "1.IH" [OF lt r [symmetric] False this] recv_ok [OF "1.prems"(2), of n] recv_concat [OF r] r
    show ?thesis by simp
  qed
qed

text \<open>
  C40: Reading from a socket. \<open>read(n)\<close> fails exactly when the peer closes before it has sent
  \<open>n\<close> bytes; otherwise it answers the next bytes of the stream in order, at least \<open>n\<close> of them,
  but up to \<open>2n - 1\<close> when they come in more than one piece.
\<close>

theorem socket_read_bounds:
  assumes "segments_ok segs"
  shows "case socket_read n segs of
      Inl e \<Rightarrow> e = ConnectionError \<and> length (concat segs) < n
    | Inr (bs, segs') \<Rightarrow> concat segs = bs @ concat segs' \<and> n \<le> length bs \<and> length bs \<le> 2 * n - 1"
proof (cases "socket_read n segs")
  case (Inl e)
  then show ?thesis using socket_read_loop_Inl [of n "[]" segs e] assms by (simp add: socket_read_def)
next
  case (Inr x)
  obtain bs segs' where x: "x = (bs, segs')" by (cases x)
  from socket_read_loop_Inr [of n "[]" segs bs segs'] Inr x
  have "concat segs = bs @ concat segs'" "n \<le> length bs" "0 < n \<longrightarrow> length bs < n + n"
    by (auto simp: socket_read_def)
  moreover have "n = 0 \<Longrightarrow> bs = []" using Inr by (simp add: socket_read_def socket_read_loop.simps x)
  ultimately show ?thesis unfolding Inr x by (cases "n = 0") auto
qed

lemma socket_read_bounds_witness:
  "socket_read 4 [[1, 2, 3], [4, 5, 6, 7, 8]] = Inr ([1, 2, 3, 4, 5, 6, 7], [[8]])
   \<and> length [1, 2, 3, 4, 5, 6, 7 :: byte] \<le> 2 * 4 - 1"
proof -
  have r: "socket_read 4 [[1, 2, 3], [4, 5, 6, 7, 8]] = Inr ([1, 2, 3, 4, 5, 6, 7], [[8]])"
    by (simp add: socket_read_def socket_read_loop.simps)
  have "segments_ok [[1, 2, 3], [4, 5, 6, 7, 8]]" by (simp add: segments_ok_def)
  from socket_read_bounds [OF this, of 4] r show ?thesis by simp
qed

section \<open>The delimiter\<close>

lemma occurs_iff: "occurs edl data \<longleftrightarrow> (\<exists>i\<le>length data. take (length edl) (drop i data) = edl)"
  by (auto simp: occurs_def list_ex_iff less_Suc_eq_le simp del: upt_Suc)

lemma occurs_append: "occurs edl data \<Longrightarrow> occurs edl (data @ more)"
proof -
  assume "occurs edl data"
  then obtain i where i: "i \<le> length data" "take (length edl) (drop i data) = edl"
    by (auto simp: occurs_iff)
  have "length edl \<le> length (drop i data)" using i(2) by (metis length_take min.absorb_iff2)
  then have "take (length edl) (drop i (data @ more)) = edl" using i by simp
  with i(1) show ?thesis by (auto simp: occurs_iff intro!: exI [of _ i])
qed

lemma recv_until_loop_Some:
  assumes "recv_until_loop edl data segs = Some (data', segs')"
  shows "occurs edl data' \<and> data @ concat segs = data' @ concat segs'"
proof -
  have "occurs edl (fst r) \<and> data @ concat segs = fst r @ concat (snd r)"
    if "recv_until_loop edl data segs = Some r" for r
    using _ that
  proof (rule recv_until_loop.raw_induct
      [where P = "\<lambda>edl data segs r. occurs edl (fst r) \<and> data @ concat segs = fst r @ concat (snd r)"])
    fix f edl data segs r
    assume IH: "\<And>edl data segs r. f edl data segs = Some r \<Longrightarrow>
        occurs edl (fst r) \<and> data @ concat segs = fst r @ concat (snd r)"
      and r: "(if occurs edl data then Some (data, segs)
        else let (buf, segs') = recv 1024 segs in f edl (data @ buf) segs') = Some r"
    obtain buf segs1 where rc: "recv 1024 segs = (buf, segs1)" by fastforce
    show "occurs edl (fst r) \<and> data @ concat segs = fst r @ concat (snd r)"
      using r IH [of edl "data @ buf" segs1 r] recv_concat [OF rc]
      by (auto simp: rc split: if_splits)
  qed
  from this [OF assms] show ?thesis by simp
qed

lemma recv_until_loop_ends:
  "segments_ok segs \<Longrightarrow> occurs edl (data @ concat segs) \<Longrightarrow> \<exists>r. recv_until_loop edl data segs = Some r"
proof (induction "length (concat segs)" arbitrary: data segs rule: less_induct)
  case less
  show ?case
  proof (cases "occurs edl data")
    case True
    then show ?thesis by (subst recv_until_loop.simps) simp
  next
    case False
    then have ne: "segs \<noteq> []" using less.prems(2) by auto
    obtain buf segs1 where r: "recv 1024 segs = (buf, segs1)" by fastforce
    have "buf \<noteq> []" using recv_Nil_iff [OF less.prems(1), of 1024] ne r by simp
    then have "length (concat segs1) < length (concat segs)" using recv_concat [OF r] by simp
    from less.hyps [OF this, of "data @ buf"] recv_ok [OF less.prems(1), of 1024] less.prems(2) recv_concat [OF r] r
    obtain r' where "recv_until_loop edl (data @ buf) segs1 = Some r'" by auto
    then show ?thesis using False by (subst recv_until_loop.simps) (simp add: r)
  qed
qed

text \<open>
  C39: Reading the upgrade request ends exactly when the delimiter is somewhere in what the peer
  sends before it closes; otherwise the loop never ends, since \<open>recv\<close> answers no bytes again
  and again. When it ends, what was read contains the delimiter and nothing is lost or
  reordered.
\<close>

theorem recv_until_ends_iff:
  assumes "segments_ok segs"
  shows "((\<exists>r. recv_until delimiter segs = Some r) \<longleftrightarrow> occurs (raw_bytes delimiter) (concat segs))
    \<and> (\<forall>t segs'. recv_until delimiter segs = Some (Inr t, segs') \<longrightarrow>
         occurs (raw_bytes delimiter) (raw_bytes t) \<and> concat segs = raw_bytes t @ concat segs')"
proof -
  obtain buf segs1 where r: "recv 1024 segs = (buf, segs1)" by fastforce
  have c: "concat segs = buf @ concat segs1" by (rule recv_concat [OF r])
  have ok: "segments_ok segs1" using recv_ok [OF assms, of 1024] r by simp
  let ?loop = "recv_until_loop (raw_bytes delimiter) buf segs1"
  have u: "recv_until delimiter segs = map_option (\<lambda>(data, segs2). (py_decode data, segs2)) ?loop"
    by (simp add: recv_until_def r)
  have "(\<exists>r. ?loop = Some r) \<longleftrightarrow> occurs (raw_bytes delimiter) (concat segs)"
    using recv_until_loop_ends [OF ok, of "raw_bytes delimiter" buf]
      recv_until_loop_Some [of "raw_bytes delimiter" buf segs1] occurs_append c
    by (metis prod.collapse)
  moreover have "occurs (raw_bytes delimiter) (raw_bytes t) \<and> concat segs = raw_bytes t @ concat segs'"
    if some: "recv_until delimiter segs = Some (Inr t, segs')" for t segs'
  proof -
    obtain data where d: "?loop = Some (data, segs')" "py_decode data = Inr t"
      using some u by auto
    then have "data = raw_bytes t" by (auto simp: py_decode_def split: if_splits)
    with recv_until_loop_Some [OF d(1)] c show ?thesis by simp
  qed
  ultimately show ?thesis by (auto simp: u)
qed

lemma recv_until_ends_iff_witness:
  "(\<exists>r. recv_until ''xx'' [[97, 120], [120, 98]] = Some r) \<and> recv_until ''xx'' [[97, 120], [98]] = None"
proof -
  have x: "raw_bytes ''xx'' = [120, 120]" by code_simp
  have "segments_ok [[97, 120], [120, 98]]" "segments_ok [[97, 120], [98]]" by (simp_all add: segments_ok_def)
  moreover have "occurs [120, 120] (concat [[97, 120], [120, 98]])" "\<not> occurs [120, 120] (concat [[97, 120], [98]])"
    by code_simp+
  ultimately show ?thesis
    using recv_until_ends_iff [of "[[97, 120], [120, 98]]" "''xx''"]
      recv_until_ends_iff [of "[[97, 120], [98]]" "''xx''"]
    by (simp add: x) (metis not_None_eq surj_pair)
qed

end
