(* ===== verification/Websocket.thy ===== *)
theory Websocket
  imports Sockets
begin

text \<open>
  servers/websocket: the frames of the WebSocket protocol, the reader and writer that carry the
  packets in frames, and the answer to the upgrade request. The memory of the machine is not
  bounded: a frame may announce any length.
\<close>

section \<open>Frames\<close>

definition OP_CONTINUATION :: nat where "OP_CONTINUATION = 0"
definition OP_TEXT :: nat where "OP_TEXT = 1"
definition OP_BYTES :: nat where "OP_BYTES = 2"
definition OP_CLOSE :: nat where "OP_CLOSE = 8"
definition OP_PING :: nat where "OP_PING = 9"
definition OP_PONG :: nat where "OP_PONG = 10"
definition FIN_OFFSET :: nat where "FIN_OFFSET = 7"
definition OUT_SIZE :: nat where "OUT_SIZE = 2040"

lemmas ws_defs [simp] = OP_CONTINUATION_def OP_TEXT_def OP_BYTES_def OP_CLOSE_def OP_PING_def
  OP_PONG_def FIN_OFFSET_def

text \<open>Nothing sets the reserved bits or an encoded form.\<close>

record frame =
  fr_opcode :: nat
  fr_fin :: bool
  fr_masked :: bool
  fr_payload :: "bytes option"

definition shifted_bytes :: "nat \<Rightarrow> nat list \<Rightarrow> bytes" where
  "shifted_bytes n shifts = map (\<lambda>i. word_of_nat (drop_bit (i * 8) n AND 255)) shifts"

definition frame_bytes :: "frame \<Rightarrow> py_error + bytes" where
  "frame_bytes f =
     (let mask = 0; first = push_bit FIN_OFFSET (of_bool (fr_fin f)) XOR fr_opcode f;
          payload = (case fr_payload f of None \<Rightarrow> [] | Some p \<Rightarrow> p);
          payload_len = length payload;
          header = (if payload_len < 126 then [word_of_nat (push_bit 7 mask XOR payload_len)]
                    else if payload_len < 65535 then
                      word_of_nat (push_bit 7 mask XOR 126) # shifted_bytes payload_len [1, 0]
                    else word_of_nat (push_bit 7 mask XOR 127)
                      # shifted_bytes payload_len [6, 5, 4, 3, 2, 1, 0])
      in if first < 256 then Inr (word_of_nat first # header @ payload) else Inl ValueError)"

definition unmask :: "bytes \<Rightarrow> bytes \<Rightarrow> py_error + bytes" where
  "unmask key data =
     mapR (\<lambda>i. if i mod 4 < length key then Inr (data ! i XOR key ! (i mod 4)) else Inl IndexError)
       [0..<length data]"

text \<open>
  \<open>Frame.recv\<close>: a part of a frame is one call of \<open>recv\<close>, whatever it answers. Every exception
  closes the socket or becomes a \<open>ConnectionError\<close>.
\<close>

definition recv_payload_len :: "nat \<Rightarrow> segments \<Rightarrow> nat \<times> segments" where
  "recv_payload_len len segs =
     (if len = 126 then (let (b, s) = recv 2 segs in (from_big_endian b, s))
      else if len = 127 then (let (b, s) = recv 8 segs in (from_big_endian b, s))
      else (len, segs))"

definition recv_payload :: "nat \<Rightarrow> bool \<Rightarrow> segments \<Rightarrow> (py_error + bytes) \<times> segments" where
  "recv_payload payload_len masked segs =
     (if payload_len = 0 then (Inr [], if masked then snd (recv 4 segs) else segs)
      else if masked then
        (let (data, s) = recv (payload_len + 4) segs in (unmask (take 4 data) (drop 4 data), s))
      else (let (data, s) = recv payload_len segs in (Inr data, s)))"

definition recv_frame :: "segments \<Rightarrow> (py_error + frame) \<times> segments" where
  "recv_frame segs =
     (let (header, s1) = recv 2 segs
      in if length header < 2 then (Inl ConnectionError, s1)
         else
           (let fin = (header ! 0 AND 128 = 128);
                opcode = unat (header ! 0 AND 15);
                masked = (header ! 1 AND 128 = 128);
                (payload_len, s2) = recv_payload_len (unat (header ! 1 AND 127)) s1
            in case recv_payload payload_len masked s2 of
                 (Inl e, s3) \<Rightarrow> (Inl ConnectionError, s3)
               | (Inr p, s3) \<Rightarrow>
                   (Inr \<lparr>fr_opcode = opcode, fr_fin = fin, fr_masked = masked, fr_payload = Some p\<rparr>, s3)))"

section \<open>The connection\<close>

record ws =
  ws_alive :: bool
  ws_open :: bool
  ws_in :: segments
  ws_buf :: bytes
  ws_sent :: "bytes list"

definition ws_send :: "frame \<Rightarrow> ws \<Rightarrow> (py_error + unit) \<times> ws" where
  "ws_send f w =
     (case frame_bytes f of
        Inl e \<Rightarrow> (Inl e, w)
      | Inr b \<Rightarrow> if ws_open w then (Inr (), w\<lparr>ws_sent := ws_sent w @ [b]\<rparr>) else (Inl OSError, w))"

definition send_pong :: "bytes \<Rightarrow> ws \<Rightarrow> (py_error + unit) \<times> ws" where
  "send_pong payload =
     ws_send \<lparr>fr_opcode = OP_PONG, fr_fin = True, fr_masked = False, fr_payload = Some payload\<rparr>"

text \<open>\<open>send_close()\<close>, which is never called with a status.\<close>

definition send_close :: "ws \<Rightarrow> (py_error + unit) \<times> ws" where
  "send_close = ws_send \<lparr>fr_opcode = OP_CLOSE, fr_fin = True, fr_masked = False, fr_payload = None\<rparr>"

text \<open>
  \<open>raise ConnectionClosed\<close> instantiates the class without its argument, which is a
  \<open>TypeError\<close>.
\<close>

definition end_connection :: "ws \<Rightarrow> (py_error + 'a) \<times> ws" where
  "end_connection w = (Inl TypeError, w\<lparr>ws_alive := False, ws_open := False\<rparr>)"

definition ws_close :: "ws \<Rightarrow> ws" where
  "ws_close w =
     (let w1 = (if ws_alive w then snd (send_close w) else w)
      in w1\<lparr>ws_alive := False, ws_open := False\<rparr>)"

lemma recv_smaller: "recv n segs = (b, segs') \<Longrightarrow> length (concat segs') \<le> length (concat segs)"
  by (drule recv_concat) simp

lemma recv_frame_smaller:
  assumes "recv_frame segs = (Inr f, segs')"
  shows "length (concat segs') < length (concat segs)"
proof -
  obtain header s1 where r: "recv 2 segs = (header, s1)" by fastforce
  have h: "2 \<le> length header" using assms by (auto simp: recv_frame_def r Let_def split: if_splits)
  have 1: "length (concat s1) < length (concat segs)" using recv_concat [OF r] h by (cases header) simp_all
  have le: "length (concat (snd (recv n s))) \<le> length (concat s)" for n s
    using recv_smaller [of n s "fst (recv n s)" "snd (recv n s)"] by simp
  have "length (concat (snd (recv_payload_len len s))) \<le> length (concat s)" for len s
    using le by (simp add: recv_payload_len_def split_beta)
  moreover have "length (concat (snd (recv_payload n m s))) \<le> length (concat s)" for n m s
    using le by (simp add: recv_payload_def split_beta)
  ultimately have "length (concat segs') \<le> length (concat s1)"
    using assms h by (auto simp: recv_frame_def r Let_def split: prod.splits sum.splits)
      (metis (no_types, lifting) le_trans snd_conv)
  with 1 show ?thesis by simp
qed

lemma ws_send_in: "ws_in (snd (ws_send f w)) = ws_in w"
  by (simp add: ws_send_def split: sum.split)

lemma send_pong_in: "send_pong p w = (r, w') \<Longrightarrow> ws_in w' = ws_in w"
  using ws_send_in by (metis send_pong_def snd_conv)

text \<open>A frame from the socket of the connection, which fails when the socket is closed.\<close>

definition recv_next :: "ws \<Rightarrow> (py_error + frame) \<times> segments" where
  "recv_next w = (if ws_open w then recv_frame (ws_in w) else (Inl ConnectionError, ws_in w))"

lemma recv_next_smaller:
  "recv_next w = (Inr f, segs') \<Longrightarrow> length (concat segs') < length (concat (ws_in w))"
  by (auto simp: recv_next_def recv_frame_smaller split: if_splits)

function read_frames :: "bytes \<Rightarrow> ws \<Rightarrow> (py_error + bytes option) \<times> ws" where
  "read_frames buf w =
     (if ws_alive w then
        (case recv_next w of
           (Inl e, segs) \<Rightarrow> (Inl e, w\<lparr>ws_in := segs, ws_open := False\<rparr>)
         | (Inr f, segs) \<Rightarrow>
             (let w1 = w\<lparr>ws_in := segs\<rparr>; payload = (case fr_payload f of None \<Rightarrow> [] | Some p \<Rightarrow> p)
              in if fr_opcode f = OP_BYTES \<or> fr_opcode f = OP_CONTINUATION then
                   (if fr_fin f then (Inr (Some (buf @ payload)), w1) else read_frames (buf @ payload) w1)
                 else if fr_opcode f = OP_CLOSE then
                   (case (if fr_fin f then send_close w1 else (Inr (), w1)) of
                      (Inl e, w2) \<Rightarrow> (Inl e, w2)
                    | (Inr _, w2) \<Rightarrow> end_connection w2)
                 else if fr_opcode f = OP_PING then
                   (case send_pong payload w1 of
                      (Inl e, w2) \<Rightarrow> (Inl e, w2)
                    | (Inr _, w2) \<Rightarrow> read_frames buf w2)
                 else if fr_opcode f = OP_PONG then read_frames buf w1
                 else end_connection w1))
      else (Inr None, w))"
  by pat_completeness auto
termination
proof (relation "measure (\<lambda>(buf, w). length (concat (ws_in w)))", goal_cases)
  case 1
  then show ?case by simp
qed (auto dest!: recv_next_smaller [OF sym] send_pong_in [OF sym])

declare read_frames.simps [simp del]

lemma read_frames_smaller:
  "read_frames buf w = (Inr (Some b), w') \<Longrightarrow> length (concat (ws_in w')) < length (concat (ws_in w))"
proof (induction buf w rule: read_frames.induct)
  case (1 buf w)
  have alive: "ws_alive w" using "1.prems" by (simp add: read_frames.simps [of buf w] split: if_splits)
  obtain x segs where r: "recv_next w = (x, segs)" by fastforce
  obtain f where x: "x = Inr f" using "1.prems" alive r by (cases x) (simp_all add: read_frames.simps [of buf w])
  have lt: "length (concat segs) < length (concat (ws_in w))" using recv_next_smaller r x by blast
  let ?w1 = "w\<lparr>ws_in := segs\<rparr>"
  let ?p = "case fr_payload f of None \<Rightarrow> [] | Some p \<Rightarrow> p"
  note IH = "1.IH" [OF alive r [symmetric] x refl refl]
  note unf = read_frames.simps [of buf w]
  consider "fr_opcode f = 2 \<or> fr_opcode f = 0" | "fr_opcode f = 9" | "fr_opcode f = 10"
    using "1.prems" alive r x
    by (auto simp: unf Let_def end_connection_def split: if_splits prod.splits sum.splits)
  then show ?case
  proof cases
    case 1
    show ?thesis
    proof (cases "fr_fin f")
      case True
      then show ?thesis using "1.prems" alive r x 1 lt by (auto simp: unf Let_def)
    next
      case False
      then have "read_frames (buf @ ?p) ?w1 = (Inr (Some b), w')"
        using "1.prems" alive r x 1 by (auto simp: unf Let_def)
      with IH(1) 1 False lt show ?thesis by fastforce
    qed
  next
    case 2
    obtain y w2 where s: "send_pong ?p ?w1 = (y, w2)" by fastforce
    then obtain u where y: "y = Inr u" and rest: "read_frames buf w2 = (Inr (Some b), w')"
      using "1.prems" alive r x 2 by (cases y) (auto simp: unf Let_def)
    have "length (concat (ws_in w')) < length (concat (ws_in w2))"
      by (rule IH(2) [OF _ _ _ s [symmetric] y rest]) (use 2 in simp_all)
    with send_pong_in [OF s] lt show ?thesis by simp
  next
    case 3
    then have "read_frames buf ?w1 = (Inr (Some b), w')" using "1.prems" alive r x by (simp add: unf Let_def)
    with IH(3) 3 lt show ?thesis by fastforce
  qed
qed

text \<open>\<open>WebsocketHandler.read\<close>: what is left of the buffer and frames until there are \<open>n\<close> bytes.\<close>

function ws_read_loop :: "nat \<Rightarrow> bytes \<Rightarrow> ws \<Rightarrow> (py_error + bytes) \<times> ws" where
  "ws_read_loop n buffer w =
     (if length buffer < n then
        (case read_frames buffer w of
           (Inl e, w1) \<Rightarrow> (Inl e, w1)
         | (Inr None, w1) \<Rightarrow> (Inl TypeError, w1)
         | (Inr (Some buffer1), w1) \<Rightarrow> ws_read_loop n buffer1 w1)
      else (Inr buffer, w))"
  by pat_completeness auto
termination
  by (relation "measure (\<lambda>(n, buffer, w). length (concat (ws_in w)))")
     (auto dest!: read_frames_smaller [OF sym])

declare ws_read_loop.simps [simp del]

definition ws_read :: "nat \<Rightarrow> ws \<Rightarrow> (py_error + bytes) \<times> ws" where
  "ws_read n w =
     (case ws_read_loop n (ws_buf w) (w\<lparr>ws_buf := []\<rparr>) of
        (Inl e, w1) \<Rightarrow> (Inl e, w1)
      | (Inr buffer, w1) \<Rightarrow> (Inr (take n buffer), w1\<lparr>ws_buf := drop n buffer\<rparr>))"

text \<open>\<open>send_bytes\<close>: pieces of at most \<open>OUT_SIZE\<close> bytes, the last one with the FIN bit.\<close>

function send_loop :: "nat \<Rightarrow> bytes \<Rightarrow> bytes \<Rightarrow> ws \<Rightarrow> (py_error + unit) \<times> ws" where
  "send_loop opcode data buffer w =
     (let n = take OUT_SIZE buffer; fin = (n = [])
      in case ws_send \<lparr>fr_opcode = opcode, fr_fin = fin, fr_masked = False, fr_payload = Some data\<rparr> w of
           (Inl e, w1) \<Rightarrow> (Inl e, w1)
         | (Inr _, w1) \<Rightarrow>
             if fin then (Inr (), w1) else send_loop OP_CONTINUATION n (drop OUT_SIZE buffer) w1)"
  by pat_completeness auto
termination
  by (relation "measure (\<lambda>(opcode, data, buffer, w). length buffer)")
     (auto simp: OUT_SIZE_def intro: diff_less)

declare send_loop.simps [simp del]

definition ws_send_bytes :: "bytes \<Rightarrow> ws \<Rightarrow> (py_error + unit) \<times> ws" where
  "ws_send_bytes payload = send_loop OP_BYTES (take OUT_SIZE payload) (drop OUT_SIZE payload)"

text \<open>\<open>SocketHandler.write\<close>; the lock is held for the whole call.\<close>

definition ws_write :: "bytes \<Rightarrow> ws \<Rightarrow> (py_error + unit) \<times> ws" where
  "ws_write data w =
     (case ws_send_bytes data w of
        (Inl e, w1) \<Rightarrow> (Inl (if e \<in> {OSError, ConnectionError} then ConnectionError else e), w1)
      | (Inr r, w1) \<Rightarrow> (Inr r, w1))"

section \<open>Frames on the wire\<close>

text \<open>
  A frame as the protocol lays it out, with a masking key (from a client) or without: the
  length in 7 bits, or 126 and two bytes, or 127 and eight bytes.
\<close>

definition big_endian :: "nat \<Rightarrow> nat \<Rightarrow> bytes" where
  "big_endian k n = map (\<lambda>i. word_of_nat (n div 256 ^ i)) (rev [0..<k])"

definition wire_frame :: "nat \<Rightarrow> bool \<Rightarrow> bytes option \<Rightarrow> bytes \<Rightarrow> bytes" where
  "wire_frame opcode fin key payload =
     (let n = length payload; m = (if key = None then 0 else 128)
      in word_of_nat ((if fin then 128 else 0) + opcode)
         # (if n < 126 then [word_of_nat (m + n)]
            else if n < 65536 then word_of_nat (m + 126) # big_endian 2 n
            else word_of_nat (m + 127) # big_endian 8 n)
         @ (case key of None \<Rightarrow> payload
            | Some k \<Rightarrow> k @ map (\<lambda>i. payload ! i XOR k ! (i mod 4)) [0..<length payload]))"

lemma recv_exact: "n = length bs \<Longrightarrow> bs \<noteq> [] \<Longrightarrow>
    recv n ((bs @ rest) # segs) = (bs, if rest = [] then segs else rest # segs)"
  by simp

lemma from_big_endian_append: "from_big_endian (bs @ [b]) = from_big_endian bs * 256 + unat b"
  by (simp add: from_big_endian_def)

lemma big_endian_Suc: "big_endian (Suc k) n = big_endian k (n div 256) @ [word_of_nat n]"
proof -
  have "rev [0..<Suc k] = map Suc (rev [0..<k]) @ [0]"
    by (simp add: map_Suc_upt rev_map [symmetric] upt_conv_Cons del: upt_Suc)
  then show ?thesis by (simp add: big_endian_def comp_def div_mult2_eq del: upt_Suc)
qed

lemma length_big_endian [simp]: "length (big_endian k n) = k"
  by (simp add: big_endian_def)

lemma from_big_endian_big_endian: "n < 256 ^ k \<Longrightarrow> from_big_endian (big_endian k n) = n"
proof (induction k arbitrary: n)
  case 0
  then show ?case by (simp add: big_endian_def)
next
  case (Suc k)
  then have "n div 256 < 256 ^ k" by (simp add: div_less_iff_less_mult mult.commute)
  moreover have "unat (word_of_nat n :: byte) = n mod 256" by (simp add: unat_of_nat)
  ultimately show ?case using Suc.IH by (simp add: big_endian_Suc from_big_endian_append)
qed

lemma unmask_masked:
  assumes "length key = 4"
  shows "unmask key (map (\<lambda>i. p ! i XOR key ! (i mod 4)) [0..<length p]) = Inr p"
proof -
  have "unmask key (map (\<lambda>i. p ! i XOR key ! (i mod 4)) [0..<length p]) =
      mapR (\<lambda>i. Inr (p ! i)) [0..<length p]"
    unfolding unmask_def using assms
    by (intro mapR_cong) (auto simp: xor.assoc)
  then show ?thesis by (simp add: map_nth)
qed

lemma header_bits:
  assumes "opcode < 16"
  shows "(word_of_nat ((if fin then 128 else 0) + opcode) AND 128 = (128 :: byte)) = fin"
    and "unat (word_of_nat ((if fin then 128 else 0) + opcode) AND (15 :: byte)) = opcode"
proof -
  have "\<forall>k\<in>set [0..<16]. ((word_of_nat (128 + k) AND 128 = (128 :: byte)) \<and> (word_of_nat k AND 128 \<noteq> (128 :: byte))
      \<and> unat (word_of_nat (128 + k) AND (15 :: byte)) = k \<and> unat (word_of_nat k AND (15 :: byte)) = k)"
    by code_simp
  moreover have "opcode \<in> set [0..<16]" using assms by simp
  ultimately show "(word_of_nat ((if fin then 128 else 0) + opcode) AND 128 = (128 :: byte)) = fin"
    "unat (word_of_nat ((if fin then 128 else 0) + opcode) AND (15 :: byte)) = opcode"
    by (cases fin; fastforce)+
qed

lemma length_bits:
  assumes "k < 128"
  shows "(word_of_nat ((if m then 128 else 0) + k) AND 128 = (128 :: byte)) = m"
    and "unat (word_of_nat ((if m then 128 else 0) + k) AND (127 :: byte)) = k"
proof -
  have "\<forall>k\<in>set [0..<128]. ((word_of_nat (128 + k) AND 128 = (128 :: byte)) \<and> (word_of_nat k AND 128 \<noteq> (128 :: byte))
      \<and> unat (word_of_nat (128 + k) AND (127 :: byte)) = k \<and> unat (word_of_nat k AND (127 :: byte)) = k)"
    by code_simp
  moreover have "k \<in> set [0..<128]" using assms by simp
  ultimately show "(word_of_nat ((if m then 128 else 0) + k) AND 128 = (128 :: byte)) = m"
    "unat (word_of_nat ((if m then 128 else 0) + k) AND (127 :: byte)) = k"
    by (cases m; fastforce)+
qed

text \<open>What is left of the first segment.\<close>

definition after :: "bytes \<Rightarrow> segments \<Rightarrow> segments" where
  "after rest segs = (if rest = [] then segs else rest # segs)"

lemma recv_after: "n = length bs \<Longrightarrow> bs \<noteq> [] \<Longrightarrow> recv n (after (bs @ rest) segs) = (bs, after rest segs)"
  by (simp add: after_def)

lemma recv_header: "recv 2 ((a # b # rest) # segs) = ([a, b], after rest segs)"
  by (simp add: after_def)

definition frame_body :: "bytes option \<Rightarrow> bytes \<Rightarrow> bytes" where
  "frame_body key payload =
     (case key of None \<Rightarrow> payload
      | Some k \<Rightarrow> k @ map (\<lambda>i. payload ! i XOR k ! (i mod 4)) [0..<length payload])"

lemma recv_body:
  assumes key: "\<And>k. key = Some k \<Longrightarrow> length k = 4"
  shows "recv_payload (length payload) (key \<noteq> None) (after (frame_body key payload @ rest) segs) =
    (Inr payload, after rest segs)"
proof (cases key)
  case None
  then show ?thesis
    using recv_after [of "length payload" payload rest segs] by (simp add: frame_body_def recv_payload_def)
next
  case (Some k)
  let ?m = "map (\<lambda>i. payload ! i XOR k ! (i mod 4)) [0..<length payload]"
  have k: "length k = 4" by (rule key [OF Some])
  then have ne: "k \<noteq> []" by auto
  show ?thesis
  proof (cases "payload = []")
    case True
    then show ?thesis using Some k ne recv_after [of 4 k rest segs] by (simp add: frame_body_def recv_payload_def)
  next
    case False
    have "frame_body key payload @ rest = (k @ ?m) @ rest" by (simp only: Some frame_body_def option.case)
    moreover have "length payload + 4 = length (k @ ?m)" using k by simp
    ultimately have "recv (length payload + 4) (after (frame_body key payload @ rest) segs) = (k @ ?m, after rest segs)"
      using ne recv_after [of "length payload + 4" "k @ ?m" rest segs] by simp
    then show ?thesis using False Some k unmask_masked [OF k, of payload] by (simp add: recv_payload_def)
  qed
qed

lemma length_code:
  "k = 126 \<or> k = 127 \<Longrightarrow> (word_of_nat ((if m then 128 else 0) + k) AND 128 = (128 :: byte)) = m"
  "k = 126 \<or> k = 127 \<Longrightarrow> unat (word_of_nat ((if m then 128 else 0) + k) AND (127 :: byte)) = k"
  using length_bits [of k m] by auto

lemma recv_wire_frame:
  assumes "opcode < 16" and "\<And>k. key = Some k \<Longrightarrow> length k = 4" and "length payload < 2 ^ 64"
  shows "recv_frame ((wire_frame opcode fin key payload @ rest) # segs) =
    (Inr \<lparr>fr_opcode = opcode, fr_fin = fin, fr_masked = (key \<noteq> None), fr_payload = Some payload\<rparr>, after rest segs)"
proof -
  let ?n = "length payload"
  let ?h0 = "word_of_nat ((if fin then 128 else 0) + opcode) :: byte"
  let ?m = "(if key \<noteq> None then 128 else 0 :: nat)"
  let ?body = "frame_body key payload"
  note body = recv_body [OF assms(2), where payload = payload and rest = rest and segs = segs]
  note h0 = header_bits [OF assms(1), of fin]
  have wire: "wire_frame opcode fin key payload = ?h0 # (if ?n < 126 then [word_of_nat (?m + ?n)]
      else if ?n < 65536 then word_of_nat (?m + 126) # big_endian 2 ?n
      else word_of_nat (?m + 127) # big_endian 8 ?n) @ ?body"
    by (simp add: wire_frame_def frame_body_def Let_def)
  consider "?n < 126" | "126 \<le> ?n" "?n < 65536" | "65536 \<le> ?n" by linarith
  then show ?thesis
  proof cases
    case 1
    note len = length_bits [of ?n "key \<noteq> None"]
    have "recv 2 ((wire_frame opcode fin key payload @ rest) # segs) =
        ([?h0, word_of_nat (?m + ?n)], after (?body @ rest) segs)"
      using recv_header [of ?h0 "word_of_nat (?m + ?n)" "?body @ rest" segs] 1 by (simp add: wire)
    with 1 len h0 body show ?thesis by (simp add: recv_frame_def recv_payload_len_def Let_def)
  next
    case 2
    have r2: "recv 2 ((wire_frame opcode fin key payload @ rest) # segs) =
        ([?h0, word_of_nat (?m + 126)], after (big_endian 2 ?n @ ?body @ rest) segs)"
      using recv_header [of ?h0 "word_of_nat (?m + 126)" "big_endian 2 ?n @ ?body @ rest" segs] 2
      by (simp add: wire)
    have b: "recv 2 (after (big_endian 2 ?n @ ?body @ rest) segs) = (big_endian 2 ?n, after (?body @ rest) segs)"
      by (rule recv_after) (simp_all add: big_endian_def numeral_2_eq_2)
    have "from_big_endian (big_endian 2 ?n) = ?n" using 2 by (intro from_big_endian_big_endian) simp
    with r2 b length_code [of 126 "key \<noteq> None"] h0 body show ?thesis
      by (simp add: recv_frame_def recv_payload_len_def Let_def)
  next
    case 3
    have r2: "recv 2 ((wire_frame opcode fin key payload @ rest) # segs) =
        ([?h0, word_of_nat (?m + 127)], after (big_endian 8 ?n @ ?body @ rest) segs)"
      using recv_header [of ?h0 "word_of_nat (?m + 127)" "big_endian 8 ?n @ ?body @ rest" segs] 3
      by (simp add: wire)
    have ne: "big_endian 8 ?n \<noteq> []" by (metis length_big_endian list.size(3) zero_neq_numeral)
    have b: "recv 8 (after (big_endian 8 ?n @ ?body @ rest) segs) = (big_endian 8 ?n, after (?body @ rest) segs)"
      by (rule recv_after) (simp_all add: ne)
    have "from_big_endian (big_endian 8 ?n) = ?n" using assms(3) by (intro from_big_endian_big_endian) simp
    with r2 b length_code [of 127 "key \<noteq> None"] h0 body show ?thesis
      by (simp add: recv_frame_def recv_payload_len_def Let_def)
  qed
qed

text \<open>
  What \<open>recv\<close> needs the whole frame for: when a masked frame comes in two segments, cut inside its
  payload, the first part is taken for the whole payload, and the rest is what the header of the
  next frame is read from.
\<close>

theorem split_frame_misread:
  assumes "opcode < 16" and "length key = 4" and "length payload < 126" and "0 < j" and "j < length payload"
  shows "\<exists>h l body. wire_frame opcode fin (Some key) payload = h # l # key @ body
    \<and> recv_frame ((h # l # key @ take j body) # drop j body # segs) =
        (Inr \<lparr>fr_opcode = opcode, fr_fin = fin, fr_masked = True, fr_payload = Some (take j payload)\<rparr>, drop j body # segs)"
proof -
  let ?h = "word_of_nat ((if fin then 128 else 0) + opcode) :: byte" and ?l = "word_of_nat (128 + length payload) :: byte"
  let ?mask = "\<lambda>p. map (\<lambda>i. p ! i XOR key ! (i mod 4)) [0..<length p]"
  let ?body = "?mask payload"
  have wire: "wire_frame opcode fin (Some key) payload = ?h # ?l # key @ ?body"
    using assms(3) by (simp add: wire_frame_def Let_def)
  have part: "take j ?body = ?mask (take j payload)" using assms(5) by (simp add: take_map)
  have "recv (length payload + 4) ((key @ take j ?body) # drop j ?body # segs) = (key @ take j ?body, drop j ?body # segs)"
    using assms(2,5) by simp
  then have "recv_payload (length payload) True ((key @ take j ?body) # drop j ?body # segs) =
      (Inr (take j payload), drop j ?body # segs)"
    unfolding part using assms(2,4,5) unmask_masked [OF assms(2), of "take j payload"]
    by (auto simp: recv_payload_def)
  moreover have "recv 2 ((?h # ?l # key @ take j ?body) # drop j ?body # segs) =
      ([?h, ?l], (key @ take j ?body) # drop j ?body # segs)"
    using assms(2) recv_header [of ?h ?l "key @ take j ?body" "drop j ?body # segs"] by (auto simp: after_def)
  ultimately have "recv_frame ((?h # ?l # key @ take j ?body) # drop j ?body # segs) =
      (Inr \<lparr>fr_opcode = opcode, fr_fin = fin, fr_masked = True, fr_payload = Some (take j payload)\<rparr>, drop j ?body # segs)"
    using header_bits [OF assms(1), of fin] length_bits [of "length payload" True] assms(3)
    by (simp add: recv_frame_def recv_payload_len_def Let_def)
  with wire show ?thesis by blast
qed

section \<open>What the broker sends\<close>

lemma shifted_bytes_eq: "shifted_bytes n (rev [0..<k]) = big_endian k n"
proof -
  have m: "(word_of_nat (k mod 256) :: byte) = word_of_nat k" for k
    by (simp add: word_unat_eq_iff unat_of_nat)
  have a: "k AND 255 = k mod (256 :: nat)" for k
    using take_bit_eq_mask [of 8 k] by (simp add: mask_eq_exp_minus_1 take_bit_eq_mod)
  have "(2 :: nat) ^ (i * 8) = 256 ^ i" for i
    by (simp add: power_mult mult.commute [of i 8])
  then show ?thesis
    by (simp add: shifted_bytes_def big_endian_def a m drop_bit_eq_div)
qed

lemma shifted_bytes_2: "shifted_bytes n [1, 0] = big_endian 2 n"
  and shifted_bytes_7: "shifted_bytes n [6, 5, 4, 3, 2, 1, 0] = big_endian 7 n"
  using shifted_bytes_eq [of n 2] shifted_bytes_eq [of n 7] by (simp_all add: upt_rec numeral_eq_Suc)

lemma first_byte: "opcode < 16 \<Longrightarrow> push_bit 7 (of_bool fin) XOR opcode = (if fin then 128 else 0) + (opcode :: nat)"
proof -
  have "\<forall>k\<in>set [0..<16]. (128 :: nat) XOR k = 128 + k" by code_simp
  moreover assume "opcode < 16"
  then have "opcode \<in> set [0..<16]" by simp
  ultimately show ?thesis by (simp add: push_bit_eq_mult)
qed

lemma mask_0: "push_bit 7 0 XOR k = (k :: nat)"
  by simp

lemma frame_bytes_wire:
  assumes "fr_opcode f < 16" and "fr_payload f = Some p" and "length p < 65535"
  shows "frame_bytes f = Inr (wire_frame (fr_opcode f) (fr_fin f) None p)"
proof -
  have "(if fr_fin f then 128 else 0) + fr_opcode f < 256" using assms(1) by simp
  then show ?thesis
    using assms shifted_bytes_2 [of "length p"] by (simp add: frame_bytes_def wire_frame_def Let_def first_byte)
qed

text \<open>The pieces of a payload and the frames they are sent in.\<close>

fun piece_frames :: "nat \<Rightarrow> bytes list \<Rightarrow> bytes list" where
  "piece_frames opcode [] = []"
| "piece_frames opcode (d # ds) = wire_frame opcode (ds = []) None d # piece_frames 0 ds"

lemma send_loop_frames:
  assumes "ws_open w" and "opcode < 16" and "length data \<le> OUT_SIZE"
  shows "\<exists>ds. send_loop opcode data buffer w =
      (Inr (), w\<lparr>ws_sent := ws_sent w @ piece_frames opcode (data # ds)\<rparr>)
    \<and> concat ds = buffer \<and> (\<forall>d\<in>set ds. d \<noteq> [] \<and> length d \<le> OUT_SIZE)"
  using assms
proof (induction opcode data buffer w rule: send_loop.induct)
  case (1 opcode data buffer w)
  let ?n = "take OUT_SIZE buffer"
  let ?f = "\<lparr>fr_opcode = opcode, fr_fin = (?n = []), fr_masked = False, fr_payload = Some data\<rparr>"
  let ?w1 = "w\<lparr>ws_sent := ws_sent w @ [wire_frame opcode (?n = []) None data]\<rparr>"
  have "frame_bytes ?f = Inr (wire_frame opcode (?n = []) None data)"
    using frame_bytes_wire [of ?f data] "1.prems" by (simp add: OUT_SIZE_def)
  then have s: "ws_send ?f w = (Inr (), ?w1)" using "1.prems"(1) by (simp add: ws_send_def)
  show ?case
  proof (cases "buffer = []")
    case True
    with s show ?thesis by (intro exI [of _ "[]"]) (simp add: send_loop.simps [of opcode data "[]" w] Let_def)
  next
    case False
    then have ne: "?n \<noteq> []" by (simp add: OUT_SIZE_def)
    have w1: "ws_open ?w1" using "1.prems"(1) by simp
    have "length ?n \<le> OUT_SIZE" by simp
    with "1.IH" [OF refl refl s [symmetric] refl ne w1] obtain ds where ds:
      "send_loop 0 ?n (drop OUT_SIZE buffer) ?w1 = (Inr (), ?w1\<lparr>ws_sent := ws_sent ?w1 @ piece_frames 0 (?n # ds)\<rparr>)"
      "concat ds = drop OUT_SIZE buffer" "\<forall>d\<in>set ds. d \<noteq> [] \<and> length d \<le> OUT_SIZE"
      by auto
    show ?thesis
      using s ds ne by (intro exI [of _ "?n # ds"]) (simp add: send_loop.simps [of opcode data buffer w] Let_def)
  qed
qed

text \<open>
  Writing over a WebSocket. The bytes of a packet, however many, are sent in order in
  pieces of at most 2040 bytes, each in one well-formed frame, the first a binary frame, the
  others continuations, and exactly the last one with the FIN bit; on a closed socket nothing is
  sent and writing raises \<open>ConnectionError\<close>.
\<close>

theorem send_bytes_frames:
  "if ws_open w
   then \<exists>ds. ws_write payload w = (Inr (), w\<lparr>ws_sent := ws_sent w @ piece_frames 2 ds\<rparr>)
     \<and> concat ds = payload \<and> ds \<noteq> [] \<and> list_all (\<lambda>d. length d \<le> 2040) ds
   else ws_write payload w = (Inl ConnectionError, w)"
proof (cases "ws_open w")
  case True
  have "length (take OUT_SIZE payload) \<le> OUT_SIZE" by simp
  from send_loop_frames [OF True _ this, of 2 "drop OUT_SIZE payload"] obtain ds where
    "ws_send_bytes payload w = (Inr (), w\<lparr>ws_sent := ws_sent w @ piece_frames 2 (take OUT_SIZE payload # ds)\<rparr>)"
    "concat ds = drop OUT_SIZE payload" "\<forall>d\<in>set ds. d \<noteq> [] \<and> length d \<le> OUT_SIZE"
    by (auto simp: ws_send_bytes_def)
  then show ?thesis using True
    by (simp add: ws_write_def) (intro exI [of _ "take OUT_SIZE payload # ds"], simp add: OUT_SIZE_def list_all_iff)
next
  case False
  have "fst (ws_send_bytes payload w) = Inl OSError \<and> snd (ws_send_bytes payload w) = w"
    using False unfolding ws_send_bytes_def
    by (subst (1 2) send_loop.simps)
      (simp add: Let_def ws_send_def frame_bytes_def)
  then show ?thesis using False by (cases "ws_send_bytes payload w") (simp add: ws_write_def)
qed

definition open_ws :: "segments \<Rightarrow> ws" where
  "open_ws segs = \<lparr>ws_alive = True, ws_open = True, ws_in = segs, ws_buf = [], ws_sent = []\<rparr>"

text \<open>
  A frame with 65535 bytes or more is written with seven bytes of length instead of eight.
  Whoever reads it takes the first byte of the payload for the last byte of the length, and
  answers the payload without it. Such a frame is sent in answer to a PING of that size.
\<close>

theorem long_frame_misread:
  assumes "fr_opcode f < 16" and "fr_payload f = Some (b # p)" and "65535 \<le> length (b # p)" and "length (b # p) < 2 ^ 48"
  shows "\<exists>bs. frame_bytes f = Inr bs \<and> recv_frame [bs] =
    (Inr \<lparr>fr_opcode = fr_opcode f, fr_fin = fr_fin f, fr_masked = False, fr_payload = Some p\<rparr>, [])"
proof -
  let ?n = "length (b # p)"
  let ?h0 = "word_of_nat ((if fr_fin f then 128 else 0) + fr_opcode f) :: byte"
  let ?len = "shifted_bytes ?n [6, 5, 4, 3, 2, 1, 0]"
  have fits: "(if fr_fin f then 128 else 0) + fr_opcode f < 256" using assms(1) by simp
  have l7: "length ?len = 7" by (simp add: shifted_bytes_def)
  have big: "?len = big_endian 7 ?n" by (rule shifted_bytes_7)
  have bytes: "frame_bytes f = Inr (?h0 # 127 # ?len @ b # p)"
    using assms fits by (simp add: frame_bytes_def Let_def first_byte)
  have r2: "recv 2 [?h0 # 127 # ?len @ b # p] = ([?h0, 127], [(?len @ [b]) @ p])"
    using recv_header [of ?h0 127 "?len @ b # p" "[]"] by (simp add: after_def)
  have r8: "recv 8 [(?len @ [b]) @ p] = (?len @ [b], after p [])"
    using recv_after [of 8 "?len @ [b]" p "[]"] l7 by (simp add: after_def)
  have "from_big_endian ?len = ?n"
    unfolding big using assms(4) by (intro from_big_endian_big_endian) simp
  then have val: "from_big_endian (?len @ [b]) = ?n * 256 + unat b" by (simp add: from_big_endian_append)
  have p: "p \<noteq> []" using assms(3) by auto
  have rp: "recv (?n * 256 + unat b) (after p []) = (p, [])" using p by (simp add: after_def)
  note h = header_bits [OF assms(1), of "fr_fin f"]
  have "recv_frame [?h0 # 127 # ?len @ b # p] =
      (Inr \<lparr>fr_opcode = fr_opcode f, fr_fin = fr_fin f, fr_masked = False, fr_payload = Some p\<rparr>, [])"
    using r2 r8 val rp h by (simp add: recv_frame_def recv_payload_len_def recv_payload_def Let_def)
  with bytes show ?thesis by blast
qed

lemma long_frame_misread_witness:
  "\<exists>bs. frame_bytes \<lparr>fr_opcode = 10, fr_fin = True, fr_masked = False, fr_payload = Some (7 # replicate 65534 0)\<rparr> = Inr bs
    \<and> fst (recv_frame [bs]) = Inr \<lparr>fr_opcode = 10, fr_fin = True, fr_masked = False, fr_payload = Some (replicate 65534 0)\<rparr>"
  using long_frame_misread [of "\<lparr>fr_opcode = 10, fr_fin = True, fr_masked = False, fr_payload = Some (7 # replicate 65534 0)\<rparr>"
      7 "replicate 65534 0"] by fastforce

section \<open>What the broker reads\<close>

text \<open>The frames of a client: opcode, FIN, masking key, payload, each in a segment of its own.\<close>

type_synonym client_frame = "nat \<times> bool \<times> bytes \<times> bytes"

fun wire_of :: "client_frame \<Rightarrow> bytes" where
  "wire_of (opcode, fin, key, payload) = wire_frame opcode fin (Some key) payload"

fun client_frame_ok :: "client_frame \<Rightarrow> bool" where
  "client_frame_ok (opcode, fin, key, payload) \<longleftrightarrow>
     opcode \<in> {0, 2, 9, 10} \<and> length key = 4 \<and> length payload < 2 ^ 64
     \<and> (opcode = 9 \<longrightarrow> length payload < 65535)"

fun is_data_frame :: "client_frame \<Rightarrow> bool" where
  "is_data_frame (opcode, fin, key, payload) \<longleftrightarrow> opcode = 0 \<or> opcode = 2"

fun is_fin :: "client_frame \<Rightarrow> bool" where
  "is_fin (opcode, fin, key, payload) = fin"

fun payload_of :: "client_frame \<Rightarrow> bytes" where
  "payload_of (opcode, fin, key, payload) = payload"

definition stream :: "client_frame list \<Rightarrow> bytes" where
  "stream fs = concat (map payload_of (filter is_data_frame fs))"

text \<open>No message is left unfinished at the end.\<close>

definition complete :: "client_frame list \<Rightarrow> bool" where
  "complete fs \<longleftrightarrow> filter is_data_frame fs = [] \<or> is_fin (last (filter is_data_frame fs))"

text \<open>The answers to the PING frames.\<close>

definition pongs :: "client_frame list \<Rightarrow> bytes list" where
  "pongs fs = map (\<lambda>f. wire_frame 10 True None (payload_of f)) (filter (\<lambda>f. fst f = 9) fs)"

lemma complete_suffix: "complete (fs1 @ fs2) \<Longrightarrow> complete fs2"
  by (cases "filter is_data_frame fs2 = []") (auto simp: complete_def)

lemma stream_append [simp]: "stream (fs1 @ fs2) = stream fs1 @ stream fs2"
  by (simp add: stream_def)

lemma pongs_append [simp]: "pongs (fs1 @ fs2) = pongs fs1 @ pongs fs2"
  by (simp add: pongs_def)

lemma send_pong_wire:
  "ws_open w \<Longrightarrow> length p < 65535 \<Longrightarrow>
   send_pong p w = (Inr (), w\<lparr>ws_sent := ws_sent w @ [wire_frame 10 True None p]\<rparr>)"
  using frame_bytes_wire [of "\<lparr>fr_opcode = 10, fr_fin = True, fr_masked = False, fr_payload = Some p\<rparr>" p]
  by (simp add: send_pong_def ws_send_def)

text \<open>One frame at the head of the input.\<close>

lemma read_frames_Cons:
  assumes "client_frame_ok f" and "ws_alive w" and "ws_open w" and "ws_in w = wire_of f # segs"
  shows "read_frames buf w =
    (if is_data_frame f then
       (if is_fin f then (Inr (Some (buf @ payload_of f)), w\<lparr>ws_in := segs\<rparr>)
        else read_frames (buf @ payload_of f) (w\<lparr>ws_in := segs\<rparr>))
     else read_frames buf (w\<lparr>ws_in := segs, ws_sent := ws_sent w @ pongs [f]\<rparr>))"
proof -
  obtain opcode fin key p where f: "f = (opcode, fin, key, p)" by (cases f)
  have r: "recv_next w =
      (Inr \<lparr>fr_opcode = opcode, fr_fin = fin, fr_masked = True, fr_payload = Some p\<rparr>, segs)"
    using recv_wire_frame [of opcode "Some key" p fin "[]" segs] assms(1,3,4) by (auto simp: f after_def recv_next_def)
  consider "opcode = 0 \<or> opcode = 2" | "opcode = 9" | "opcode = 10" using assms(1) by (auto simp: f)
  then show ?thesis
  proof cases
    case 1
    then show ?thesis using assms(2) r by (subst read_frames.simps) (auto simp: f)
  next
    case 2
    then show ?thesis
      using assms(1-3) r send_pong_wire [of "w\<lparr>ws_in := segs\<rparr>" p]
      by (subst read_frames.simps) (simp add: f pongs_def)
  next
    case 3
    then show ?thesis using assms(2) r by (subst read_frames.simps) (simp add: f pongs_def)
  qed
qed

lemma read_frames_data:
  assumes "\<forall>f\<in>set fs. client_frame_ok f" and "complete fs" and "filter is_data_frame fs \<noteq> []"
    and "ws_alive w" and "ws_open w" and "ws_in w = map wire_of fs"
  shows "\<exists>fs1 fs2. fs = fs1 @ fs2 \<and> fs1 \<noteq> [] \<and> read_frames buf w =
    (Inr (Some (buf @ stream fs1)), w\<lparr>ws_in := map wire_of fs2, ws_sent := ws_sent w @ pongs fs1\<rparr>)"
  using assms
proof (induction fs arbitrary: buf w)
  case (Cons f fs)
  have step: "read_frames buf w =
    (if is_data_frame f then
       (if is_fin f then (Inr (Some (buf @ payload_of f)), w\<lparr>ws_in := map wire_of fs\<rparr>)
        else read_frames (buf @ payload_of f) (w\<lparr>ws_in := map wire_of fs\<rparr>))
     else read_frames buf (w\<lparr>ws_in := map wire_of fs, ws_sent := ws_sent w @ pongs [f]\<rparr>))"
    using Cons.prems by (intro read_frames_Cons) simp_all
  have fp: "is_data_frame f \<Longrightarrow> pongs [f] = []" by (cases f) (auto simp: pongs_def)
  show ?case
  proof (cases "is_data_frame f \<and> is_fin f")
    case True
    then have "read_frames buf w =
        (Inr (Some (buf @ stream [f])), w\<lparr>ws_in := map wire_of fs, ws_sent := ws_sent w @ pongs [f]\<rparr>)"
      using step fp by (simp add: stream_def)
    then show ?thesis by (intro exI [of _ "[f]"] exI [of _ fs]) simp
  next
    case False
    define w1 where "w1 = w\<lparr>ws_in := map wire_of fs, ws_sent := ws_sent w @ pongs [f]\<rparr>"
    have rest: "read_frames buf w = read_frames (buf @ stream [f]) w1"
      using step False fp by (auto simp: w1_def stream_def)
    have "filter is_data_frame fs \<noteq> []" "complete fs"
      using Cons.prems(2,3) False by (auto simp: complete_def split: if_splits)
    then obtain fs1 fs2 where "fs = fs1 @ fs2" "read_frames (buf @ stream [f]) w1 =
        (Inr (Some ((buf @ stream [f]) @ stream fs1)), w1\<lparr>ws_in := map wire_of fs2, ws_sent := ws_sent w1 @ pongs fs1\<rparr>)"
      using Cons.IH [of w1 "buf @ stream [f]"] Cons.prems by (auto simp: w1_def)
    then show ?thesis
      using rest stream_append [of "[f]" fs1] pongs_append [of "[f]" fs1]
      by (intro exI [of _ "f # fs1"] exI [of _ fs2]) (simp add: w1_def)
  qed
qed simp

lemma read_frames_none:
  assumes "\<forall>f\<in>set fs. client_frame_ok f" and "filter is_data_frame fs = []"
    and "ws_alive w" and "ws_open w" and "ws_in w = map wire_of fs"
  shows "fst (read_frames buf w) = Inl ConnectionError"
  using assms
proof (induction fs arbitrary: w)
  case Nil
  then show ?case by (subst read_frames.simps) (simp add: recv_next_def recv_frame_def)
next
  case (Cons f fs)
  then have "read_frames buf w = read_frames buf (w\<lparr>ws_in := map wire_of fs, ws_sent := ws_sent w @ pongs [f]\<rparr>)"
    using read_frames_Cons [of f w "map wire_of fs" buf] by (auto split: if_splits)
  with Cons.IH [of "w\<lparr>ws_in := map wire_of fs, ws_sent := ws_sent w @ pongs [f]\<rparr>"] Cons.prems show ?case
    by (auto split: if_splits)
qed

lemma ws_read_loop_spec:
  assumes "\<forall>f\<in>set fs. client_frame_ok f" and "complete fs" and "ws_alive w" and "ws_open w"
    and "ws_in w = map wire_of fs"
  shows "if n \<le> length (buffer @ stream fs)
    then \<exists>fs1 fs2. fs = fs1 @ fs2 \<and> n \<le> length (buffer @ stream fs1) \<and> ws_read_loop n buffer w =
      (Inr (buffer @ stream fs1), w\<lparr>ws_in := map wire_of fs2, ws_sent := ws_sent w @ pongs fs1\<rparr>)
    else fst (ws_read_loop n buffer w) = Inl ConnectionError"
  using assms
proof (induction "length fs" arbitrary: fs buffer w rule: less_induct)
  case less
  show ?case
  proof (cases "length buffer < n")
    case False
    then have "ws_read_loop n buffer w = (Inr (buffer @ stream []),
        w\<lparr>ws_in := map wire_of fs, ws_sent := ws_sent w @ pongs []\<rparr>)"
      using less.prems(5) by (simp add: ws_read_loop.simps stream_def pongs_def)
    then have "fs = [] @ fs \<and> n \<le> length (buffer @ stream []) \<and> ws_read_loop n buffer w =
        (Inr (buffer @ stream []), w\<lparr>ws_in := map wire_of fs, ws_sent := ws_sent w @ pongs []\<rparr>)"
      using False by simp
    then have "\<exists>fs1 fs2. fs = fs1 @ fs2 \<and> n \<le> length (buffer @ stream fs1) \<and> ws_read_loop n buffer w =
        (Inr (buffer @ stream fs1), w\<lparr>ws_in := map wire_of fs2, ws_sent := ws_sent w @ pongs fs1\<rparr>)"
      by blast
    then show ?thesis using False by simp
  next
    case True
    show ?thesis
    proof (cases "filter is_data_frame fs = []")
      case none: True
      then have "stream fs = []" by (simp add: stream_def)
      moreover have "fst (ws_read_loop n buffer w) = Inl ConnectionError"
        using True read_frames_none [OF less.prems(1) none less.prems(3-5), of buffer]
        by (cases "read_frames buffer w") (simp add: ws_read_loop.simps [of n buffer w])
      ultimately show ?thesis using True by simp
    next
      case some: False
      obtain fs1 fs2 where f: "fs = fs1 @ fs2" "fs1 \<noteq> []" "read_frames buffer w =
          (Inr (Some (buffer @ stream fs1)), w\<lparr>ws_in := map wire_of fs2, ws_sent := ws_sent w @ pongs fs1\<rparr>)"
        using read_frames_data [OF less.prems(1,2) some less.prems(3-5), of buffer] by blast
      let ?w1 = "w\<lparr>ws_in := map wire_of fs2, ws_sent := ws_sent w @ pongs fs1\<rparr>"
      have step: "ws_read_loop n buffer w = ws_read_loop n (buffer @ stream fs1) ?w1"
        using True f(3) by (simp add: ws_read_loop.simps [of n buffer w])
      have "length fs2 < length fs" using f(1,2) by simp
      from less.hyps [OF this, of ?w1 "buffer @ stream fs1"] less.prems complete_suffix [of fs1 fs2]
      have IH: "if n \<le> length (buffer @ stream fs)
        then \<exists>fs3 fs4. fs2 = fs3 @ fs4 \<and> n \<le> length ((buffer @ stream fs1) @ stream fs3)
          \<and> ws_read_loop n (buffer @ stream fs1) ?w1 = (Inr ((buffer @ stream fs1) @ stream fs3),
             ?w1\<lparr>ws_in := map wire_of fs4, ws_sent := ws_sent ?w1 @ pongs fs3\<rparr>)
        else fst (ws_read_loop n (buffer @ stream fs1) ?w1) = Inl ConnectionError"
        by (simp add: f(1))
      show ?thesis
      proof (cases "n \<le> length (buffer @ stream fs)")
        case True
        with IH obtain fs3 fs4 where "fs2 = fs3 @ fs4" "n \<le> length ((buffer @ stream fs1) @ stream fs3)"
          "ws_read_loop n (buffer @ stream fs1) ?w1 = (Inr ((buffer @ stream fs1) @ stream fs3),
             ?w1\<lparr>ws_in := map wire_of fs4, ws_sent := ws_sent ?w1 @ pongs fs3\<rparr>)" by auto
        then have "fs = (fs1 @ fs3) @ fs4 \<and> n \<le> length (buffer @ stream (fs1 @ fs3)) \<and> ws_read_loop n buffer w =
            (Inr (buffer @ stream (fs1 @ fs3)), w\<lparr>ws_in := map wire_of fs4, ws_sent := ws_sent w @ pongs (fs1 @ fs3)\<rparr>)"
          by (simp add: f(1) step)
        then have "\<exists>fs1 fs2. fs = fs1 @ fs2 \<and> n \<le> length (buffer @ stream fs1) \<and> ws_read_loop n buffer w =
            (Inr (buffer @ stream fs1), w\<lparr>ws_in := map wire_of fs2, ws_sent := ws_sent w @ pongs fs1\<rparr>)"
          by blast
        with True show ?thesis by simp
      next
        case False
        with IH step show ?thesis by simp
      qed
    qed
  qed
qed

text \<open>
  Reading over a WebSocket is reading the stream of the payloads. Whatever the client's
  frames (fragmented messages, PING and PONG in between, each arriving as one piece), \<open>read(n)\<close> answers the next \<open>n\<close> bytes
  of the concatenated payloads, leaves the rest for the next call, answers each PING it passes
  by a PONG with the same payload, and fails exactly when the stream is too short.
\<close>

theorem ws_read_refines:
  assumes "\<forall>f\<in>set fs. client_frame_ok f" and "complete fs" and "ws_alive w" and "ws_open w"
    and "ws_in w = map wire_of fs"
  shows "case read_bytes n (ws_buf w @ stream fs) of
      Inl e \<Rightarrow> fst (ws_read n w) = Inl ConnectionError
    | Inr (bs, rest) \<Rightarrow>
        \<exists>fs1 fs2 buf. fs = fs1 @ fs2 \<and> ws_read n w = (Inr bs,
          w\<lparr>ws_in := map wire_of fs2, ws_buf := buf, ws_sent := ws_sent w @ pongs fs1\<rparr>)
        \<and> buf @ stream fs2 = rest"
proof -
  let ?w0 = "w\<lparr>ws_buf := []\<rparr>"
  have spec: "if n \<le> length (ws_buf w @ stream fs)
    then \<exists>fs1 fs2. fs = fs1 @ fs2 \<and> n \<le> length (ws_buf w @ stream fs1) \<and> ws_read_loop n (ws_buf w) ?w0 =
      (Inr (ws_buf w @ stream fs1), ?w0\<lparr>ws_in := map wire_of fs2, ws_sent := ws_sent ?w0 @ pongs fs1\<rparr>)
    else fst (ws_read_loop n (ws_buf w) ?w0) = Inl ConnectionError"
    by (rule ws_read_loop_spec) (use assms in simp_all)
  show ?thesis
  proof (cases "n \<le> length (ws_buf w @ stream fs)")
    case True
    with spec obtain fs1 fs2 where f: "fs = fs1 @ fs2" "n \<le> length (ws_buf w @ stream fs1)"
      "ws_read_loop n (ws_buf w) ?w0 =
        (Inr (ws_buf w @ stream fs1), ?w0\<lparr>ws_in := map wire_of fs2, ws_sent := ws_sent ?w0 @ pongs fs1\<rparr>)" by auto
    define buf where "buf = drop n (ws_buf w @ stream fs1)"
    define bs where "bs = take n (ws_buf w @ stream fs1)"
    have r: "read_bytes n (ws_buf w @ stream fs) = Inr (bs, buf @ stream fs2)"
      using True f(1,2) by (simp add: read_bytes_def bs_def buf_def)
    have "ws_read n w = (Inr bs, w\<lparr>ws_in := map wire_of fs2, ws_buf := buf, ws_sent := ws_sent w @ pongs fs1\<rparr>)"
      using f(3) by (simp add: ws_read_def bs_def buf_def)
    with f(1) have "\<exists>fs1 fs2' buf'. fs = fs1 @ fs2' \<and> ws_read n w = (Inr bs,
          w\<lparr>ws_in := map wire_of fs2', ws_buf := buf', ws_sent := ws_sent w @ pongs fs1\<rparr>)
        \<and> buf' @ stream fs2' = buf @ stream fs2" by blast
    then show ?thesis by (simp only: r sum.case prod.case)
  next
    case False
    with spec have "fst (ws_read_loop n (ws_buf w) ?w0) = Inl ConnectionError" by simp
    then have "fst (ws_read n w) = Inl ConnectionError"
      by (auto simp: ws_read_def split: prod.splits sum.splits)
    with False show ?thesis by (simp add: read_bytes_def)
  qed
qed

lemma ws_read_refines_witness:
  "fst (ws_read 3 (open_ws (map wire_of [(2, False, [1, 2, 3, 4], [10, 11]), (9, True, [0, 0, 0, 0], []),
     (0, True, [5, 6, 7, 8], [12, 13])]))) = Inr [10, 11, 12]"
proof -
  let ?fs = "[(2, False, [1, 2, 3, 4], [10, 11]), (9, True, [0, 0, 0, 0], []), (0, True, [5, 6, 7, 8], [12, 13])]
      :: client_frame list"
  have s: "stream ?fs = [10, 11, 12, 13]" by (simp add: stream_def)
  have "complete ?fs" "\<forall>f\<in>set ?fs. client_frame_ok f" by (simp_all add: complete_def)
  moreover have "ws_alive (open_ws (map wire_of ?fs))" "ws_open (open_ws (map wire_of ?fs))"
    "ws_in (open_ws (map wire_of ?fs)) = map wire_of ?fs" "ws_buf (open_ws (map wire_of ?fs)) = []"
    by (simp_all add: open_ws_def)
  ultimately show ?thesis
    using ws_read_refines [of ?fs "open_ws (map wire_of ?fs)" 3] unfolding s by (auto simp: read_bytes_def)
qed

end
