(* ===== verification/Connections.thy ===== *)
theory Connections
  imports Packets Websocket
begin

text \<open>
  The interface between the packets and the connections: the methods of \<open>ReaderWriter\<close>
  (servers/streams.py) and the readers of the packets, over any implementation of its abstract
  method \<open>read\<close>. A locale states what \<open>read\<close> must do, and shows that then packets are read as
  from a list of bytes; it is interpreted on the list, on a socket and on a WebSocket.
\<close>

section \<open>Reading from a stateful connection\<close>

type_synonym ('s, 'a) io = "'s \<Rightarrow> (py_error + 'a) \<times> 's"

definition returnS :: "'a \<Rightarrow> ('s, 'a) io" where
  "returnS x s = (Inr x, s)"

definition liftS :: "py_error + 'a \<Rightarrow> ('s, 'a) io" where
  "liftS r s = (r, s)"

definition bindS :: "('s, 'a) io \<Rightarrow> ('a \<Rightarrow> ('s, 'b) io) \<Rightarrow> ('s, 'b) io" where
  "bindS m f s = (case m s of (Inl e, s1) \<Rightarrow> (Inl e, s1) | (Inr x, s1) \<Rightarrow> f x s1)"

type_synonym 's source = "nat \<Rightarrow> ('s, bytes) io"

definition rw_read_int :: "'s source \<Rightarrow> nat \<Rightarrow> ('s, nat) io" where
  "rw_read_int read n = bindS (read n) (\<lambda>data. returnS (from_big_endian data))"

definition rw_decode_str :: "'s source \<Rightarrow> ('s, string \<times> nat) io" where
  "rw_decode_str read =
     bindS (read 2) (\<lambda>length_bytes. bindS (liftS (unpack_H length_bytes)) (\<lambda>len.
       if len \<noteq> 0 then
         bindS (read len) (\<lambda>byte_str.
           returnS (case py_decode byte_str of Inr s \<Rightarrow> (s, len + 2)
                    | Inl _ \<Rightarrow> (bytes_repr byte_str, len + 2)))
       else returnS ([], 2)))"

definition rw_decode_bytes :: "'s source \<Rightarrow> ('s, bytes \<times> nat) io" where
  "rw_decode_bytes read =
     bindS (read 2) (\<lambda>length_bytes. bindS (liftS (unpack_H length_bytes)) (\<lambda>len.
       bindS (read len) (\<lambda>data. returnS (data, 2 + len))))"

text \<open>The multiplier starts with 1, so the loop is left after four rounds.\<close>

function rw_length_loop :: "'s source \<Rightarrow> nat \<Rightarrow> nat \<Rightarrow> ('s, nat) io" where
  "rw_length_loop read multiplier value s =
     (case bindS (read 1) (\<lambda>data. liftS (unpack_B data)) s of
        (Inl e, s1) \<Rightarrow> (Inl e, s1)
      | (Inr encoded_byte, s1) \<Rightarrow>
          (let b = word_of_nat encoded_byte :: byte; value' = value + unat (b AND 0x7F) * multiplier in
           if b AND 0x80 = 0 then (Inr value', s1)
           else if multiplier * 128 > 128 * 128 * 128 \<or> multiplier = 0 then (Inl OSError, s1)
           else rw_length_loop read (multiplier * 128) value' s1))"
  by pat_completeness auto
termination
  by (relation "measure (\<lambda>(read, multiplier, value, s). 128 * 128 * 128 * 128 - multiplier)") auto

declare rw_length_loop.simps [simp del]

definition rw_decode_packet_length :: "'s source \<Rightarrow> ('s, nat) io" where
  "rw_decode_packet_length read = rw_length_loop read 1 0"

definition rw_decode_header :: "'s source \<Rightarrow> ('s, nat \<times> nat) io" where
  "rw_decode_header read =
     bindS (read 1) (\<lambda>byte1. bindS (liftS (unpack_B byte1)) (\<lambda>int1.
       let w = word_of_nat int1 :: byte
       in returnS (unat (drop_bit 4 (w AND 0xF0)), unat (w AND 0x0F))))"

section \<open>Reading packets\<close>

fun rw_read_item :: "'s source \<Rightarrow> item_type \<Rightarrow> int \<Rightarrow> ('s, item_value \<times> nat) io" where
  "rw_read_item read (StaticInt n) len = bindS (rw_read_int read n) (\<lambda>i. returnS (VInt (int i), n))"
| "rw_read_item read PacketIdType len =
     bindS (read 2) (\<lambda>raw_data. bindS (liftS (unpack_H raw_data)) (\<lambda>i. returnS (VInt (int i), 2)))"
| "rw_read_item read DynamicStr len = bindS (rw_decode_str read) (\<lambda>(s, n). returnS (VStr s, n))"
| "rw_read_item read DynamicBytes len = bindS (rw_decode_bytes read) (\<lambda>(b, n). returnS (VBytes b, n))"
| "rw_read_item read RemainingBytes len =
     (if len < 1 then returnS (VNone, 0) else bindS (read (nat len)) (\<lambda>b. returnS (VBytes b, nat len)))"
| "rw_read_item read ConnectFlagsType len =
     bindS (rw_read_int read 1) (\<lambda>f. returnS (VConnectFlags (connect_flags_from_int (int f)), 1))"

function rw_list_loop :: "(int \<Rightarrow> ('s, 'v \<times> nat) io) \<Rightarrow> int \<Rightarrow> ('s, 'v list \<times> nat) io" where
  "rw_list_loop rd len s =
     (if len > 0 then
        (case rd len s of
           (Inl e, s1) \<Rightarrow> (Inl e, s1)
         | (Inr (item, read_length), s1) \<Rightarrow>
             if read_length = 0 then (Inl OutsideModel, s1)
             else bindS (rw_list_loop rd (len - int read_length))
                    (\<lambda>(items, byte_count). returnS (item # items, read_length + byte_count)) s1)
      else (Inr ([], 0), s))"
  by pat_completeness auto
termination
  by (relation "measure (\<lambda>(rd, len, s). nat len)") auto

declare rw_list_loop.simps [simp del]

fun rw_read_record :: "'s source \<Rightarrow> (string \<times> item_type) list \<Rightarrow> int \<Rightarrow> ('s, (string \<times> item_value) list \<times> nat) io" where
  "rw_read_record read [] len = returnS ([], 0)"
| "rw_read_record read ((name, subtype) # rest) len =
     bindS (rw_read_item read subtype len) (\<lambda>(v, n).
       bindS (rw_read_record read rest (len - int n)) (\<lambda>(kvs, k). returnS ((name, v) # kvs, n + k)))"

fun rw_read_field :: "'s source \<Rightarrow> field_type \<Rightarrow> int \<Rightarrow> ('s, field_value \<times> nat) io" where
  "rw_read_field read (Item t) len = bindS (rw_read_item read t len) (\<lambda>(v, n). returnS (Value v, n))"
| "rw_read_field read (ListOf t) len =
     bindS (rw_list_loop (rw_read_item read t) len) (\<lambda>(vs, n). returnS (Items vs, n))"
| "rw_read_field read (ListOfRecord fs) len =
     bindS (rw_list_loop (rw_read_record read fs) len) (\<lambda>(rs, n). returnS (Records rs, n))"

fun rw_read_payload ::
    "'s source \<Rightarrow> field list \<Rightarrow> packet_flags \<Rightarrow> int \<Rightarrow> kwargs \<Rightarrow> ('s, kwargs \<times> nat) io" where
  "rw_read_payload read [] flags len kwargs = returnS (kwargs, 0)"
| "rw_read_payload read ((name, is_enabled, packet_type) # rest) flags len kwargs =
     (if is_enabled flags kwargs then
        bindS (rw_read_field read packet_type len) (\<lambda>(v, read_length).
          bindS (rw_read_payload read rest flags (length_after packet_type len read_length) (kwargs @ [(name, v)]))
            (\<lambda>(kwargs', byte_count). returnS (kwargs', read_length + byte_count)))
      else rw_read_payload read rest flags len kwargs)"

definition rw_read_packet :: "'s source \<Rightarrow> packet_class \<Rightarrow> nat \<Rightarrow> ('s, packet) io" where
  "rw_read_packet read cls fl =
     bindS (rw_decode_packet_length read) (\<lambda>len.
       bindS (rw_read_payload read (packet_fields cls) (flags_from_int cls (int fl)) (int len) [])
         (\<lambda>(kwargs, bytes_read).
           returnS \<lparr>pk_class = cls, pk_flags = flags_from_int cls (int fl),
                    pk_length = len, pk_kwargs = kwargs\<rparr>))"

definition rw_read_packet_as :: "'s source \<Rightarrow> packet_class \<Rightarrow> ('s, packet) io" where
  "rw_read_packet_as read cls =
     bindS (rw_decode_header read) (\<lambda>(msg_type, flags). bindS (liftS (infer_packet_class msg_type)) (\<lambda>cur_class.
       if cls \<noteq> cur_class then liftS (Inl PacketMismatchError) else rw_read_packet read cls flags))"

definition rw_read_next_packet :: "'s source \<Rightarrow> ('s, packet) io" where
  "rw_read_next_packet read =
     bindS (rw_decode_header read) (\<lambda>(msg_type, flags). bindS (liftS (infer_packet_class msg_type)) (\<lambda>clazz.
       rw_read_packet read clazz flags))"

section \<open>The interface\<close>

lemma failP_lift: "failP e = liftP (Inl e)"
  by (simp add: fun_eq_iff failP_def liftP_def)

text \<open>
  \<open>pend s bs\<close>: in state \<open>s\<close> the bytes \<open>bs\<close> are still to be read. \<open>read n\<close> answers the first
  \<open>n\<close> of them, or raises \<open>eof\<close> when there are fewer. A computation implements a parser when it
  does on the state what the parser does on the bytes.
\<close>

locale byte_source =
  fixes read :: "'s source" and pend :: "'s \<Rightarrow> bytes \<Rightarrow> bool" and eof :: py_error
  assumes read_enough: "pend s bs \<Longrightarrow> n \<le> length bs \<Longrightarrow> \<exists>s'. read n s = (Inr (take n bs), s') \<and> pend s' (drop n bs)"
    and read_short: "pend s bs \<Longrightarrow> length bs < n \<Longrightarrow> fst (read n s) = Inl eof"
begin

definition implements :: "('s, 'a) io \<Rightarrow> 'a parser \<Rightarrow> bool" where
  "implements m p \<longleftrightarrow> (\<forall>s bs. pend s bs \<longrightarrow>
     (case p bs of
        Inr (x, rest) \<Rightarrow> \<exists>s'. m s = (Inr x, s') \<and> pend s' rest
      | Inl e \<Rightarrow> fst (m s) = Inl (if e = ConnectionClosed then eof else e)))"

lemma implementsI:
  assumes "\<And>s bs x rest. pend s bs \<Longrightarrow> p bs = Inr (x, rest) \<Longrightarrow> \<exists>s'. m s = (Inr x, s') \<and> pend s' rest"
    and "\<And>s bs e. pend s bs \<Longrightarrow> p bs = Inl e \<Longrightarrow> fst (m s) = Inl (if e = ConnectionClosed then eof else e)"
  shows "implements m p"
  using assms by (auto simp: implements_def split: sum.split)

lemma implementsD1: "implements m p \<Longrightarrow> pend s bs \<Longrightarrow> p bs = Inr (x, rest) \<Longrightarrow> \<exists>s'. m s = (Inr x, s') \<and> pend s' rest"
  by (auto simp: implements_def split: sum.splits dest!: spec [of _ s] spec [of _ bs])

lemma implementsD2:
  "implements m p \<Longrightarrow> pend s bs \<Longrightarrow> p bs = Inl e \<Longrightarrow> fst (m s) = Inl (if e = ConnectionClosed then eof else e)"
  by (auto simp: implements_def split: sum.splits dest!: spec [of _ s] spec [of _ bs])

lemma impl_read: "implements (read n) (read_bytes n)"
  using read_enough read_short by (auto intro!: implementsI simp: read_bytes_def split: if_splits)

lemma impl_return: "implements (returnS x) (returnP x)"
  by (rule implementsI) (auto simp: returnS_def)

lemma impl_lift: "r \<noteq> Inl ConnectionClosed \<Longrightarrow> implements (liftS r) (liftP r)"
  by (rule implementsI) (auto simp: liftS_def liftP_def res_simps)

lemma impl_bind:
  assumes "implements m p" and "\<And>x. implements (f x) (g x)"
  shows "implements (bindS m f) (bindP p g)"
proof (rule implementsI)
  fix s bs y rest
  assume s: "pend s bs" and r: "bindP p g bs = Inr (y, rest)"
  then obtain x bs1 where p: "p bs = Inr (x, bs1)" "g x bs1 = Inr (y, rest)"
    by (auto simp: bindP_def res_simps)
  obtain s1 where s1: "m s = (Inr x, s1)" "pend s1 bs1" using implementsD1 [OF assms(1) s p(1)] by blast
  from implementsD1 [OF assms(2) s1(2) p(2)] s1(1)
  show "\<exists>s'. bindS m f s = (Inr y, s') \<and> pend s' rest" by (simp add: bindS_def)
next
  fix s bs e
  assume s: "pend s bs" and r: "bindP p g bs = Inl e"
  then consider "p bs = Inl e" | x bs1 where "p bs = Inr (x, bs1)" "g x bs1 = Inl e"
    by (auto simp: bindP_def res_simps)
  then show "fst (bindS m f s) = Inl (if e = ConnectionClosed then eof else e)"
  proof cases
    case 1
    then show ?thesis using implementsD2 [OF assms(1) s 1] by (auto simp: bindS_def split: prod.splits sum.splits)
  next
    case 2
    obtain s1 where s1: "m s = (Inr x, s1)" "pend s1 bs1" using implementsD1 [OF assms(1) s 2(1)] by blast
    from implementsD2 [OF assms(2) s1(2) 2(2)] s1(1) show ?thesis by (simp add: bindS_def)
  qed
qed

lemma impl_prod: "(\<And>a b. implements (f a b) (g a b)) \<Longrightarrow> implements (case x of (a, b) \<Rightarrow> f a b) (case x of (a, b) \<Rightarrow> g a b)"
  by (cases x) simp

lemma impl_if: "(b \<Longrightarrow> implements m p) \<Longrightarrow> (\<not> b \<Longrightarrow> implements m' p') \<Longrightarrow> implements (if b then m else m') (if b then p else p')"
  by simp

lemma unpack_not_closed: "unpack_H bs \<noteq> Inl ConnectionClosed" "unpack_B bs \<noteq> Inl ConnectionClosed"
  by (simp_all add: unpack_H_def unpack_B_def)

lemma infer_not_closed: "infer_packet_class n \<noteq> Inl ConnectionClosed"
  by (simp add: infer_packet_class_def split: option.split)

lemmas impl_rules = impl_read impl_return impl_bind impl_prod impl_if
  impl_lift [OF unpack_not_closed(1)] impl_lift [OF unpack_not_closed(2)] impl_lift [OF infer_not_closed]

lemma impl_read_int: "implements (rw_read_int read n) (read_int n)"
  unfolding rw_read_int_def read_int_def by (intro impl_rules)

lemma impl_decode_str: "implements (rw_decode_str read) decode_str"
  unfolding rw_decode_str_def decode_str_def by (intro impl_rules)

lemma impl_decode_bytes: "implements (rw_decode_bytes read) decode_bytes"
  unfolding rw_decode_bytes_def decode_bytes_def by (intro impl_rules)

lemma impl_decode_header: "implements (rw_decode_header read) decode_header"
  unfolding rw_decode_header_def decode_header_def Let_def by (intro impl_rules)

lemma impl_read_item: "implements (rw_read_item read t len) (read_item t len)"
  by (cases t) (auto intro!: impl_rules impl_read_int impl_decode_str impl_decode_bytes simp del: rw_decode_str_def)

lemma read_one: "pend s (b # bs) \<Longrightarrow> \<exists>s'. read 1 s = (Inr [b], s') \<and> pend s' bs"
  using read_enough [of s "b # bs" 1] by simp

lemma word_of_from_big_endian: "word_of_nat (from_big_endian [b]) = b"
  by simp

lemma length_loop:
  "pend s bs \<Longrightarrow> 0 < m \<Longrightarrow>
   (case decode_length_loop m v bs of
      Inr (x, rest) \<Rightarrow> \<exists>s'. rw_length_loop read m v s = (Inr x, s') \<and> pend s' rest
    | Inl e \<Rightarrow> fst (rw_length_loop read m v s) = Inl (if e = ConnectionClosed then eof else e))"
proof (induction m v bs arbitrary: s rule: decode_length_loop.induct)
  case (1 m v)
  then show ?case using read_short [of s "[]" 1]
    by (cases "read 1 s") (simp add: rw_length_loop.simps bindS_def)
next
  case (2 m v b bs)
  obtain s1 where s1: "read 1 s = (Inr [b], s1)" "pend s1 bs" using read_one [OF "2.prems"(1)] by blast
  have step: "rw_length_loop read m v s =
      (if b AND 0x80 = 0 then (Inr (v + unat (b AND 0x7F) * m), s1)
       else if m * 128 > 128 * 128 * 128 then (Inl OSError, s1)
       else rw_length_loop read (m * 128) (v + unat (b AND 0x7F) * m) s1)"
    using "2.prems"(2) s1(1)
    by (simp add: rw_length_loop.simps [of read m] bindS_def liftS_def unpack_B_def Let_def)
  show ?case
  proof (cases "b AND 0x80 = 0 \<or> m * 128 > 128 * 128 * 128")
    case True
    then show ?thesis using s1(2) unfolding step by (auto simp: Let_def)
  next
    case False
    then have "(case decode_length_loop (m * 128) (v + unat (b AND 0x7F) * m) bs of
        Inr (x, rest) \<Rightarrow> \<exists>s'. rw_length_loop read (m * 128) (v + unat (b AND 0x7F) * m) s1 = (Inr x, s') \<and> pend s' rest
      | Inl e \<Rightarrow> fst (rw_length_loop read (m * 128) (v + unat (b AND 0x7F) * m) s1) =
          Inl (if e = ConnectionClosed then eof else e))"
      using "2.IH" [OF refl _ _ s1(2)] "2.prems"(2) by simp
    with False show ?thesis unfolding step by (simp add: Let_def)
  qed
qed

lemma impl_packet_length: "implements (rw_decode_packet_length read) decode_packet_length"
  using length_loop [of _ _ 1 0] unfolding implements_def rw_decode_packet_length_def decode_packet_length_def
  by simp

lemma impl_list_loop:
  assumes "\<And>len. implements (rd len) (rd' len)"
  shows "implements (rw_list_loop rd len) (list_loop rd' len)"
proof (induction "nat len" arbitrary: len rule: less_induct)
  case less
  show ?case
  proof (cases "0 < len")
    case False
    then show ?thesis by (auto intro!: implementsI simp: rw_list_loop.simps list_loop.simps)
  next
    case True
    have tail: "implements (if n = 0 then liftS (Inl OutsideModel)
        else bindS (rw_list_loop rd (len - int n)) (\<lambda>(vs, k). returnS (v # vs, n + k)))
      (if n = 0 then liftP (Inl OutsideModel)
        else bindP (list_loop rd' (len - int n)) (\<lambda>(vs, k). returnP (v # vs, n + k)))" for v n
      using True by (intro impl_if impl_lift impl_bind impl_prod impl_return less) auto
    have "rw_list_loop rd len = bindS (rd len) (\<lambda>(v, n). if n = 0 then liftS (Inl OutsideModel)
        else bindS (rw_list_loop rd (len - int n)) (\<lambda>(vs, k). returnS (v # vs, n + k)))"
      using True by (auto simp: rw_list_loop.simps [of rd len] bindS_def liftS_def fun_eq_iff split: prod.split sum.split)
    moreover have "list_loop rd' len = bindP (rd' len) (\<lambda>(v, n). if n = 0 then liftP (Inl OutsideModel)
        else bindP (list_loop rd' (len - int n)) (\<lambda>(vs, k). returnP (v # vs, n + k)))"
      using True by (auto simp: list_loop.simps [of rd' len] bindP_def liftP_def returnP_def fun_eq_iff split: prod.split sum.split)
    ultimately show ?thesis using assms tail by (simp add: impl_bind impl_prod)
  qed
qed

lemma impl_read_record: "implements (rw_read_record read fs len) (read_record fs len)"
proof (induction fs arbitrary: len)
  case (Cons f fs)
  then show ?case by (cases f) (auto intro!: impl_bind impl_prod impl_return impl_read_item)
qed (use impl_return [of "([], 0)"] in \<open>simp add: returnP_def [abs_def]\<close>)

lemma impl_read_field: "implements (rw_read_field read t len) (read_field t len)"
  by (cases t) (auto intro!: impl_bind impl_prod impl_return impl_read_item impl_list_loop impl_read_record)

lemma impl_read_payload:
  "implements (rw_read_payload read fs flags len kwargs) (read_payload fs flags len kwargs)"
proof (induction fs arbitrary: len kwargs)
  case (Cons f fs)
  then show ?case by (cases f) (auto intro!: impl_bind impl_prod impl_return impl_read_field)
qed (simp add: impl_return)

lemma impl_read_packet: "implements (rw_read_packet read cls fl) (read_packet cls fl)"
  unfolding rw_read_packet_def read_packet_def
  by (intro impl_bind impl_prod impl_return impl_packet_length impl_read_payload)

lemma impl_read_packet_as: "implements (rw_read_packet_as read cls) (read_packet_as cls)"
  unfolding rw_read_packet_as_def read_packet_as_def failP_lift
  by (intro impl_rules impl_decode_header impl_read_packet impl_lift) simp

lemma impl_read_next_packet: "implements (rw_read_next_packet read) read_next_packet"
  unfolding rw_read_next_packet_def read_next_packet_def
  by (intro impl_rules impl_decode_header impl_read_packet)

end

section \<open>Packets one after the other\<close>

text \<open>What the read loop of a connection reads in its first \<open>k\<close> rounds, and CONNECT before them.\<close>

fun rw_read_packets :: "'s source \<Rightarrow> nat \<Rightarrow> ('s, packet list) io" where
  "rw_read_packets read 0 = returnS []"
| "rw_read_packets read (Suc k) =
     bindS (rw_read_next_packet read) (\<lambda>p. bindS (rw_read_packets read k) (\<lambda>ps. returnS (p # ps)))"

fun read_packets :: "nat \<Rightarrow> packet list parser" where
  "read_packets 0 = returnP []"
| "read_packets (Suc k) = bindP read_next_packet (\<lambda>p. bindP (read_packets k) (\<lambda>ps. returnP (p # ps)))"

definition rw_read_session :: "'s source \<Rightarrow> nat \<Rightarrow> ('s, packet list) io" where
  "rw_read_session read k =
     bindS (rw_read_packet_as read ConnectPacket) (\<lambda>p. bindS (rw_read_packets read k) (\<lambda>ps. returnS (p # ps)))"

definition read_session :: "nat \<Rightarrow> packet list parser" where
  "read_session k =
     bindP (read_packet_as ConnectPacket) (\<lambda>p. bindP (read_packets k) (\<lambda>ps. returnP (p # ps)))"

context byte_source begin

lemma impl_read_packets: "implements (rw_read_packets read k) (read_packets k)"
proof (induction k)
  case 0
  show ?case using impl_return [of "[]"] by (simp add: returnP_def [abs_def])
next
  case (Suc k)
  then show ?case by (auto intro!: impl_bind impl_return impl_read_next_packet)
qed

lemma impl_read_session: "implements (rw_read_session read k) (read_session k)"
  unfolding rw_read_session_def read_session_def
  by (intro impl_bind impl_return impl_read_packet_as impl_read_packets)

end

section \<open>A list of bytes\<close>

definition list_source :: "bytes source" where
  "list_source n bs = (case read_bytes n bs of Inl e \<Rightarrow> (Inl e, bs) | Inr (x, rest) \<Rightarrow> (Inr x, rest))"

interpretation on_list: byte_source list_source "(=)" ConnectionClosed
  by unfold_locales (simp_all add: list_source_def read_bytes_def)

section \<open>A socket\<close>

definition tcp_source :: "segments source" where
  "tcp_source n segs = (case socket_read n segs of Inl e \<Rightarrow> (Inl e, []) | Inr (bs, segs') \<Rightarrow> (Inr bs, segs'))"

text \<open>All that is to be read has come in one piece.\<close>

definition one_segment :: "bytes \<Rightarrow> segments" where
  "one_segment bs = (if bs = [] then [] else [bs])"

interpretation on_socket: byte_source tcp_source "\<lambda>segs bs. segs = one_segment bs" ConnectionError
proof
  fix segs bs n
  assume s: "segs = one_segment bs" and n: "n \<le> length bs"
  show "\<exists>s'. tcp_source n segs = (Inr (take n bs), s') \<and> s' = one_segment (drop n bs)"
  proof (cases "n = 0")
    case True
    then show ?thesis by (simp add: s tcp_source_def socket_read_def socket_read_loop.simps)
  next
    case False
    with n have "bs \<noteq> []" by auto
    with False n show ?thesis
      by (simp add: s one_segment_def tcp_source_def socket_read_def socket_read_loop.simps)
  qed
next
  fix segs bs n
  assume s: "segs = one_segment bs" and n: "length bs < n"
  have "socket_read n segs = Inl ConnectionError"
    using n by (cases "bs = []") (simp_all add: s one_segment_def socket_read_def socket_read_loop.simps)
  then show "fst (tcp_source n segs) = Inl ConnectionError" by (simp add: tcp_source_def)
qed

section \<open>A WebSocket\<close>

text \<open>The frames of the client that have not been read, and what is left of the one before.\<close>

definition ws_pending :: "ws \<Rightarrow> client_frame list \<Rightarrow> bool" where
  "ws_pending w fs \<longleftrightarrow> list_all client_frame_ok fs \<and> complete fs \<and> ws_alive w \<and> ws_open w \<and> ws_in w = map wire_of fs"

lemma ws_read_pending:
  assumes "ws_pending w fs"
  shows "case read_bytes n (ws_buf w @ stream fs) of
      Inl e \<Rightarrow> fst (ws_read n w) = Inl ConnectionError
    | Inr (bs, rest) \<Rightarrow> \<exists>w' fs'. ws_read n w = (Inr bs, w') \<and> ws_pending w' fs' \<and> ws_buf w' @ stream fs' = rest"
proof -
  have a: "\<forall>f\<in>set fs. client_frame_ok f" "complete fs" "ws_alive w" "ws_open w" "ws_in w = map wire_of fs"
    using assms by (simp_all add: ws_pending_def list_all_iff)
  show ?thesis
  proof (cases "read_bytes n (ws_buf w @ stream fs)")
    case (Inl e)
    then show ?thesis using ws_read_refines [OF a, of n] by simp
  next
    case (Inr x)
    obtain bs rest where x: "x = (bs, rest)" by (cases x)
    then obtain fs1 fs2 buf where f: "fs = fs1 @ fs2" "buf @ stream fs2 = rest"
      "ws_read n w = (Inr bs, w\<lparr>ws_in := map wire_of fs2, ws_buf := buf, ws_sent := ws_sent w @ pongs fs1\<rparr>)"
      using ws_read_refines [OF a, of n] Inr by auto
    then have "ws_pending (w\<lparr>ws_in := map wire_of fs2, ws_buf := buf, ws_sent := ws_sent w @ pongs fs1\<rparr>) fs2"
      using a complete_suffix [of fs1 fs2] by (simp add: ws_pending_def list_all_iff)
    with f(2,3) show ?thesis unfolding Inr x sum.case prod.case
      by (intro exI conjI) (rule f(3), simp_all)
  qed
qed

interpretation on_websocket: byte_source ws_read
  "\<lambda>w bs. \<exists>fs. ws_pending w fs \<and> ws_buf w @ stream fs = bs" ConnectionError
proof
  fix w bs n
  assume "\<exists>fs. ws_pending w fs \<and> ws_buf w @ stream fs = bs" and "n \<le> length bs"
  then obtain fs where "ws_pending w fs" "read_bytes n (ws_buf w @ stream fs) = Inr (take n bs, drop n bs)"
    by (auto simp: read_bytes_def)
  with ws_read_pending [of w fs n]
  show "\<exists>w'. ws_read n w = (Inr (take n bs), w') \<and> (\<exists>fs. ws_pending w' fs \<and> ws_buf w' @ stream fs = drop n bs)"
    by auto
next
  fix w bs n
  assume "\<exists>fs. ws_pending w fs \<and> ws_buf w @ stream fs = bs" and "length bs < n"
  then obtain fs where "ws_pending w fs" "read_bytes n (ws_buf w @ stream fs) = Inl ConnectionClosed"
    by (auto simp: read_bytes_def)
  with ws_read_pending [of w fs n] show "fst (ws_read n w) = Inl ConnectionError" by auto
qed

text \<open>
  However the client cuts its bytes into frames (fragments, several packets in a frame, PING and
  PONG in between, each frame arriving as one piece), they are read as the concatenated
  payloads, with a \<open>ConnectionError\<close> where those end too early.
\<close>

lemma websocket_reads:
  assumes "ws_pending w fs" and "on_websocket.implements m p"
  shows "case p (ws_buf w @ stream fs) of
      Inr (x, rest) \<Rightarrow> \<exists>w' fs'. m w = (Inr x, w') \<and> ws_pending w' fs' \<and> ws_buf w' @ stream fs' = rest
    | Inl e \<Rightarrow> fst (m w) = Inl (if e = ConnectionClosed then ConnectionError else e)"
proof -
  have pend: "\<exists>fs'. ws_pending w fs' \<and> ws_buf w @ stream fs' = ws_buf w @ stream fs" using assms(1) by blast
  show ?thesis
  proof (cases "p (ws_buf w @ stream fs)")
    case (Inl e)
    from on_websocket.implementsD2 [OF assms(2) pend this] show ?thesis by (simp add: Inl)
  next
    case (Inr x)
    then have "p (ws_buf w @ stream fs) = Inr (fst x, snd x)" by simp
    from on_websocket.implementsD1 [OF assms(2) pend this] show ?thesis
      by (cases x) (auto simp: Inr)
  qed
qed

text \<open>
  C32: Packets over TCP. When the bytes have arrived in one piece, CONNECT and the packets after
  it are read as from the bytes. But when a piece ends inside the two bytes that give the length of a text
  and the next piece is longer than that, the text can not be read, though nothing is missing:
  the second byte is asked for with two bytes.
\<close>

theorem packets_over_tcp:
  "(case read_session k bs of
      Inr (ps, rest) \<Rightarrow> rw_read_session tcp_source k (one_segment bs) = (Inr ps, one_segment rest)
    | Inl e \<Rightarrow> fst (rw_read_session tcp_source k (one_segment bs)) = Inl (if e = ConnectionClosed then ConnectionError else e))
   \<and> fst (rw_decode_str tcp_source ([a] # (b # c # data) # segs)) = Inl StructError"
proof -
  have "fst (rw_decode_str tcp_source ([a] # (b # c # data) # segs)) = Inl StructError"
    by (simp add: rw_decode_str_def bindS_def liftS_def tcp_source_def socket_read_def socket_read_loop.simps unpack_H_def)
  then show ?thesis
    using on_socket.impl_read_session [of k] unfolding on_socket.implements_def
    by (auto split: sum.splits)
qed

end
