(* ===== verification/Handshake.thy ===== *)
theory Handshake
  imports Websocket
begin

text \<open>
  The answer to the upgrade request of a WebSocket (\<open>get_handshake_response\<close> and \<open>digest\<close> of
  servers/websocket/handler.py), with what it uses of the standard library: splitting a text,
  SHA-1 and base64.
\<close>

section \<open>SHA-1 and base64\<close>

type_synonym word32 = "32 word"

definition word_of_bytes :: "bytes \<Rightarrow> word32" where
  "word_of_bytes bs = foldl (\<lambda>w b. push_bit 8 w OR ucast b) 0 bs"

definition bytes_of_word :: "word32 \<Rightarrow> bytes" where
  "bytes_of_word w = map (\<lambda>i. ucast (drop_bit i w)) [24, 16, 8, 0]"

fun chunks :: "nat \<Rightarrow> nat \<Rightarrow> 'a list \<Rightarrow> 'a list list" where
  "chunks 0 k xs = []"
| "chunks (Suc n) k xs = take k xs # chunks n k (drop k xs)"

definition sha1_pad :: "bytes \<Rightarrow> bytes" where
  "sha1_pad msg = msg @ [0x80] @ replicate ((119 - length msg mod 64) mod 64) 0 @ big_endian 8 (8 * length msg)"

definition sha1_schedule :: "bytes \<Rightarrow> word32 list" where
  "sha1_schedule block =
     fold (\<lambda>t ws. ws @ [word_rotl 1 (ws ! (t - 3) XOR ws ! (t - 8) XOR ws ! (t - 14) XOR ws ! (t - 16))])
       [16..<80] (map word_of_bytes (chunks 16 4 block))"

type_synonym sha1_state = "word32 \<times> word32 \<times> word32 \<times> word32 \<times> word32"

definition sha1_round :: "nat \<Rightarrow> word32 \<Rightarrow> sha1_state \<Rightarrow> sha1_state" where
  "sha1_round t w s =
     (case s of (a, b, c, d, e) \<Rightarrow>
        let (f, k) = (if t < 20 then ((b AND c) OR (NOT b AND d), 0x5A827999)
                      else if t < 40 then (b XOR c XOR d, 0x6ED9EBA1)
                      else if t < 60 then ((b AND c) OR (b AND d) OR (c AND d), 0x8F1BBCDC)
                      else (b XOR c XOR d, 0xCA62C1D6))
        in (word_rotl 5 a + f + e + k + w, a, word_rotl 30 b, c, d))"

definition sha1_block :: "bytes \<Rightarrow> sha1_state \<Rightarrow> sha1_state" where
  "sha1_block block s =
     (case fold (\<lambda>(t, w). sha1_round t w) (zip [0..<80] (sha1_schedule block)) s of
        (a, b, c, d, e) \<Rightarrow>
          (case s of (a0, b0, c0, d0, e0) \<Rightarrow> (a0 + a, b0 + b, c0 + c, d0 + d, e0 + e)))"

definition sha1 :: "bytes \<Rightarrow> bytes" where
  "sha1 msg =
     (let padded = sha1_pad msg
      in case fold sha1_block (chunks (length padded div 64) 64 padded)
             (0x67452301, 0xEFCDAB89, 0x98BADCFE, 0x10325476, 0xC3D2E1F0) of
           (a, b, c, d, e) \<Rightarrow> concat (map bytes_of_word [a, b, c, d, e]))"

definition base64_alphabet :: string where
  "base64_alphabet =
     ''ABCDEFGHIJKLMNOPQRSTUVWXYZabcdefghijklmnopqrstuvwxyz0123456789+/''"

definition sextets :: "bytes \<Rightarrow> nat list" where
  "sextets bs = map (\<lambda>i. unat (drop_bit i (word_of_bytes bs) AND 0x3F)) [18, 12, 6, 0]"

fun b64encode :: "bytes \<Rightarrow> string" where
  "b64encode [] = []"
| "b64encode [a] =
     map ((!) base64_alphabet) (take 2 (sextets [a, 0, 0])) @ ''==''"
| "b64encode [a, b] =
     map ((!) base64_alphabet) (take 3 (sextets [a, b, 0])) @ ''=''"
| "b64encode (a # b # c # bs) =
     map ((!) base64_alphabet) (sextets [a, b, c]) @ b64encode bs"

section \<open>The response\<close>

definition secret_key :: string where
  "secret_key = ''258EAFA5-E914-47DA-95CA-C5AB0DC85B11''"

definition digest :: "string \<Rightarrow> py_error + string" where
  "digest client_secret_key =
     (let raw = client_secret_key @ secret_key
      in if list_all (\<lambda>b. b < 128) (raw_bytes raw) then Inr (b64encode (sha1 (raw_bytes raw)))
         else Inl UnicodeEncodeError)"

definition CR :: char where "CR = CHR 0x0D"
definition LF :: char where "LF = CHR 0x0A"

text \<open>\<open>split("\r\n")\<close>, and \<open>split(": ", 1)\<close>, \<open>None\<close> when there is only one part.\<close>

fun split_lines :: "string \<Rightarrow> string list" where
  "split_lines [] = [[]]"
| "split_lines [c] = [[c]]"
| "split_lines (c # d # cs) =
     (if c = CR \<and> d = LF then [] # split_lines cs
      else (case split_lines (d # cs) of [] \<Rightarrow> [[c]] | w # ws \<Rightarrow> (c # w) # ws))"

fun split_label :: "string \<Rightarrow> (string \<times> string) option" where
  "split_label (c # d # cs) =
     (if c = CHR '':'' \<and> d = CHR '' '' then Some ([], cs)
      else map_option (\<lambda>(l, v). (c # l, v)) (split_label (d # cs)))"
| "split_label cs = None"

definition upgrade_set :: "string list" where
  "upgrade_set = [''Upgrade: WebSocket'', ''Upgrade: websocket'', ''upgrade: websocket'']"

definition label_set :: "string list" where
  "label_set = [''Sec-WebSocket-Key'', ''sec-websocket-key'']"

definition handshake_text :: "string \<Rightarrow> string" where
  "handshake_text accept =
     ''HTTP/1.1 101 Switching Protocols'' @ [CR, LF] @
     ''Upgrade: websocket'' @ [CR, LF] @
     ''Connection: Upgrade'' @ [CR, LF] @
     ''Sec-WebSocket-Accept: '' @ accept @ [CR, LF] @
     ''Sec-WebSocket-Protocol: mqtt'' @ [CR, LF] @
     ''Sec-WebSocket-Version: 13'' @ [CR, LF, CR, LF]"

fun find_key :: "string list \<Rightarrow> py_error + string option" where
  "find_key [] = Inr None"
| "find_key (token # tokens) =
     (case split_label token of
        None \<Rightarrow> Inl ValueError
      | Some (label, value) \<Rightarrow>
          if label \<in> set label_set then bindR (digest value) (\<lambda>d. Inr (Some (handshake_text d)))
          else find_key tokens)"

definition get_handshake_response :: "string \<Rightarrow> py_error + string option" where
  "get_handshake_response request =
     (let tokens = split_lines request
      in if \<not> list_ex (\<lambda>t. t \<in> set tokens) upgrade_set then Inr None
         else find_key (tl tokens))"

text \<open>\<open>start_connection\<close>: \<open>None\<close> when reading the request does not end.\<close>

definition start_connection :: "ws \<Rightarrow> ((py_error + unit) \<times> ws) option" where
  "start_connection w =
     map_option (\<lambda>(r, segs).
         let w1 = w\<lparr>ws_in := segs\<rparr>
         in case bindR r get_handshake_response of
              Inl e \<Rightarrow> (Inl e, w1)
            | Inr None \<Rightarrow> (Inl ConnectionError, w1)
            | Inr (Some handshake) \<Rightarrow>
                (case py_encode handshake of
                   Inl e \<Rightarrow> (Inl e, w1)
                 | Inr b \<Rightarrow> if ws_open w1 then (Inr (), w1\<lparr>ws_sent := ws_sent w1 @ [b]\<rparr>)
                            else (Inl OSError, w1)))
       (recv_until [CR, LF, CR, LF] (ws_in w))"

section \<open>Requests as their headers\<close>

text \<open>
  What a client sends: the request line, one line \<open>label: value\<close> per header, and an empty line.
\<close>

type_synonym header = "string \<times> string"

fun join_lines :: "string list \<Rightarrow> string" where
  "join_lines [] = []"
| "join_lines [w] = w"
| "join_lines (w # v # ws) = w @ [CR, LF] @ join_lines (v # ws)"

definition header_line :: "header \<Rightarrow> string" where
  "header_line h = fst h @ '': '' @ snd h"

definition request_text :: "string \<Rightarrow> header list \<Rightarrow> string" where
  "request_text first_line headers = join_lines (first_line # map header_line headers @ [[], []])"

definition header_ok :: "header \<Rightarrow> bool" where
  "header_ok h \<longleftrightarrow> CHR '':'' \<notin> set (fst h) \<and> CR \<notin> set (fst h) \<and> CR \<notin> set (snd h)"

definition request_ok :: "string \<Rightarrow> header list \<Rightarrow> bool" where
  "request_ok first_line headers \<longleftrightarrow> CR \<notin> set first_line \<and> list_all header_ok headers"

text \<open>The value of the first header that names the key of the client.\<close>

definition client_key :: "header list \<Rightarrow> string option" where
  "client_key headers = map_option snd (find (\<lambda>h. fst h \<in> set label_set) headers)"

lemma split_lines_not_Nil: "split_lines cs \<noteq> []"
  by (induction cs rule: split_lines.induct) (auto split: list.splits)

lemma split_lines_no_CR: "CR \<notin> set w \<Longrightarrow> split_lines w = [w]"
  by (induction w rule: split_lines.induct) auto

lemma split_lines_append: "CR \<notin> set w \<Longrightarrow> split_lines (w @ CR # LF # cs) = w # split_lines cs"
proof (induction w)
  case (Cons a w)
  then have "split_lines (w @ CR # LF # cs) = w # split_lines cs" by simp
  moreover have "a \<noteq> CR" using Cons.prems by auto
  ultimately show ?case by (cases w) auto
qed simp

lemma split_join_lines:
  "list_all (\<lambda>w. CR \<notin> set w) ws \<Longrightarrow> ws \<noteq> [] \<Longrightarrow> split_lines (join_lines ws) = ws"
  by (induction ws rule: join_lines.induct) (simp_all add: split_lines_no_CR split_lines_append)

lemma split_label_header: "CHR '':'' \<notin> set l \<Longrightarrow> split_label (l @ '': '' @ v) = Some (l, v)"
proof (induction l)
  case (Cons a l)
  then have IH: "split_label (l @ '': '' @ v) = Some (l, v)" and a: "a \<noteq> CHR '':''" by auto
  obtain c cs where c: "l @ '': '' @ v = c # cs" by (cases "l @ '': '' @ v") auto
  have "split_label (a # c # cs) = Some (a # l, v)" using IH a unfolding c by simp
  then show ?case using c by simp
qed simp

lemma split_request_text:
  assumes "request_ok first_line headers"
  shows "split_lines (request_text first_line headers) = first_line # map header_line headers @ [[], []]"
  using assms unfolding request_text_def request_ok_def
  by (intro split_join_lines) (auto simp: list_all_iff header_ok_def header_line_def CR_def)

lemma find_key_headers:
  "list_all header_ok headers \<Longrightarrow>
   find_key (map header_line headers @ [[], []]) =
     (case client_key headers of None \<Rightarrow> Inl ValueError
      | Some v \<Rightarrow> bindR (digest v) (\<lambda>d. Inr (Some (handshake_text d))))"
proof (induction headers)
  case (Cons h headers)
  have "split_label (header_line h) = Some (fst h, snd h)"
    using Cons.prems split_label_header [of "fst h" "snd h"] by (simp add: header_ok_def header_line_def)
  then show ?case using Cons by (cases h) (simp add: client_key_def comp_def)
qed (simp add: client_key_def)

lemma response_of_headers:
  assumes "request_ok first_line headers"
  shows "get_handshake_response (request_text first_line headers) =
    (if \<not> list_ex (\<lambda>t. t \<in> set (first_line # map header_line headers)) upgrade_set then Inr None
     else case client_key headers of
        None \<Rightarrow> Inl ValueError
      | Some v \<Rightarrow> bindR (digest v) (\<lambda>d. Inr (Some (handshake_text d))))"
proof -
  have "find_key (map header_line headers @ [[], []]) = (case client_key headers of None \<Rightarrow> Inl ValueError
      | Some v \<Rightarrow> bindR (digest v) (\<lambda>d. Inr (Some (handshake_text d))))"
    using assms by (intro find_key_headers) (simp add: request_ok_def)
  moreover have "list_ex (\<lambda>t. t \<in> set (first_line # map header_line headers @ [[], []])) upgrade_set
      \<longleftrightarrow> list_ex (\<lambda>t. t \<in> set (first_line # map header_line headers)) upgrade_set"
    by (simp add: upgrade_set_def)
  ultimately show ?thesis by (simp add: get_handshake_response_def split_request_text [OF assms])
qed

text \<open>
  The answer to an upgrade request, in terms of its headers. Without an upgrade header there
  is none. With one, the first header that names the client's key is answered by the handshake
  with the digest of that key; when no header names a key the request fails with a
  \<open>ValueError\<close>, not with the answer \<open>None\<close> of the last line: the empty line that ends
  every request has no label to split off.
\<close>

theorem handshake_of_headers:
  assumes "request_ok first_line headers"
  shows "get_handshake_response (request_text first_line headers) =
    (if \<not> list_ex (\<lambda>t. t \<in> set (first_line # map header_line headers)) upgrade_set then Inr None
     else case client_key headers of
        None \<Rightarrow> Inl ValueError
      | Some v \<Rightarrow> bindR (digest v) (\<lambda>d. Inr (Some (handshake_text d))))"
  by (rule response_of_headers [OF assms])

lemma handshake_of_headers_witness:
  "get_handshake_response (request_text ''GET / HTTP/1.1'' [(''Upgrade'', ''websocket'')]) = Inl ValueError
   \<and> get_handshake_response (request_text ''GET / HTTP/1.1'' [(''Host'', ''a:1'')]) = Inr None
   \<and> get_handshake_response
       (request_text ''GET / HTTP/1.1'' [(''Upgrade'', ''websocket''), (''Sec-WebSocket-Key'', ''x'')])
     = bindR (digest ''x'') (\<lambda>d. Inr (Some (handshake_text d)))"
proof -
  have "request_ok ''GET / HTTP/1.1'' [(''Upgrade'', ''websocket'')]"
    "request_ok ''GET / HTTP/1.1'' [(''Host'', ''a:1'')]"
    "request_ok ''GET / HTTP/1.1'' [(''Upgrade'', ''websocket''), (''Sec-WebSocket-Key'', ''x'')]"
    by (simp_all add: request_ok_def header_ok_def CR_def)
  from this [THEN handshake_of_headers] show ?thesis
    by (simp add: upgrade_set_def header_line_def client_key_def label_set_def)
qed

end
