(* ===== verification/Websocket_Session.thy ===== *)
theory Websocket_Session
  imports Connections Handshake Json
begin

text \<open>
  A WebSocket connection from its first byte: the upgrade request is read, answered, and then
  packets are read from the frames that follow (\<open>start_connection\<close> and the read loop).
\<close>

section \<open>Reading the request\<close>

lemma no_CR_here: "CR \<notin> set w \<Longrightarrow> i < length w \<Longrightarrow> take 3 (drop i w @ t) \<noteq> CR # r"
  by (simp add: Cons_nth_drop_Suc [symmetric] numeral_3_eq_3) (metis nth_mem)

text \<open>The delimiter is nowhere but at the end: no line of a request but the last ones is empty.\<close>

lemma no_break:
  assumes "list_all (\<lambda>w. CR \<notin> set w) ws" and "[] \<notin> set (tl ws)" and "i < length (join_lines ws)"
  shows "take 3 (drop i (join_lines ws @ t)) \<noteq> [CR, LF, CR]"
  using assms
proof (induction ws arbitrary: i rule: join_lines.induct)
  case (2 w)
  then show ?case using no_CR_here [of w i t "[LF, CR]"] by simp
next
  case (3 w v ws)
  obtain c cs where v: "v = c # cs" and c: "c \<noteq> CR" using 3(2,3) by (cases v) auto
  obtain r where r: "join_lines (v # ws) @ t = c # r" by (cases ws) (auto simp: v)
  have ne: "CR \<noteq> LF" by (simp add: CR_def LF_def)
  consider "i < length w" | "i = length w" | "i = Suc (length w)" | j where "i = length w + 2 + j"
    by (metis add_2_eq_Suc' add_Suc add_Suc_right less_iff_Suc_add linorder_less_linear not_less_eq)
  then show ?case
  proof cases
    case 1
    then show ?thesis using no_CR_here [of w i "CR # LF # join_lines (v # ws) @ t" "[LF, CR]"] 3(2) by simp
  next
    case 2
    then show ?thesis using c by (simp add: r numeral_3_eq_3)
  next
    case 3
    then show ?thesis using ne by (simp add: numeral_3_eq_3)
  next
    case (4 j)
    then have "j < length (join_lines (v # ws))" using 3(4) by simp
    from 3(1) [OF _ _ this] 3(2,3) 4 show ?thesis by auto
  qed
qed simp

lemma join_lines_end: "ws \<noteq> [] \<Longrightarrow> join_lines (ws @ [[], []]) = join_lines ws @ [CR, LF, CR, LF]"
proof (induction ws rule: join_lines.induct)
  case (3 w v ws)
  then show ?case by (cases ws) simp_all
qed simp_all

lemma raw_bytes_eq: "raw_bytes s = raw_bytes t \<longleftrightarrow> s = t"
  by (metis raw_str_raw_bytes)

lemma request_delimiter:
  assumes "request_ok first_line headers" and req: "raw_bytes (request_text first_line headers) = p @ q"
  shows "occurs (raw_bytes [CR, LF, CR, LF]) p \<longleftrightarrow> q = []"
proof -
  let ?lines = "first_line # map header_line headers" and ?edl = "[CR, LF, CR, LF]"
  have body: "request_text first_line headers = join_lines ?lines @ ?edl"
    using join_lines_end [of ?lines] by (simp add: request_text_def)
  have cr: "list_all (\<lambda>w. CR \<notin> set w) ?lines" "[] \<notin> set (tl ?lines)"
    using assms(1) by (auto simp: request_ok_def list_all_iff header_ok_def header_line_def CR_def)
  have "q = []" if occ: "occurs (raw_bytes ?edl) p"
  proof -
    have "length (raw_bytes ?edl) = 4" by simp
    then obtain i where i: "take 4 (drop i p) = raw_bytes ?edl" using occ unfolding occurs_iff by metis
    have len: "i + 4 \<le> length p" using arg_cong [OF i, of length] by simp
    have "take 4 (drop i (p @ q)) = raw_bytes ?edl" using i len by simp
    moreover have "raw_bytes (take 4 (drop i (request_text first_line headers))) = take 4 (drop i (p @ q))"
      by (simp add: req [symmetric] raw_bytes_def take_map drop_map)
    ultimately have four: "take 4 (drop i (join_lines ?lines @ ?edl)) = ?edl"
      by (metis body raw_bytes_eq)
    have "take 3 (drop i (join_lines ?lines @ ?edl)) = take 3 (take 4 (drop i (join_lines ?lines @ ?edl)))"
      by (simp only: take_take) simp
    then have "take 3 (drop i (join_lines ?lines @ ?edl)) = [CR, LF, CR]"
      unfolding four by (simp add: numeral_3_eq_3)
    then have "length (join_lines ?lines) \<le> i" using no_break [OF cr, of i ?edl] by (meson not_le)
    moreover have "length p + length q = length (join_lines ?lines) + 4"
      using arg_cong [OF req, of length] by (simp add: body)
    ultimately have "length q = 0" using len by linarith
    then show ?thesis by simp
  qed
  moreover have "occurs (raw_bytes ?edl) p" if "q = []"
    using req that
    by (auto simp: body occurs_iff raw_bytes_def intro!: exI [of _ "length (join_lines ?lines)"] dest!: sym [of _ p])
  ultimately show ?thesis by blast
qed

lemma recv_until_loop_stops:
  "segments_ok segs \<Longrightarrow> (\<And>p q. data @ concat segs = p @ q \<Longrightarrow> occurs edl p \<longleftrightarrow> q = []) \<Longrightarrow>
   recv_until_loop edl data (segs @ rest) = Some (data @ concat segs, rest)"
proof (induction "length (concat segs)" arbitrary: data segs rule: less_induct)
  case less
  show ?case
  proof (cases "concat segs = []")
    case True
    then have "segs = []" using less.prems(1) by (cases segs) (auto simp: segments_ok_def)
    then show ?thesis using less.prems(2) [of data "[]"] by (subst recv_until_loop.simps) simp
  next
    case False
    then have "\<not> occurs edl data" "segs \<noteq> []" using less.prems(2) [of data "concat segs"] by auto
    obtain buf segs1 where r: "recv 1024 segs = (buf, segs1)" by fastforce
    have r': "recv 1024 (segs @ rest) = (buf, segs1 @ rest)"
      using r \<open>segs \<noteq> []\<close> by (cases segs) (auto split: if_splits)
    have c: "concat segs = buf @ concat segs1" by (rule recv_concat [OF r])
    have "buf \<noteq> []" using recv_Nil_iff [OF less.prems(1), of 1024] \<open>segs \<noteq> []\<close> r by simp
    then have "length (concat segs1) < length (concat segs)" using c by simp
    from less.hyps [OF this, of "data @ buf"] recv_ok [OF less.prems(1), of 1024] less.prems(2) c r
    have "recv_until_loop edl (data @ buf) (segs1 @ rest) = Some (data @ concat segs, rest)" by simp
    with \<open>\<not> occurs edl data\<close> show ?thesis by (subst recv_until_loop.simps) (simp add: r')
  qed
qed

text \<open>The request is read to its end and no further, however it is cut into segments.\<close>

lemma recv_request:
  assumes "request_ok first_line headers" and "utf8_valid (raw_bytes (request_text first_line headers))"
    and "segments_ok segs" and "concat segs = raw_bytes (request_text first_line headers)"
  shows "recv_until [CR, LF, CR, LF] (segs @ rest) = Some (Inr (request_text first_line headers), rest)"
proof -
  have "segs \<noteq> []" using assms(4) join_lines_end [of "first_line # map header_line headers"]
    by (auto simp: request_text_def raw_bytes_def)
  obtain buf segs1 where r: "recv 1024 segs = (buf, segs1)" by fastforce
  have r': "recv 1024 (segs @ rest) = (buf, segs1 @ rest)"
    using r \<open>segs \<noteq> []\<close> by (cases segs) (auto split: if_splits)
  have c: "buf @ concat segs1 = raw_bytes (request_text first_line headers)"
    using recv_concat [OF r] assms(4) by simp
  have "recv_until_loop (raw_bytes [CR, LF, CR, LF]) buf (segs1 @ rest) = Some (buf @ concat segs1, rest)"
    using recv_ok [OF assms(3), of 1024] r c request_delimiter [OF assms(1)]
    by (intro recv_until_loop_stops) simp_all
  then show ?thesis
    using c assms(2) by (simp add: recv_until_def r' py_decode_def)
qed

section \<open>The session\<close>

lemma alphabet_ascii: "i < 64 \<Longrightarrow> octet (base64_alphabet ! i) < 128"
proof -
  have "ascii base64_alphabet" "length base64_alphabet = 64" by (simp_all add: base64_alphabet_def)
  then show "i < 64 \<Longrightarrow> octet (base64_alphabet ! i) < 128" by (simp add: ascii_def)
qed

lemma sextets_ascii: "ascii (map ((!) base64_alphabet) (sextets bs))"
proof -
  have "unat (x AND 0x3F) < 64" for x :: "32 word"
    using word_and_le1 [of x "0x3F"] by (simp add: word_le_nat_alt)
  then show ?thesis by (simp add: sextets_def alphabet_ascii)
qed

lemma ascii_take: "ascii s \<Longrightarrow> ascii (take n s)"
  by (auto simp: ascii_def dest: in_set_takeD)

lemma b64encode_ascii: "ascii (b64encode bs)"
  by (induction bs rule: b64encode.induct) (simp_all add: sextets_ascii ascii_take take_map [symmetric] del: take_Suc)

lemma handshake_encodes:
  assumes "digest v = Inr d"
  shows "py_encode (handshake_text d) = Inr (raw_bytes (handshake_text d))"
proof -
  have "ascii d" using assms b64encode_ascii by (auto simp: digest_def Let_def split: if_splits)
  then have "ascii (handshake_text d)" by (simp add: handshake_text_def CR_def LF_def)
  then show ?thesis by (simp add: py_encode_def ascii_valid)
qed

text \<open>
  C16: A WebSocket session. A client sends its upgrade request, in any number of pieces, with an
  upgrade header and a key, and then frames, each in one piece, cut as it likes: fragments,
  several packets in a frame, PING and PONG in between. The request is read to its end and
  answered by the handshake with the digest of the key; then CONNECT and the \<open>k\<close> packets after
  it are read as from the concatenated payloads of the frames, with a \<open>ConnectionError\<close>
  where those end too early.
\<close>

theorem websocket_session:
  assumes "request_ok first_line headers" and "utf8_valid (raw_bytes (request_text first_line headers))"
    and "list_ex (\<lambda>t. t \<in> set (first_line # map header_line headers)) upgrade_set"
    and "client_key headers = Some v" and "digest v = Inr d"
    and "segments_ok segs" and "concat segs = raw_bytes (request_text first_line headers)"
    and "list_all client_frame_ok fs" and "complete fs"
  shows "\<exists>w. start_connection (open_ws (segs @ map wire_of fs)) = Some (Inr (), w)
    \<and> ws_sent w = [raw_bytes (handshake_text d)]
    \<and> (case read_session k (stream fs) of
         Inr (ps, rest) \<Rightarrow> \<exists>w' fs'. rw_read_session ws_read k w = (Inr ps, w') \<and> ws_buf w' @ stream fs' = rest
       | Inl e \<Rightarrow> fst (rw_read_session ws_read k w) = Inl (if e = ConnectionClosed then ConnectionError else e))"
proof -
  let ?w = "(open_ws (map wire_of fs))\<lparr>ws_sent := [raw_bytes (handshake_text d)]\<rparr>"
  have "get_handshake_response (request_text first_line headers) = Inr (Some (handshake_text d))"
    using response_of_headers [OF assms(1)] assms(3-5) by simp
  then have start: "start_connection (open_ws (segs @ map wire_of fs)) = Some (Inr (), ?w)"
    using recv_request [OF assms(1,2,6,7), of "map wire_of fs"] handshake_encodes [OF assms(5)]
    by (simp add: start_connection_def open_ws_def)
  have "ws_pending ?w fs" using assms(8,9) by (simp add: ws_pending_def open_ws_def)
  note websocket_reads [OF this on_websocket.impl_read_session [of k]]
  moreover have "ws_buf ?w @ stream fs = stream fs" by (simp add: open_ws_def)
  ultimately have "case read_session k (stream fs) of
         Inr (ps, rest) \<Rightarrow> \<exists>w' fs'. rw_read_session ws_read k ?w = (Inr ps, w') \<and> ws_buf w' @ stream fs' = rest
       | Inl e \<Rightarrow> fst (rw_read_session ws_read k ?w) = Inl (if e = ConnectionClosed then ConnectionError else e)"
    by (auto split: sum.splits)
  with start show ?thesis by (intro exI [of _ ?w]) simp
qed

text \<open>CONNECT in two fragments with a PING between them; PINGREQ in the same frame as its end.\<close>

lemma websocket_session_witness:
  "\<exists>segs fs w w' ps d. segs @ map wire_of fs \<noteq> [] \<and> digest ''x'' = Inr d
    \<and> start_connection (open_ws (segs @ map wire_of fs)) = Some (Inr (), w)
    \<and> ws_sent w = [raw_bytes (handshake_text d)]
    \<and> rw_read_session ws_read 1 w = (Inr ps, w') \<and> map pk_class ps = [ConnectPacket, PingRequestPacket]"
proof -
  let ?headers = "[(''Upgrade'', ''websocket''), (''Sec-WebSocket-Key'', ''x'')]"
  let ?req = "request_text ''GET / HTTP/1.1'' ?headers"
  let ?segs = "[take 10 (raw_bytes ?req), drop 10 (raw_bytes ?req)]"
  let ?fs = "[(2, False, [1, 2, 3, 4], [0x10, 14, 0, 4, 77, 81, 84]), (9, True, [0, 0, 0, 0], []),
    (0, True, [5, 6, 7, 8], [84, 4, 2, 0, 60, 0, 2, 99, 49, 0xC0, 0])] :: client_frame list"
  have r: "request_ok ''GET / HTTP/1.1'' ?headers" "ascii ?req" "length ?req > 10"
    "list_ex (\<lambda>t. t \<in> set (''GET / HTTP/1.1'' # map header_line ?headers)) upgrade_set"
    "client_key ?headers = Some ''x''"
    by (simp_all add: request_ok_def header_ok_def CR_def LF_def request_text_def header_line_def upgrade_set_def
        client_key_def label_set_def)
  then have segs: "segments_ok ?segs" "concat ?segs = raw_bytes ?req" by (auto simp: segments_ok_def raw_bytes_def)
  obtain d where d: "digest ''x'' = Inr d"
    by (simp add: digest_def Let_def secret_key_def raw_bytes_def char_byte_def)
  have fs: "list_all client_frame_ok ?fs" "complete ?fs" by (simp_all add: complete_def)
  have s: "stream ?fs = [0x10, 14, 0, 4, 77, 81, 84, 84, 4, 2, 0, 60, 0, 2, 99, 49, 0xC0, 0]"
    by (simp add: stream_def)
  have "map_sum id (map pk_class \<circ> fst) (read_session 1 [0x10, 14, 0, 4, 77, 81, 84, 84, 4, 2, 0, 60, 0, 2, 99, 49, 0xC0, 0])
      = Inr [ConnectPacket, PingRequestPacket]"
    by code_simp
  then obtain ps rest where p: "read_session 1 (stream ?fs) = Inr (ps, rest)" "map pk_class ps = [ConnectPacket, PingRequestPacket]"
    unfolding s by (cases "read_session 1 [0x10, 14, 0, 4, 77, 81, 84, 84, 4, 2, 0, 60, 0, 2, 99, 49, 0xC0, 0]") auto
  from websocket_session [OF r(1) ascii_valid [OF r(2)] r(4,5) d segs fs, of 1] p d show ?thesis
    by (intro exI [of _ ?segs] exI [of _ ?fs]) auto
qed

end
