(* ===== verification/Packet_Typing.thy ===== *)
theory Packet_Typing
  imports Packets
begin

text \<open>
  What the classes promise about a packet that was read: every field that the flags enable is
  there, in the order of the class body, with a value of its type, whatever bytes came in.
\<close>

section \<open>Values of a type\<close>

fun has_type :: "item_type \<Rightarrow> item_value \<Rightarrow> bool" where
  "has_type (StaticInt n) (VInt i) \<longleftrightarrow> 0 \<le> i \<and> i < 256 ^ n"
| "has_type PacketIdType (VInt i) \<longleftrightarrow> 0 \<le> i \<and> i < 65536"
| "has_type DynamicStr (VStr s) \<longleftrightarrow> utf8_valid (raw_bytes s)"
| "has_type DynamicBytes (VBytes b) \<longleftrightarrow> length b < 65536"
| "has_type RemainingBytes VNone \<longleftrightarrow> True"
| "has_type RemainingBytes (VBytes b) \<longleftrightarrow> b \<noteq> []"
| "has_type ConnectFlagsType (VConnectFlags f) \<longleftrightarrow>
     f = connect_flags_from_int (cf_data f) \<and> 0 \<le> cf_data f \<and> cf_data f < 256"
| "has_type _ _ \<longleftrightarrow> False"

definition has_record_type :: "(string \<times> item_type) list \<Rightarrow> (string \<times> item_value) list \<Rightarrow> bool" where
  "has_record_type fs kvs \<longleftrightarrow>
     list_all2 (\<lambda>(name, t) (name', v). name' = name \<and> has_type t v) fs kvs"

fun has_field_type :: "field_type \<Rightarrow> field_value \<Rightarrow> bool" where
  "has_field_type (Item t) (Value v) \<longleftrightarrow> has_type t v"
| "has_field_type (ListOf t) (Items vs) \<longleftrightarrow> list_all (has_type t) vs"
| "has_field_type (ListOfRecord fs) (Records rs) \<longleftrightarrow> list_all (has_record_type fs) rs"
| "has_field_type _ _ \<longleftrightarrow> False"

text \<open>The keyword arguments are the enabled fields; \<open>pre\<close> are those of the fields before.\<close>

fun has_fields :: "field list \<Rightarrow> packet_flags \<Rightarrow> kwargs \<Rightarrow> kwargs \<Rightarrow> bool" where
  "has_fields [] flags pre kws \<longleftrightarrow> kws = []"
| "has_fields ((name, is_enabled, t) # rest) flags pre kws \<longleftrightarrow>
     (if is_enabled flags pre then
        (case kws of [] \<Rightarrow> False
         | (name', v) # kws' \<Rightarrow> name' = name \<and> has_field_type t v \<and> has_fields rest flags (pre @ [(name, v)]) kws')
      else has_fields rest flags pre kws)"

fun has_flags :: "packet_class \<Rightarrow> packet_flags \<Rightarrow> bool" where
  "has_flags cls (FlagInt i) \<longleftrightarrow> cls \<noteq> PublishPacket \<and> 0 \<le> i \<and> i < 16"
| "has_flags cls (FlagGroup f) \<longleftrightarrow> cls = PublishPacket \<and> f = publish_flags_from_int (pf_data f)
     \<and> 0 \<le> pf_data f \<and> pf_data f < 16"

definition well_typed :: "packet \<Rightarrow> bool" where
  "well_typed p \<longleftrightarrow> has_flags (pk_class p) (pk_flags p)
     \<and> has_fields (packet_fields (pk_class p)) (pk_flags p) [] (pk_kwargs p)"

section \<open>Numbers and texts\<close>

lemma bindP_Inr_iff: "bindP p f s = Inr r \<longleftrightarrow> (\<exists>x s1. p s = Inr (x, s1) \<and> f x s1 = Inr r)"
  by (auto simp: bindP_def res_simps)

lemma liftP_Inr_iff: "liftP m s = Inr (x, s1) \<longleftrightarrow> m = Inr x \<and> s1 = s"
  by (cases m) (auto simp: liftP_def)

lemma returnP_iff: "returnP x s = Inr (y, s1) \<longleftrightarrow> y = x \<and> s1 = s"
  by (auto simp: returnP_def)

lemmas parser_iffs = bindP_Inr_iff liftP_Inr_iff returnP_iff

lemma from_big_endian_less: "from_big_endian bs < 256 ^ length bs"
proof (induction bs rule: rev_induct)
  case (snoc b bs)
  have "unat b < 256" using unsigned_less [of b, where ?'a = nat] by simp
  with snoc show ?case by (simp add: from_big_endian_def)
qed (simp add: from_big_endian_def)

lemma read_bytes_length: "read_bytes n s = Inr (bs, s1) \<Longrightarrow> length bs = n"
  by (auto simp: read_bytes_def split: if_splits)

lemma read_bytes_nonempty: "read_bytes (nat len) s = Inr ([], s1) \<Longrightarrow> len < 1"
  using read_bytes_length by fastforce

lemma read_int_less: "read_int n s = Inr (i, s1) \<Longrightarrow> i < 256 ^ n"
  using from_big_endian_less read_bytes_length by (fastforce simp: read_int_def parser_iffs)

lemma read_int_type: "read_int n s = Inr (i, s1) \<Longrightarrow> int i < 256 ^ n"
  by (drule read_int_less) (simp flip: of_nat_power_less_of_nat_cancel_iff)

lemma unpack_H_less: "unpack_H bs = Inr i \<Longrightarrow> i < 65536"
  using from_big_endian_less [of bs] by (auto simp: unpack_H_def split: if_splits)

lemma decode_bytes_less: "decode_bytes s = Inr ((b, n), s1) \<Longrightarrow> length b < 65536"
  by (auto simp: decode_bytes_def parser_iffs dest!: unpack_H_less read_bytes_length)

lemma utf8_ascii: "list_all (\<lambda>b. b \<le> 0x7F) bs \<Longrightarrow> utf8_valid bs"
  by (induction bs) auto

definition ascii :: "char \<Rightarrow> bool" where
  "ascii c \<longleftrightarrow> char_byte c \<le> 0x7F"

lemma char_of_ascii: "n \<le> 127 \<Longrightarrow> ascii (char_of (n :: nat))"
  by (simp add: ascii_def char_byte_def word_le_nat_alt unat_of_nat)

lemma hex_ascii: "d < 16 \<Longrightarrow> ascii (hex_char d)"
  by (simp add: hex_char_def char_of_ascii)

lemma repr_byte_ascii: "ascii quote \<Longrightarrow> list_all ascii (repr_byte quote b)"
proof -
  assume q: "ascii quote"
  have l: "ascii CHR 0x5C" "ascii CHR ''t''" "ascii CHR ''n''" "ascii CHR ''r''" "ascii CHR ''x''"
    by code_simp+
  have "unat b < 256" using unsigned_less [of b, where ?'a = nat] by simp
  then have "unat b div 16 < 16" "unat b mod 16 < 16" by simp_all
  note hex = this [THEN hex_ascii]
  have "\<not> 127 \<le> b \<Longrightarrow> ascii (byte_char b)" by (simp add: ascii_def not_le order_less_imp_le)
  moreover have "byte_char b = quote \<or> byte_char b = CHR 0x5C \<Longrightarrow> ascii (byte_char b)" using q l by auto
  ultimately show ?thesis using q l hex by (simp add: repr_byte_def Let_def)
qed

lemma bytes_repr_ascii: "list_all (\<lambda>b. b \<le> 0x7F) (raw_bytes (bytes_repr bs))"
proof -
  have l: "ascii CHR ''b''" "ascii CHR 0x22" "ascii CHR 0x27" by code_simp+
  have "list_all ascii (concat (map (repr_byte quote) bs))" if "ascii quote" for quote
    using repr_byte_ascii [OF that] by (induction bs) simp_all
  with l have "list_all ascii (bytes_repr bs)" by (simp add: bytes_repr_def Let_def)
  then show ?thesis by (simp add: raw_bytes_def ascii_def list_all_iff)
qed

lemma decode_str_valid: "decode_str s = Inr ((t, n), s1) \<Longrightarrow> utf8_valid (raw_bytes t)"
  using utf8_ascii [OF bytes_repr_ascii]
  by (auto simp: decode_str_def parser_iffs py_decode_def raw_bytes_def [of "[]"] split: if_splits sum.splits)

section \<open>Reading gives values of the type\<close>

lemma read_item_type: "read_item t len s = Inr ((v, n), s1) \<Longrightarrow> has_type t v"
  by (cases t)
    (auto simp: parser_iffs connect_flags_from_int_def split: if_splits
      dest: read_int_type unpack_H_less decode_bytes_less decode_str_valid read_bytes_length read_bytes_nonempty)

lemma read_record_type:
  "read_record fs len s = Inr ((kvs, n), s1) \<Longrightarrow> has_record_type fs kvs"
proof (induction fs arbitrary: len s kvs n)
  case (Cons f fs)
  then show ?case
    by (cases f) (auto simp: parser_iffs has_record_type_def dest: read_item_type)
qed (simp add: has_record_type_def)

lemma list_loop_all:
  "list_loop rd len s = Inr ((vs, n), s1) \<Longrightarrow> (\<And>len s v n s1. rd len s = Inr ((v, n), s1) \<Longrightarrow> P v) \<Longrightarrow> list_all P vs"
proof (induction rd len s arbitrary: vs n s1 rule: list_loop.induct)
  case (1 rd len s)
  show ?case
  proof (cases "0 < len")
    case False
    then show ?thesis using "1.prems"(1) by (simp add: list_loop.simps [of rd len s])
  next
    case True
    then obtain v k s2 us m where v: "rd len s = Inr ((v, k), s2)" "k \<noteq> 0"
      and us: "list_loop rd (len - int k) s2 = Inr ((us, m), s1)" "vs = v # us"
      using "1.prems"(1) by (auto simp: list_loop.simps [of rd len s] split: sum.splits if_splits)
    from "1.IH" [OF True v(1) refl refl v(2) us(1) "1.prems"(2)] us(2) "1.prems"(2) [OF v(1)]
    show ?thesis by simp
  qed
qed

lemma read_field_type: "read_field t len s = Inr ((v, n), s1) \<Longrightarrow> has_field_type t v"
  by (cases t)
    (auto simp: parser_iffs dest: read_item_type list_loop_all [OF _ read_item_type] list_loop_all [OF _ read_record_type])

lemma read_payload_type:
  "read_payload fs flags len pre s = Inr ((kws, n), s1) \<Longrightarrow> \<exists>kws'. kws = pre @ kws' \<and> has_fields fs flags pre kws'"
proof (induction fs arbitrary: len pre s n)
  case (Cons f fs)
  obtain name is_enabled t where f: "f = (name, is_enabled, t)" by (cases f)
  show ?case
  proof (cases "is_enabled flags pre")
    case True
    with Cons.prems obtain v k s2 m where "read_field t len s = Inr ((v, k), s2)"
      "read_payload fs flags (length_after t len k) (pre @ [(name, v)]) s2 = Inr ((kws, m), s1)"
      by (auto simp: f parser_iffs)
    from Cons.IH [OF this(2)] obtain kws' where "kws = (pre @ [(name, v)]) @ kws'"
      "has_fields fs flags (pre @ [(name, v)]) kws'" by blast
    with True read_field_type [OF \<open>read_field t len s = _\<close>] show ?thesis
      by (intro exI [of _ "(name, v) # kws'"]) (simp add: f)
  next
    case False
    then show ?thesis using Cons by (simp add: f)
  qed
qed (simp add: parser_iffs)

lemma header_flags: "decode_header s = Inr ((ty, flags), s1) \<Longrightarrow> flags < 16"
proof -
  have "w AND 0x0F \<le> (0x0F :: byte)" for w by (rule word_and_le1)
  then have "unat (w AND 0x0F :: byte) \<le> 15" for w by (simp add: word_le_nat_alt)
  from le_imp_less_Suc [OF this] have "unat (w AND 0x0F :: byte) < 16" for w by simp
  moreover assume "decode_header s = Inr ((ty, flags), s1)"
  ultimately show ?thesis by (fastforce simp: decode_header_def parser_iffs Let_def)
qed

text \<open>
  C19: Whatever bytes a peer sends, a packet that is read is well-typed: it has exactly the
  fields of its class that its flags enable, in their order, each with a value of its field's
  type, numbers in the range of their bytes, texts that encode again, and the flags of its class.
  So no handler of a packet meets a missing argument or a value of another type.
\<close>

theorem read_packet_well_typed:
  assumes "read_next_packet s = Inr (p, rest)"
  shows "well_typed p"
proof -
  obtain ty flags s1 cls where h: "decode_header s = Inr ((ty, flags), s1)" "read_packet cls flags s1 = Inr (p, rest)"
    using assms by (auto simp: read_next_packet_def parser_iffs split: prod.splits)
  then obtain len kws n s2 where p: "p = \<lparr>pk_class = cls, pk_flags = flags_from_int cls (int flags), pk_length = len, pk_kwargs = kws\<rparr>"
    "read_payload (packet_fields cls) (flags_from_int cls (int flags)) (int len) [] s2 = Inr ((kws, n), rest)"
    by (auto simp: read_packet_def parser_iffs)
  have "has_flags cls (flags_from_int cls (int flags))"
    using header_flags [OF h(1)] by (simp add: flags_from_int_def publish_flags_from_int_def)
  with read_payload_type [OF p(2)] p(1) show ?thesis by (simp add: well_typed_def)
qed

lemma read_packet_well_typed_witness:
  "\<exists>p. read_next_packet [0x62, 2, 1, 5] = Inr (p, []) \<and> well_typed p \<and> pk_kwargs p = [(''id'', Value (VInt 261))]"
proof -
  obtain p where p: "read_next_packet [0x62, 2, 1, 5] = Inr (p, [])" and k: "pk_kwargs p = [(''id'', Value (VInt 261))]"
    using infer_type_code [of PublishReleasedPacket]
    by (simp add: read_next_packet_def decode_header_def bindP_def read_bytes_def unpack_B_def unpack_H_def
        read_packet_def decode_packet_length_def enabled_default_def)
  from p read_packet_well_typed [OF p] k show ?thesis by blast
qed

end
