(* ===== verification/Backend.thy ===== *)
theory Backend
  imports Py_Values
begin

text \<open>
  backends/manager.py and backends/worker.py: the main process hands tasks and queries to a
  worker process over a shared list of tasks, a shared list \<open>status\<close> and two condition
  variables. A step of the model runs a thread from one wait, lock or loop test to the next; what
  happens under a lock is one step. A notification reaches a thread that is waiting and is lost
  otherwise.
\<close>

section \<open>The shared state\<close>

text \<open>
  What is stored in \<open>status[1]\<close>: the arguments of a query or the response to one, since both
  \<open>QUERY\<close> and \<open>RESPONSE\<close> are 1; \<open>None\<close> when it holds nothing. Queries have text arguments;
  the responses are those of the two workers.
\<close>

datatype ipc = Args "string list" | RBytes bytes | RBool bool

datatype arg = AStr string | AInt nat

fun truthy :: "ipc \<Rightarrow> bool" where
  "truthy (Args xs) = (xs \<noteq> [])"
| "truthy (RBytes b) = (b \<noteq> [])"
| "truthy (RBool b) = b"

text \<open>\<open>*query\<close> in a call.\<close>

fun unpack :: "ipc \<Rightarrow> py_error + arg list" where
  "unpack (Args xs) = Inr (map AStr xs)"
| "unpack (RBytes b) = Inr (map (\<lambda>x. AInt (unat x)) b)"
| "unpack (RBool b) = Inl TypeError"

text \<open>The position of the worker, with its local variables; \<open>W_Dead\<close> after an exception.\<close>

datatype 'a worker_pc =
    W_Off | W_Check | W_Enter | W_Wait | W_Woken
  | W_Query ipc "'a list" | W_Notify "'a list" | W_Tasks "'a list"
  | W_End | W_Dead py_error "'a list"

text \<open>The thread that holds \<open>query_lock\<close>, if any, and the one that starts and stops the worker.\<close>

datatype asker_pc = Q_Sent | Q_Wait | Q_Woken

datatype main_pc = M_New | M_Running | M_Flag | M_Join | M_Done

record ('a, 'w) backend =
  b_tasks :: "'a list"
  b_running :: bool
  b_slot :: "ipc option"
  b_worker :: "'a worker_pc"
  b_state :: 'w
  b_asker :: "asker_pc option"
  b_main :: main_pc

definition new_backend :: "'w \<Rightarrow> ('a, 'w) backend" where
  "new_backend w0 = \<lparr>b_tasks = [], b_running = False, b_slot = None, b_worker = W_Off, b_state = w0,
     b_asker = None, b_main = M_New\<rparr>"

definition notify_worker :: "('a, 'w) backend \<Rightarrow> ('a, 'w) backend" where
  "notify_worker s = (if b_worker s = W_Wait then s\<lparr>b_worker := W_Woken\<rparr> else s)"

section \<open>The manager\<close>

definition enter_backend :: "('a, 'w) backend \<Rightarrow> ('a, 'w) backend" where
  "enter_backend s = s\<lparr>b_running := True, b_worker := W_Check, b_main := M_Running\<rparr>"

definition add_tasks :: "'a list \<Rightarrow> ('a, 'w) backend \<Rightarrow> ('a, 'w) backend" where
  "add_tasks ts s = notify_worker (s\<lparr>b_tasks := b_tasks s @ ts\<rparr>)"

text \<open>\<open>query\<close> in three parts: up to the wait, the wait itself, and a wake-up.\<close>

definition ask :: "string list \<Rightarrow> ('a, 'w) backend \<Rightarrow> ('a, 'w) backend" where
  "ask args s = notify_worker (s\<lparr>b_slot := Some (Args args), b_asker := Some Q_Sent\<rparr>)"

definition await_response :: "('a, 'w) backend \<Rightarrow> ('a, 'w) backend" where
  "await_response s = s\<lparr>b_asker := Some Q_Wait\<rparr>"

definition take_response :: "('a, 'w) backend \<Rightarrow> ipc option \<times> ('a, 'w) backend" where
  "take_response s =
     (case b_slot s of
        None \<Rightarrow> (None, s\<lparr>b_asker := Some Q_Wait\<rparr>)
      | Some v \<Rightarrow> (Some v, s\<lparr>b_slot := None, b_asker := None\<rparr>))"

text \<open>\<open>__exit__\<close>: the flag, then the notification, then the join.\<close>

definition clear_running :: "('a, 'w) backend \<Rightarrow> ('a, 'w) backend" where
  "clear_running s = s\<lparr>b_running := False, b_main := M_Flag\<rparr>"

definition notify_exit :: "('a, 'w) backend \<Rightarrow> ('a, 'w) backend" where
  "notify_exit s = notify_worker (s\<lparr>b_main := M_Join\<rparr>)"

section \<open>The worker\<close>

definition notify_asker :: "('a, 'w) backend \<Rightarrow> ('a, 'w) backend" where
  "notify_asker s = (if b_asker s = Some Q_Wait then s\<lparr>b_asker := Some Q_Woken\<rparr> else s)"

text \<open>What the worker does after a wake-up, still under the lock.\<close>

definition worker_woken :: "('a, 'w) backend \<Rightarrow> ('a, 'w) backend" where
  "worker_woken s =
     (let s1 = s\<lparr>b_tasks := [], b_slot := None\<rparr>
      in case b_slot s of
           Some q \<Rightarrow>
             if truthy q then s1\<lparr>b_worker := W_Query q (b_tasks s)\<rparr>
             else if b_tasks s \<noteq> [] \<or> \<not> b_running s then s1\<lparr>b_worker := W_Tasks (b_tasks s)\<rparr>
             else s1\<lparr>b_worker := W_Wait\<rparr>
         | None \<Rightarrow>
             if b_tasks s \<noteq> [] \<or> \<not> b_running s then s1\<lparr>b_worker := W_Tasks (b_tasks s)\<rparr>
             else s1\<lparr>b_worker := W_Wait\<rparr>)"

text \<open>
  One step of the worker, \<open>None\<close> when it waits or has ended; \<open>query\<close> and \<open>run\<close> are the methods
  of its class.
\<close>

definition worker_step ::
    "(arg list \<Rightarrow> py_error + ipc) \<Rightarrow> ('a list \<Rightarrow> 'w \<Rightarrow> py_error + 'w) \<Rightarrow> ('a, 'w) backend
     \<Rightarrow> ('a, 'w) backend option" where
  "worker_step query run s =
     (case b_worker s of
        W_Off \<Rightarrow> None
      | W_Check \<Rightarrow> Some (s\<lparr>b_worker := (if b_running s then W_Enter else W_End)\<rparr>)
      | W_Enter \<Rightarrow> Some (s\<lparr>b_worker := W_Wait\<rparr>)
      | W_Wait \<Rightarrow> None
      | W_Woken \<Rightarrow> Some (worker_woken s)
      | W_Query q ts \<Rightarrow>
          (case bindR (unpack q) query of
             Inl e \<Rightarrow> Some (s\<lparr>b_worker := W_Dead e ts\<rparr>)
           | Inr v \<Rightarrow> Some (s\<lparr>b_slot := Some v, b_worker := W_Notify ts\<rparr>))
      | W_Notify ts \<Rightarrow> Some (notify_asker (s\<lparr>b_worker := W_Tasks ts\<rparr>))
      | W_Tasks ts \<Rightarrow>
          if ts = [] then Some (s\<lparr>b_worker := W_Check\<rparr>)
          else (case run ts (b_state s) of
                  Inl e \<Rightarrow> Some (s\<lparr>b_worker := W_Dead e ts\<rparr>)
                | Inr w \<Rightarrow> Some (s\<lparr>b_state := w, b_worker := W_Check\<rparr>))
      | W_End \<Rightarrow> None
      | W_Dead e ts \<Rightarrow> None)"

section \<open>Interleavings\<close>

text \<open>
  \<open>Start\<close> and \<open>Stop\<close> come from the main thread, \<open>Ask\<close>, \<open>Answer\<close> and \<open>Add\<close> from the threads
  that use the worker; \<open>Internal\<close> is the worker, or an asking thread that starts to wait or
  wakes up for nothing.
\<close>

datatype 'a event = Start | Ask "string list" | Answer ipc | Add "'a list" | Stop | Internal

inductive bstep ::
    "(arg list \<Rightarrow> py_error + ipc) \<Rightarrow> ('a list \<Rightarrow> 'w \<Rightarrow> py_error + 'w) \<Rightarrow> ('a, 'w) backend
     \<Rightarrow> 'a event \<Rightarrow> ('a, 'w) backend \<Rightarrow> bool"
  for query run where
  start: "b_main s = M_New \<Longrightarrow> bstep query run s Start (enter_backend s)"
| add: "bstep query run s (Add ts) (add_tasks ts s)"
| ask: "b_asker s = None \<Longrightarrow> bstep query run s (Ask args) (ask args s)"
| await: "b_asker s = Some Q_Sent \<Longrightarrow> bstep query run s Internal (await_response s)"
| woken_in_vain: "b_asker s = Some Q_Woken \<Longrightarrow> take_response s = (None, s') \<Longrightarrow> bstep query run s Internal s'"
| answer: "b_asker s = Some Q_Woken \<Longrightarrow> take_response s = (Some v, s') \<Longrightarrow> bstep query run s (Answer v) s'"
| worker: "worker_step query run s = Some s' \<Longrightarrow> bstep query run s Internal s'"
| flag: "b_main s = M_Running \<Longrightarrow> bstep query run s Stop (clear_running s)"
| exit: "b_main s = M_Flag \<Longrightarrow> bstep query run s Stop (notify_exit s)"
| join: "b_main s = M_Join \<Longrightarrow> b_worker s = W_End \<or> (\<exists>e ts. b_worker s = W_Dead e ts)
    \<Longrightarrow> bstep query run s Stop (s\<lparr>b_main := M_Done\<rparr>)"

inductive_cases bstepE: "bstep query run s l s'"

inductive brun ::
    "(arg list \<Rightarrow> py_error + ipc) \<Rightarrow> ('a list \<Rightarrow> 'w \<Rightarrow> py_error + 'w) \<Rightarrow> ('a, 'w) backend
     \<Rightarrow> 'a event list \<Rightarrow> ('a, 'w) backend \<Rightarrow> bool"
  for query run s where
  brun_Nil: "brun query run s [] s"
| brun_snoc: "brun query run s tr s' \<Longrightarrow> bstep query run s' l s'' \<Longrightarrow> brun query run s (tr @ [l]) s''"

inductive_simps brun_Nil_iff [simp]: "brun query run s [] s'"

fun added :: "'a event list \<Rightarrow> 'a list" where
  "added [] = []"
| "added (Add ts # tr) = ts @ added tr"
| "added (_ # tr) = added tr"

fun asked :: "'a event list \<Rightarrow> string list list" where
  "asked [] = []"
| "asked (Ask args # tr) = args # asked tr"
| "asked (_ # tr) = asked tr"

fun answered :: "'a event list \<Rightarrow> ipc list" where
  "answered [] = []"
| "answered (Answer v # tr) = v # answered tr"
| "answered (_ # tr) = answered tr"

lemma added_append [simp]: "added (tr @ tr') = added tr @ added tr'"
  by (induction tr rule: added.induct) auto

lemma asked_append [simp]: "asked (tr @ tr') = asked tr @ asked tr'"
  by (induction tr rule: asked.induct) auto

lemma answered_append [simp]: "answered (tr @ tr') = answered tr @ answered tr'"
  by (induction tr rule: answered.induct) auto

section \<open>Schedules\<close>

text \<open>A schedule names the thread that moves; running one is a way to compute a run.\<close>

datatype 'a move = MStart | MAsk "string list" | MAwait | MTake | MAdd "'a list" | MStop | MWorker

definition do_move ::
    "(arg list \<Rightarrow> py_error + ipc) \<Rightarrow> ('a list \<Rightarrow> 'w \<Rightarrow> py_error + 'w) \<Rightarrow> 'a move \<Rightarrow> ('a, 'w) backend
     \<Rightarrow> ('a event \<times> ('a, 'w) backend) option" where
  "do_move query run m s =
     (case m of
        MStart \<Rightarrow> if b_main s = M_New then Some (Start, enter_backend s) else None
      | MAsk args \<Rightarrow> if b_asker s = None then Some (Ask args, ask args s) else None
      | MAwait \<Rightarrow> if b_asker s = Some Q_Sent then Some (Internal, await_response s) else None
      | MTake \<Rightarrow>
          if b_asker s = Some Q_Woken
          then (case take_response s of (None, s') \<Rightarrow> Some (Internal, s') | (Some v, s') \<Rightarrow> Some (Answer v, s'))
          else None
      | MAdd ts \<Rightarrow> Some (Add ts, add_tasks ts s)
      | MStop \<Rightarrow> if b_main s = M_Running then Some (Stop, clear_running s)
                 else if b_main s = M_Flag then Some (Stop, notify_exit s) else None
      | MWorker \<Rightarrow> map_option (Pair Internal) (worker_step query run s))"

fun do_moves ::
    "(arg list \<Rightarrow> py_error + ipc) \<Rightarrow> ('a list \<Rightarrow> 'w \<Rightarrow> py_error + 'w) \<Rightarrow> 'a move list \<Rightarrow> ('a, 'w) backend
     \<Rightarrow> ('a event list \<times> ('a, 'w) backend) option" where
  "do_moves query run [] s = Some ([], s)"
| "do_moves query run (m # ms) s =
     (case do_move query run m s of
        None \<Rightarrow> None
      | Some (l, s') \<Rightarrow> map_option (\<lambda>(tr, s''). (l # tr, s'')) (do_moves query run ms s'))"

lemmas do_moves_simps = do_move_def split_beta take_response_def notify_worker_def notify_asker_def
  worker_woken_def Let_def

lemma do_move_bstep: "do_move query run m s = Some (l, s') \<Longrightarrow> bstep query run s l s'"
  by (cases m) (auto simp: do_move_def intro: bstep.intros split: if_splits prod.splits option.splits)

lemma brun_Cons:
  assumes "bstep query run s l s'" and "brun query run s' tr s''"
  shows "brun query run s (l # tr) s''"
  using assms(2)
proof (induction rule: brun.induct)
  case brun_Nil
  show ?case using brun.brun_snoc [OF brun.brun_Nil assms(1)] by simp
next
  case (brun_snoc tr t l' t')
  from brun.brun_snoc [OF brun_snoc(3,2)] show ?case by simp
qed

lemma do_moves_brun: "do_moves query run ms s = Some (tr, s') \<Longrightarrow> brun query run s tr s'"
  by (induction ms arbitrary: s tr) (auto intro: brun_Cons do_move_bstep split: option.splits)

section \<open>Tasks\<close>

text \<open>The tasks the worker has taken and not finished.\<close>

fun in_hand :: "'a worker_pc \<Rightarrow> 'a list" where
  "in_hand (W_Query q ts) = ts"
| "in_hand (W_Notify ts) = ts"
| "in_hand (W_Tasks ts) = ts"
| "in_hand (W_Dead e ts) = ts"
| "in_hand _ = []"

text \<open>The batches \<open>bs\<close> were run one after the other.\<close>

definition ran :: "('a list \<Rightarrow> 'w \<Rightarrow> py_error + 'w) \<Rightarrow> 'w \<Rightarrow> 'a list list \<Rightarrow> 'w \<Rightarrow> bool" where
  "ran run w0 bs w \<longleftrightarrow> foldR (\<lambda>w b. run b w) w0 bs = Inr w \<and> [] \<notin> set bs"

lemma foldR_snoc: "foldR f s (xs @ [x]) = bindR (foldR f s xs) (\<lambda>s'. f s' x)"
  by (induction xs arbitrary: s) (simp_all add: bindR_assoc)

lemma ran_snoc: "ran run w0 bs w \<Longrightarrow> run b w = Inr w' \<Longrightarrow> b \<noteq> [] \<Longrightarrow> ran run w0 (bs @ [b]) w'"
  by (simp add: ran_def foldR_snoc)

lemma notify_worker_simps [simp]:
  "b_tasks (notify_worker s) = b_tasks s" "b_state (notify_worker s) = b_state s"
  "b_slot (notify_worker s) = b_slot s" "b_asker (notify_worker s) = b_asker s"
  "b_main (notify_worker s) = b_main s" "b_running (notify_worker s) = b_running s"
  "in_hand (b_worker (notify_worker s)) = in_hand (b_worker s)"
  by (simp_all add: notify_worker_def)

lemma notify_asker_simps [simp]:
  "b_tasks (notify_asker s) = b_tasks s" "b_state (notify_asker s) = b_state s"
  "b_slot (notify_asker s) = b_slot s" "b_worker (notify_asker s) = b_worker s"
  "b_main (notify_asker s) = b_main s" "b_running (notify_asker s) = b_running s"
  by (simp_all add: notify_asker_def)

text \<open>What a step does to the tasks.\<close>

lemma worker_step_tasks:
  assumes "worker_step query run s = Some s'"
  shows "(in_hand (b_worker s') @ b_tasks s' = in_hand (b_worker s) @ b_tasks s \<and> b_state s' = b_state s) \<or>
    (\<exists>ts. b_worker s = W_Tasks ts \<and> ts \<noteq> [] \<and> run ts (b_state s) = Inr (b_state s')
      \<and> in_hand (b_worker s') = [] \<and> b_tasks s' = b_tasks s)"
  using assms
  by (cases "b_worker s")
    (auto simp: worker_step_def worker_woken_def Let_def split: if_splits option.splits sum.splits)

lemma take_response_tasks:
  "take_response s = (v, s') \<Longrightarrow> b_tasks s' = b_tasks s \<and> b_state s' = b_state s \<and> b_worker s' = b_worker s"
  by (auto simp: take_response_def split: option.splits)

lemma bstep_tasks:
  assumes "bstep query run s l s'" and "b_main s = M_New \<longrightarrow> b_worker s = W_Off"
  shows "(in_hand (b_worker s') @ b_tasks s' = in_hand (b_worker s) @ b_tasks s @ added [l] \<and> b_state s' = b_state s) \<or>
    (\<exists>ts. b_worker s = W_Tasks ts \<and> ts \<noteq> [] \<and> run ts (b_state s) = Inr (b_state s')
      \<and> in_hand (b_worker s') = [] \<and> b_tasks s' = b_tasks s \<and> added [l] = [])"
  using assms(1)
proof (cases rule: bstep.cases)
  case worker
  then show ?thesis using worker_step_tasks by fastforce
qed (use assms(2) in \<open>auto simp: enter_backend_def add_tasks_def ask_def await_response_def clear_running_def
    notify_exit_def dest: take_response_tasks\<close>)

lemma bstep_new:
  "bstep query run s l s' \<Longrightarrow> b_main s = M_New \<longrightarrow> b_worker s = W_Off \<Longrightarrow> b_main s' = M_New \<longrightarrow> b_worker s' = W_Off"
  by (erule bstepE)
    (auto simp: enter_backend_def add_tasks_def ask_def await_response_def clear_running_def notify_exit_def
       take_response_def worker_step_def notify_worker_def worker_woken_def notify_asker_def Let_def
       split: if_splits option.splits worker_pc.splits sum.splits)

lemma brun_new: "brun query run (new_backend w0) tr s \<Longrightarrow> b_main s = M_New \<longrightarrow> b_worker s = W_Off"
proof (induction rule: brun.induct)
  case (brun_snoc tr s' l s'')
  show ?case by (rule bstep_new [OF brun_snoc(2,3)])
qed (simp add: new_backend_def)

lemma brun_batches:
  assumes "brun query run (new_backend w0) tr s"
  shows "\<exists>bs. ran run w0 bs (b_state s) \<and> concat bs @ in_hand (b_worker s) @ b_tasks s = added tr"
  using assms
proof (induction rule: brun.induct)
  case brun_Nil
  show ?case by (intro exI [of _ "[]"]) (simp add: ran_def new_backend_def)
next
  case (brun_snoc tr s' l s'')
  then obtain bs where bs: "ran run w0 bs (b_state s')" "concat bs @ in_hand (b_worker s') @ b_tasks s' = added tr"
    by blast
  from bstep_tasks [OF brun_snoc(2) brun_new [OF brun_snoc(1)]] show ?case
  proof
    assume "in_hand (b_worker s'') @ b_tasks s'' = in_hand (b_worker s') @ b_tasks s' @ added [l] \<and> b_state s'' = b_state s'"
    then show ?thesis using bs by (intro exI [of _ bs]) (simp flip: append_assoc)
  next
    assume "\<exists>ts. b_worker s' = W_Tasks ts \<and> ts \<noteq> [] \<and> run ts (b_state s') = Inr (b_state s'')
      \<and> in_hand (b_worker s'') = [] \<and> b_tasks s'' = b_tasks s' \<and> added [l] = []"
    then obtain ts where "b_worker s' = W_Tasks ts" "ts \<noteq> []" "run ts (b_state s') = Inr (b_state s'')"
      "in_hand (b_worker s'') = []" "b_tasks s'' = b_tasks s'" "added [l] = []" by blast
    then show ?thesis using bs ran_snoc [OF bs(1)] by (intro exI [of _ "bs @ [ts]"]) simp
  qed
qed

text \<open>
  C20: No task is lost, repeated or reordered. Whatever tasks and queries the threads of the main
  process send, and however their steps and the worker's interleave: the batches that the worker
  has run, the tasks it has in hand and the tasks that wait, one after the other, are the tasks
  that were added, in the order they were added. Every batch was run successfully and held a
  task.
\<close>

theorem tasks_run_in_order:
  assumes "brun query run (new_backend w0) tr s"
  shows "\<exists>bs. ran run w0 bs (b_state s) \<and> concat bs @ in_hand (b_worker s) @ b_tasks s = added tr"
  by (rule brun_batches [OF assms])

lemma tasks_run_in_order_witness:
  "\<exists>s. brun (\<lambda>args. Inl TypeError) (\<lambda>ts w. Inr (w @ ts)) (new_backend []) [Start, Internal, Internal, Add [1, 2], Add [3 :: nat]] s
    \<and> in_hand (b_worker s) @ b_tasks s = [1, 2, 3]"
proof -
  let ?s = "add_tasks [3] (add_tasks [1, 2] ((enter_backend (new_backend []))\<lparr>b_worker := W_Wait\<rparr>)) :: (nat, nat list) backend"
  have "brun (\<lambda>args. Inl TypeError) (\<lambda>ts w. Inr (w @ ts)) (new_backend []) [Start, Internal, Internal, Add [1, 2], Add [3]] ?s"
    by (rule do_moves_brun [of _ _ "[MStart, MWorker, MWorker, MAdd [1, 2], MAdd [3]]"])
      (simp add: do_moves_simps enter_backend_def new_backend_def add_tasks_def worker_step_def)
  from this tasks_run_in_order [OF this] show ?thesis
    by (auto simp: add_tasks_def enter_backend_def new_backend_def notify_worker_def)
qed

section \<open>Queries while no task is added\<close>

fun no_tasks :: "'a event list \<Rightarrow> bool" where
  "no_tasks [] = True"
| "no_tasks (Add ts # tr) = False"
| "no_tasks (Stop # tr) = False"
| "no_tasks (_ # tr) = no_tasks tr"

lemma no_tasks_append [simp]: "no_tasks (tr @ tr') \<longleftrightarrow> no_tasks tr \<and> no_tasks tr'"
  by (induction tr rule: no_tasks.induct) auto

definition answers :: "(arg list \<Rightarrow> py_error + ipc) \<Rightarrow> string list \<Rightarrow> ipc \<Rightarrow> bool" where
  "answers query args v \<longleftrightarrow> query (map AStr args) = Inr v"

text \<open>What holds between a query and its answer, and when there is no query.\<close>

definition asking :: "(arg list \<Rightarrow> py_error + ipc) \<Rightarrow> ('a, 'w) backend \<Rightarrow> string list \<Rightarrow> bool" where
  "asking query s args \<longleftrightarrow>
     (case b_worker s of
        W_Woken \<Rightarrow> b_slot s = Some (Args args) \<and> b_asker s \<noteq> Some Q_Woken
      | W_Query q ts \<Rightarrow> q = Args args \<and> b_asker s \<noteq> Some Q_Woken
      | W_Notify ts \<Rightarrow> (\<exists>v. b_slot s = Some v \<and> answers query args v) \<and> b_asker s \<noteq> Some Q_Woken
      | _ \<Rightarrow> b_asker s = Some Q_Woken \<longrightarrow> (\<exists>v. b_slot s = Some v \<and> answers query args v))"

definition resting :: "('a, 'w) backend \<Rightarrow> bool" where
  "resting s \<longleftrightarrow> b_slot s = None \<and>
     (case b_worker s of W_Woken \<Rightarrow> False | W_Query q ts \<Rightarrow> False | W_Notify ts \<Rightarrow> False | _ \<Rightarrow> True)"

lemma worker_step_asking:
  assumes "worker_step query run s = Some s'" and "b_tasks s = []" and "in_hand (b_worker s) = []"
    and "b_running s"
  shows "b_tasks s' = []" and "in_hand (b_worker s') = []" and "b_running s'"
    and "b_asker s = Some p \<Longrightarrow> asking query s args \<Longrightarrow> asking query s' args \<and> b_asker s' \<noteq> None"
    and "b_asker s = None \<Longrightarrow> resting s \<Longrightarrow> resting s' \<and> b_asker s' = None"
proof -
  show "b_tasks s' = []" "in_hand (b_worker s') = []" "b_running s'"
    using assms
    by (cases "b_worker s"; auto simp: worker_step_def worker_woken_def Let_def
        split: if_splits option.splits sum.splits)+
  show "asking query s' args \<and> b_asker s' \<noteq> None" if "b_asker s = Some p" "asking query s args"
    using assms that
    by (cases "b_worker s")
      (auto simp: worker_step_def worker_woken_def asking_def answers_def notify_asker_def Let_def
        split: if_splits option.splits sum.splits)
  show "resting s' \<and> b_asker s' = None" if "b_asker s = None" "resting s"
    using assms that
    by (cases "b_worker s")
      (auto simp: worker_step_def resting_def notify_asker_def Let_def split: if_splits option.splits sum.splits)
qed

text \<open>The invariant of the shared state, with the query that waits for its answer.\<close>

definition backend_inv ::
    "(arg list \<Rightarrow> py_error + ipc) \<Rightarrow> ('a, 'w) backend \<Rightarrow> string list option \<Rightarrow> bool" where
  "backend_inv query s pending \<longleftrightarrow>
     b_tasks s = [] \<and> in_hand (b_worker s) = [] \<and>
     (if b_worker s = W_Off then b_main s = M_New \<and> b_asker s \<noteq> Some Q_Woken
      else b_main s = M_Running \<and> b_running s) \<and>
     (case pending of
        None \<Rightarrow> b_asker s = None \<and> resting s
      | Some args \<Rightarrow> b_asker s \<noteq> None \<and> asking query s args)"

lemma inv_new: "backend_inv query (new_backend w0) None"
  by (simp add: backend_inv_def new_backend_def resting_def)

lemma inv_start: "backend_inv query s p \<Longrightarrow> b_main s = M_New \<Longrightarrow> backend_inv query (enter_backend s) p"
  by (cases "b_worker s = W_Off"; cases p)
    (auto simp: backend_inv_def enter_backend_def resting_def asking_def)

lemma inv_ask: "backend_inv query s p \<Longrightarrow> b_asker s = None \<Longrightarrow> p = None \<and> backend_inv query (ask args s) (Some args)"
  by (cases "b_worker s"; cases p)
    (auto simp: backend_inv_def ask_def resting_def asking_def notify_worker_def)

lemma inv_await: "backend_inv query s p \<Longrightarrow> b_asker s = Some Q_Sent \<Longrightarrow> backend_inv query (await_response s) p"
  by (cases "b_worker s"; cases p) (auto simp: backend_inv_def await_response_def asking_def)

lemma inv_take:
  "backend_inv query s p \<Longrightarrow> b_asker s = Some Q_Woken \<Longrightarrow>
   \<exists>args v. p = Some args \<and> answers query args v \<and> take_response s = (Some v, s\<lparr>b_slot := None, b_asker := None\<rparr>)
     \<and> backend_inv query (s\<lparr>b_slot := None, b_asker := None\<rparr>) None"
  by (cases "b_worker s"; cases p) (auto simp: backend_inv_def take_response_def asking_def resting_def)

lemma inv_worker:
  assumes "backend_inv query s p" and "worker_step query run s = Some s'"
  shows "backend_inv query s' p"
proof -
  have on: "b_worker s \<noteq> W_Off" "b_worker s' \<noteq> W_Off" and m: "b_main s' = b_main s"
    using assms(2) by (cases "b_worker s"; auto simp: worker_step_def worker_woken_def Let_def
        split: if_splits option.splits sum.splits)+
  then have run: "b_tasks s = []" "in_hand (b_worker s) = []" "b_running s" "b_main s = M_Running"
    using assms(1) by (auto simp: backend_inv_def)
  note w = worker_step_asking [OF assms(2) run(1-3)]
  show ?thesis
  proof (cases p)
    case None
    then have "b_asker s = None" "resting s" using assms(1) by (simp_all add: backend_inv_def)
    with w(5) None on m run w(1-3) show ?thesis by (simp add: backend_inv_def)
  next
    case (Some args)
    then obtain q where "b_asker s = Some q" "asking query s args" using assms(1) by (auto simp: backend_inv_def)
    with w(4) Some on m run w(1-3) show ?thesis by (simp add: backend_inv_def)
  qed
qed

definition asked_answered ::
    "(arg list \<Rightarrow> py_error + ipc) \<Rightarrow> 'a event list \<Rightarrow> ('a, 'w) backend \<Rightarrow> bool" where
  "asked_answered query tr s \<longleftrightarrow>
     (\<exists>as p. list_all2 (answers query) as (answered tr) \<and> asked tr = as @ (case p of None \<Rightarrow> [] | Some a \<Rightarrow> [a])
        \<and> backend_inv query s p)"

lemma asked_answered_step:
  assumes "bstep query run s l s'" and "asked_answered query tr s" and "no_tasks [l]"
  shows "asked_answered query (tr @ [l]) s'"
proof -
  obtain as p where as: "list_all2 (answers query) as (answered tr)"
    "asked tr = as @ (case p of None \<Rightarrow> [] | Some a \<Rightarrow> [a])" and inv: "backend_inv query s p"
    using assms(2) unfolding asked_answered_def by blast
  have same: "asked_answered query (tr @ [l]) s'" if "backend_inv query s' p" "answered [l] = []" "asked [l] = []"
    using as that unfolding asked_answered_def by (intro exI [of _ as] exI [of _ p]) simp
  show ?thesis using assms(1)
  proof (cases rule: bstep.cases)
    case start
    then show ?thesis using inv_start [OF inv] by (intro same) simp_all
  next
    case (ask args)
    then show ?thesis using as inv_ask [OF inv, of args] unfolding asked_answered_def
      by (intro exI [of _ as] exI [of _ "Some args"]) simp
  next
    case await
    then show ?thesis using inv_await [OF inv] by (intro same) simp_all
  next
    case woken_in_vain
    then show ?thesis using inv_take [OF inv] by auto
  next
    case (answer v)
    then show ?thesis using as inv_take [OF inv] unfolding asked_answered_def
      by (auto intro!: exI [of _ "asked tr"] exI [of _ None] list_all2_appendI)
  next
    case worker
    then show ?thesis using inv_worker [OF inv] by (intro same) simp_all
  qed (use assms(3) in auto)
qed

text \<open>
  C21: While no tasks are added and the worker is not stopped, the queries of any number of
  threads are answered one after the other, and each answer is what the worker's \<open>query\<close> gives
  for the arguments of that query; at most the last query is still without an answer.
\<close>

theorem answers_match_queries:
  assumes "brun query run (new_backend w0) tr s" and "no_tasks tr"
  shows "\<exists>as rest. asked tr = as @ rest \<and> list_all2 (answers query) as (answered tr)
    \<and> length rest = (if b_asker s = None then 0 else 1)"
proof -
  have "asked_answered query tr s"
    using assms
  proof (induction rule: brun.induct)
    case brun_Nil
    show ?case unfolding asked_answered_def
      by (intro exI [of _ "[]"] exI [of _ None]) (simp add: inv_new)
  next
    case (brun_snoc tr s' l s'')
    then show ?case using asked_answered_step by fastforce
  qed
  then obtain as p where a: "list_all2 (answers query) as (answered tr)"
    "asked tr = as @ (case p of None \<Rightarrow> [] | Some a \<Rightarrow> [a])" "backend_inv query s p"
    unfolding asked_answered_def by blast
  from a(3) have "p = None \<longleftrightarrow> b_asker s = None" by (auto simp: backend_inv_def split: option.splits)
  with a(1,2) show ?thesis
    by (intro exI [of _ as] exI [of _ "case p of None \<Rightarrow> [] | Some a \<Rightarrow> [a]"]) (auto split: option.splits)
qed

text \<open>\<open>ProcessWorker.query\<close>, for a worker that does not override it.\<close>

definition base_query :: "arg list \<Rightarrow> py_error + ipc" where
  "base_query args = Inr (RBool True)"

lemma answers_match_queries_witness:
  "\<exists>(s :: (nat, unit) backend) tr. brun base_query (\<lambda>ts w. Inr w) (new_backend ()) tr s
    \<and> asked tr = [[''a'']] \<and> answered tr = [RBool True]"
proof -
  let ?ms = "[MStart, MWorker, MWorker, MAsk [''a''], MAwait, MWorker, MWorker, MWorker, MTake] :: nat move list"
  obtain tr s where d: "do_moves base_query (\<lambda>ts w. Inr w) ?ms (new_backend ()) = Some (tr, s)"
    and tr: "tr = [Start, Internal, Internal, Ask [''a''], Internal, Internal, Internal, Internal, Answer (RBool True)]"
    by (simp add: do_moves_simps enter_backend_def new_backend_def ask_def await_response_def worker_step_def
        base_query_def)
  have "no_tasks tr" "asked tr = [[''a'']]" by (simp_all add: tr)
  from answers_match_queries [OF do_moves_brun [OF d] this(1)] have "list_all2 (answers base_query) [[''a'']] (answered tr)"
    by (auto simp: tr Cons_eq_append_conv)
  with do_moves_brun [OF d] show ?thesis
    by (intro exI [of _ s] exI [of _ tr]) (simp add: tr)
qed

section \<open>One query on an idle worker\<close>

text \<open>Only the worker and the asking thread move.\<close>

fun alone :: "'a event list \<Rightarrow> bool" where
  "alone [] = True"
| "alone (Internal # tr) = alone tr"
| "alone (Answer v # tr) = alone tr"
| "alone (_ # tr) = False"

lemma alone_append [simp]: "alone (tr @ tr') \<longleftrightarrow> alone tr \<and> alone tr'"
  by (induction tr rule: alone.induct) auto

definition stuck ::
    "(arg list \<Rightarrow> py_error + ipc) \<Rightarrow> ('a list \<Rightarrow> 'w \<Rightarrow> py_error + 'w) \<Rightarrow> ('a, 'w) backend \<Rightarrow> bool" where
  "stuck query run s \<longleftrightarrow> (\<nexists>l s'. alone [l] \<and> bstep query run s l s')"

definition idle :: "('a, 'w) backend \<Rightarrow> bool" where
  "idle s \<longleftrightarrow> b_worker s = W_Wait \<and> b_running s \<and> b_tasks s = [] \<and> b_slot s = None \<and> b_asker s = None"

fun worker_rank :: "'a worker_pc \<Rightarrow> nat" where
  "worker_rank W_Woken = 6"
| "worker_rank (W_Query q ts) = 5"
| "worker_rank (W_Notify ts) = 4"
| "worker_rank (W_Tasks ts) = 3"
| "worker_rank W_Check = 2"
| "worker_rank W_Enter = 1"
| "worker_rank _ = 0"

fun asker_rank :: "asker_pc option \<Rightarrow> nat" where
  "asker_rank None = 0"
| "asker_rank (Some Q_Sent) = 2"
| "asker_rank (Some _) = 1"

definition progress :: "string list \<Rightarrow> ipc \<Rightarrow> 'a event list \<Rightarrow> ('a, 'w) backend \<Rightarrow> bool" where
  "progress args v tr s \<longleftrightarrow>
     b_running s \<and> b_tasks s = [] \<and> in_hand (b_worker s) = [] \<and>
     length tr + worker_rank (b_worker s) + asker_rank (b_asker s) \<le> 8 \<and>
     answered tr = (if b_asker s = None then [v] else []) \<and>
     (case b_worker s of
        W_Woken \<Rightarrow> b_slot s = Some (Args args) \<and> b_asker s \<in> {Some Q_Sent, Some Q_Wait}
      | W_Query q ts \<Rightarrow> q = Args args \<and> b_asker s \<in> {Some Q_Sent, Some Q_Wait}
      | W_Notify ts \<Rightarrow> b_slot s = Some v \<and> b_asker s \<in> {Some Q_Sent, Some Q_Wait}
      | W_Off \<Rightarrow> False | W_End \<Rightarrow> False | W_Dead e ts \<Rightarrow> False
      | _ \<Rightarrow> b_slot s = (if b_asker s = None then None else Some v))"

lemma progress_worker:
  assumes "progress args v tr s" and "worker_step query run s = Some s'" and "args \<noteq> []" and "answers query args v"
  shows "progress args v (tr @ [Internal]) s'"
  using assms
  by (cases "b_worker s")
    (auto simp: progress_def worker_step_def worker_woken_def notify_asker_def answers_def Let_def
      split: if_splits)

lemma progress_step:
  assumes "bstep query run s l s'" and "progress args v tr s" and "alone [l]"
    and "args \<noteq> []" and "answers query args v"
  shows "progress args v (tr @ [l]) s'"
  using assms(1)
proof (cases rule: bstep.cases)
  case await
  then show ?thesis using assms(2)
    by (cases "b_worker s") (auto simp: progress_def await_response_def)
next
  case woken_in_vain
  then show ?thesis using assms(2)
    by (cases "b_worker s") (auto simp: progress_def take_response_def split: option.splits)
next
  case (answer x)
  then show ?thesis using assms(2)
    by (cases "b_worker s") (auto simp: progress_def take_response_def split: option.splits)
next
  case worker
  then show ?thesis using progress_worker [OF assms(2)] assms(4,5) by simp
qed (use assms(3) in auto)

lemma stuckD:
  assumes "stuck query run s"
  shows "worker_step query run s = None" and "b_asker s \<noteq> Some Q_Sent" and "b_asker s \<noteq> Some Q_Woken"
proof -
  have no: "\<not> bstep query run s l s'" if "alone [l]" for l s' using assms that by (auto simp: stuck_def)
  show "worker_step query run s = None"
  proof (cases "worker_step query run s")
    case (Some s')
    from bstep.worker [where query = query and run = run, OF this] no [of Internal] show ?thesis by simp
  qed
  show "b_asker s \<noteq> Some Q_Sent" using no [of Internal] bstep.await by fastforce
  show "b_asker s \<noteq> Some Q_Woken"
  proof
    assume a: "b_asker s = Some Q_Woken"
    obtain x t where t: "take_response s = (x, t)" by fastforce
    from bstep.woken_in_vain [OF a, of t] bstep.answer [OF a, of _ t] no t show False
      by (cases x) (metis alone.simps)+
  qed
qed

text \<open>
  C22: A query to an idle worker, when nothing else happens, comes to rest after at most eight
  steps, in one of two ways: the query has returned the answer of the worker; or the worker has
  sent its notification before the asking thread began to wait, and then the thread waits, with
  the answer in front of it, and the worker waits as well.
\<close>

theorem query_ends_or_hangs:
  assumes "idle s" and "args \<noteq> []" and "query (map AStr args) = Inr v"
    and "brun query run (ask args s) tr s'" and "alone tr"
  shows "length tr \<le> 8 \<and> (stuck query run s' \<longrightarrow> b_worker s' = W_Wait \<and>
      (answered tr = [v] \<and> b_asker s' = None \<and> b_slot s' = None
       \<or> answered tr = [] \<and> b_asker s' = Some Q_Wait \<and> b_slot s' = Some v))"
proof -
  have v: "answers query args v" using assms(3) by (simp add: answers_def)
  have p: "progress args v tr s'"
    using assms(4,5)
  proof (induction rule: brun.induct)
    case brun_Nil
    show ?case using assms(1) by (simp add: progress_def idle_def ask_def notify_worker_def)
  next
    case (brun_snoc tr s1 l s2)
    then show ?case using progress_step [OF brun_snoc(2) _ _ assms(2) v] by simp
  qed
  then have len: "length tr \<le> 8" by (simp add: progress_def)
  have "b_worker s' = W_Wait \<and>
      (answered tr = [v] \<and> b_asker s' = None \<and> b_slot s' = None
       \<or> answered tr = [] \<and> b_asker s' = Some Q_Wait \<and> b_slot s' = Some v)" if "stuck query run s'"
    using stuckD [OF that] p
    by (cases "b_worker s'"; cases "b_asker s'" rule: asker_rank.cases)
      (auto simp: progress_def worker_step_def split: if_splits sum.splits)
  with len show ?thesis by simp
qed

lemma stuckI:
  assumes "worker_step query run s = None" and "b_asker s = None \<or> b_asker s = Some Q_Wait"
  shows "stuck query run s"
  unfolding stuck_def using assms by (auto elim!: bstepE)

lemma query_ends_or_hangs_witness:
  "\<exists>(s :: (nat, unit) backend) tr1 s1 tr2 s2. idle s
    \<and> brun base_query (\<lambda>ts w. Inr w) (ask [''a''] s) tr1 s1 \<and> answered tr1 = [RBool True]
    \<and> brun base_query (\<lambda>ts w. Inr w) (ask [''a''] s) tr2 s2
    \<and> stuck base_query (\<lambda>ts w. Inr w) s2 \<and> answered tr2 = [] \<and> b_asker s2 = Some Q_Wait"
proof -
  let ?run = "\<lambda>ts w. Inr w"
  define s :: "(nat, unit) backend" where "s = (enter_backend (new_backend ()))\<lparr>b_worker := W_Wait\<rparr>"
  let ?s = "ask [''a''] s"
  have idle: "idle s" by (simp add: s_def idle_def enter_backend_def new_backend_def)
  obtain tr1 s1 where d1: "do_moves base_query ?run [MAwait, MWorker, MWorker, MWorker, MTake, MWorker, MWorker, MWorker] ?s = Some (tr1, s1)"
    and 1: "alone tr1" "worker_step base_query ?run s1 = None" "b_asker s1 = None"
    by (simp add: s_def do_moves_simps enter_backend_def new_backend_def ask_def await_response_def worker_step_def
        base_query_def)
  obtain tr2 s2 where d2: "do_moves base_query ?run [MWorker, MWorker, MWorker, MAwait, MWorker, MWorker, MWorker] ?s = Some (tr2, s2)"
    and 2: "alone tr2" "worker_step base_query ?run s2 = None" "b_asker s2 = Some Q_Wait"
    by (simp add: s_def do_moves_simps enter_backend_def new_backend_def ask_def await_response_def worker_step_def
        base_query_def)
  have q: "base_query (map AStr [''a'']) = Inr (RBool True)" by (simp add: base_query_def)
  have st: "stuck base_query ?run s1" "stuck base_query ?run s2" using 1 2 by (simp_all add: stuckI)
  note r = do_moves_brun [OF d1] do_moves_brun [OF d2]
  have "answered tr1 = [RBool True]" "answered tr2 = []"
    using query_ends_or_hangs [OF idle _ q r(1) 1(1)] query_ends_or_hangs [OF idle _ q r(2) 2(1)] st 1(3) 2(3) by auto
  with idle r st(2) 2(3) show ?thesis by blast
qed

section \<open>Stopping the worker\<close>

text \<open>Where the worker and the asking thread come to rest when nothing else happens.\<close>

definition settles ::
    "(arg list \<Rightarrow> py_error + ipc) \<Rightarrow> ('a list \<Rightarrow> 'w \<Rightarrow> py_error + 'w) \<Rightarrow> ('a, 'w) backend \<Rightarrow> ('a, 'w) backend \<Rightarrow> bool" where
  "settles query run s s' \<longleftrightarrow> (\<exists>tr. alone tr \<and> brun query run s tr s' \<and> stuck query run s')"

lemma brun_first:
  assumes "brun query run s tr s'"
  shows "tr = [] \<and> s' = s \<or> (\<exists>l tr' s1. tr = l # tr' \<and> bstep query run s l s1 \<and> brun query run s1 tr' s')"
  using assms
proof (induction rule: brun.induct)
  case (brun_snoc tr s1 l s2)
  from brun_snoc(3) show ?case
  proof
    assume "tr = [] \<and> s1 = s"
    then show ?thesis using brun_snoc(2) brun.brun_Nil by auto
  next
    assume "\<exists>l tr' s3. tr = l # tr' \<and> bstep query run s l s3 \<and> brun query run s3 tr' s1"
    then obtain l' tr' s3 where "tr = l' # tr'" "bstep query run s l' s3" "brun query run s3 tr' s1" by blast
    then show ?thesis using brun.brun_snoc [OF _ brun_snoc(2)] by auto
  qed
qed simp

lemma alone_Cons: "alone (l # tr) \<longleftrightarrow> alone [l] \<and> alone tr"
  by (cases l) simp_all

text \<open>With no thread that asks, only the worker moves, and in one way.\<close>

lemma alone_step:
  assumes "bstep query run s l s'" and "alone [l]" and "b_asker s = None"
  shows "worker_step query run s = Some s'"
  using assms by (auto elim!: bstepE)

lemma settles_step:
  assumes "b_asker s = None" and "worker_step query run s = Some s1"
  shows "settles query run s s' \<longleftrightarrow> settles query run s1 s'"
proof
  assume "settles query run s s'"
  then obtain tr where tr: "alone tr" "brun query run s tr s'" "stuck query run s'" by (auto simp: settles_def)
  have "s' \<noteq> s" using stuckD(1) [OF tr(3)] assms(2) by auto
  with brun_first [OF tr(2)] obtain l tr' s2 where "tr = l # tr'" "bstep query run s l s2" "brun query run s2 tr' s'" by blast
  moreover from this have "worker_step query run s = Some s2" "alone tr'"
    using alone_step [OF _ _ assms(1)] tr(1) alone_Cons by blast+
  ultimately show "settles query run s1 s'" using assms(2) tr(3) by (auto simp: settles_def)
next
  assume "settles query run s1 s'"
  then obtain tr where tr: "alone tr" "brun query run s1 tr s'" "stuck query run s'" by (auto simp: settles_def)
  from brun_Cons [OF bstep.worker [OF assms(2)] tr(2)] tr(1,3) show "settles query run s s'"
    by (auto simp: settles_def intro!: exI [of _ "Internal # tr"])
qed

lemma settles_end:
  assumes "b_asker s = None" and "worker_step query run s = None"
  shows "settles query run s s' \<longleftrightarrow> s' = s"
proof
  assume "settles query run s s'"
  then obtain tr where tr: "alone tr" "brun query run s tr s'" by (auto simp: settles_def)
  from brun_first [OF tr(2)] show "s' = s"
  proof
    assume "\<exists>l tr' s1. tr = l # tr' \<and> bstep query run s l s1 \<and> brun query run s1 tr' s'"
    then obtain l tr' s1 where "tr = l # tr'" "bstep query run s l s1" by blast
    then have "worker_step query run s = Some s1"
      using alone_step [OF _ _ assms(1)] tr(1) alone_Cons by blast
    with assms(2) show ?thesis by simp
  qed simp
next
  assume "s' = s"
  then show "settles query run s s'"
    using stuckI [OF assms(2)] assms(1) brun.brun_Nil by (auto simp: settles_def intro!: exI [of _ "[]"])
qed

end
