(* ===== verification/Persistence.thy ===== *)
theory Persistence
  imports Backend Tree_Manager
begin

text \<open>
  The tree manager and its worker process together: rows stored in memory by one process and
  written to the database, in batches that the interleaving decides, by the other.
\<close>

text \<open>The worker of the tree: its \<open>run_tasks\<close> never raises when the database does not.\<close>

definition tree_run ::
    "(string list \<Rightarrow> 'db \<Rightarrow> 'db) \<Rightarrow> ((string \<times> bytes \<times> int) list \<Rightarrow> 'db \<Rightarrow> 'db)
     \<Rightarrow> row list \<Rightarrow> 'db \<Rightarrow> py_error + 'db" where
  "tree_run db_delete db_upsert rows db = Inr (run_tasks db_delete db_upsert rows db)"

definition flushed :: "row list \<Rightarrow> (string \<Rightarrow> (bytes \<times> int) option) \<Rightarrow> string \<Rightarrow> (bytes \<times> int) option" where
  "flushed rows look t =
     (case map_of rows (topic_nodes t) of
        Some (Some b, q) \<Rightarrow> Some (b, q) | Some (None, q) \<Rightarrow> None | None \<Rightarrow> look t)"

lemma clean_rows_append: "clean_rows (rows @ rows') \<longleftrightarrow> clean_rows rows \<and> clean_rows rows'"
  by (auto simp: clean_rows_def)

lemma run_tasks_flushed:
  "store_laws db_delete db_upsert db_lookup \<Longrightarrow> clean_rows rows \<Longrightarrow> distinct (map fst rows) \<Longrightarrow>
   db_lookup (run_tasks db_delete db_upsert rows db) = flushed rows (db_lookup db)"
  by (rule ext) (simp add: run_tasks_aux flushed_def)

lemma flushed_append:
  assumes "distinct (map fst (rows @ rows'))"
  shows "flushed rows' (flushed rows look) = flushed (rows @ rows') look"
proof
  fix t
  show "flushed rows' (flushed rows look) t = flushed (rows @ rows') look t"
  proof (cases "map_of rows' (topic_nodes t)")
    case None
    then show ?thesis by (simp add: flushed_def map_add_def split: option.split)
  next
    case (Some v)
    then have "topic_nodes t \<in> fst ` set rows'" by (force dest: map_of_SomeD)
    then have "map_of rows (topic_nodes t) = None" using assms by (auto simp: map_of_eq_None_iff)
    with Some show ?thesis by (simp add: flushed_def map_add_def)
  qed
qed

text \<open>Batches of rows with different topics are as good as one batch.\<close>

lemma batches_flushed:
  assumes "store_laws db_delete db_upsert db_lookup"
    and "ran (tree_run db_delete db_upsert) db0 bs db" and "clean_rows (concat bs)" and "distinct (map fst (concat bs))"
  shows "db_lookup db = flushed (concat bs) (db_lookup db0)"
  using assms(2-)
proof (induction bs arbitrary: db rule: rev_induct)
  case Nil
  then show ?case by (simp add: ran_def flushed_def fun_eq_iff)
next
  case (snoc b bs)
  then obtain db1 where db1: "ran (tree_run db_delete db_upsert) db0 bs db1" "db = run_tasks db_delete db_upsert b db1"
    by (auto simp: ran_def foldR_snoc tree_run_def res_simps)
  have c: "clean_rows (concat bs)" "clean_rows b" "distinct (map fst (concat bs @ b))"
    using snoc.prems(2,3) by (simp_all add: clean_rows_append)
  then have "db_lookup db1 = flushed (concat bs) (db_lookup db0)" using snoc.IH [OF db1(1)] by simp
  moreover have "db_lookup db = flushed b (db_lookup db1)"
    unfolding db1(2) using c by (intro run_tasks_flushed [OF assms(1)]) simp_all
  ultimately show ?case using flushed_append [OF c(3)] by simp
qed

text \<open>
  Memory and database come to agree. Rows with different topics are stored in the tree and
  handed to the worker, in any number of calls and under any interleaving with it: whenever the
  worker has no task left, the database agrees with the tree, if it did before.
\<close>

theorem database_catches_up:
  assumes "store_laws db_delete db_upsert db_lookup" and "wf_tree tree" and "coherent tree (db_lookup db0)"
    and "brun query (tree_run db_delete db_upsert) (new_backend db0) tr s"
    and "clean_rows (added tr)" and "distinct (map fst (added tr))"
    and "in_hand (b_worker s) = []" and "b_tasks s = []"
  shows "\<exists>tree'. retain_loop (added tr) tree = (Inr (), tree') \<and> wf_tree tree'
    \<and> coherent tree' (db_lookup (b_state s))"
proof -
  obtain bs where bs: "ran (tree_run db_delete db_upsert) db0 bs (b_state s)" "concat bs = added tr"
    using brun_batches [OF assms(4)] assms(7,8) by auto
  have "db_lookup (b_state s) = flushed (added tr) (db_lookup db0)"
    using batches_flushed [OF assms(1) bs(1)] bs(2) assms(5,6) by simp
  also have "\<dots> = db_lookup (run_tasks db_delete db_upsert (added tr) db0)"
    by (rule run_tasks_flushed [OF assms(1,5,6), symmetric])
  finally show ?thesis using flush_aux [OF assms(1,2,5,6,3)] by simp
qed

lemma database_catches_up_witness:
  "\<exists>(s :: (row, map_db) backend) tree'. brun base_query (tree_run map_delete map_upsert) (new_backend (\<lambda>t. None))
      [Start, Internal, Internal, Add [([''a'', ''b''], Some [1], 0)], Internal, Internal, Internal, Internal,
       Add [([''a''], None, 2)], Internal, Internal] s
    \<and> retain_loop [([''a'', ''b''], Some [1], 0), ([''a''], None, 2)] (PyRdd []) = (Inr (), tree')
    \<and> coherent tree' (b_state s)"
proof -
  let ?ms = "[MStart, MWorker, MWorker, MAdd [([''a'', ''b''], Some [1], 0)], MWorker, MWorker, MWorker, MWorker,
    MAdd [([''a''], None, 2)], MWorker, MWorker] :: row move list"
  let ?tr = "[Start, Internal, Internal, Add [([''a'', ''b''], Some [1], 0)], Internal, Internal, Internal, Internal,
    Add [([''a''], None, 2)], Internal, Internal] :: row event list"
  obtain s where d: "do_moves base_query (tree_run map_delete map_upsert) ?ms (new_backend (\<lambda>t. None)) = Some (?tr, s)"
    and s: "in_hand (b_worker s) = []" "b_tasks s = []"
    by (simp add: do_moves_simps enter_backend_def new_backend_def add_tasks_def worker_step_def tree_run_def)
  have "clean_rows (added ?tr)" "distinct (map fst (added ?tr))"
    by (simp_all add: clean_rows_def clean_node_def const_defs)
  from database_catches_up [OF map_store_laws wf_rdd_Nil coherent_empty do_moves_brun [OF d] this s]
  show ?thesis using do_moves_brun [OF d] by auto
qed

text \<open>
  Until there is other work. A row that is handed over while the worker is busy can stay
  behind: its notification finds no thread that waits, the worker goes to wait again without
  looking at the list, and from then on nothing moves until another row is published or the
  broker stops.
\<close>

theorem row_stays_behind:
  "\<exists>tr s. brun query (tree_run db_delete db_upsert) (new_backend db0) tr s \<and> added tr = [row1, row2]
    \<and> stuck query (tree_run db_delete db_upsert) s \<and> b_running s
    \<and> b_state s = run_tasks db_delete db_upsert [row1] db0 \<and> b_tasks s = [row2]"
proof -
  let ?ms = "[MStart, MWorker, MWorker, MAdd [row1], MWorker, MAdd [row2], MWorker, MWorker, MWorker]"
  obtain tr s where d: "do_moves query (tree_run db_delete db_upsert) ?ms (new_backend db0) = Some (tr, s)"
    and tr: "added tr = [row1, row2]"
    and s: "b_worker s = W_Wait" "b_asker s = None" "b_running s" "b_tasks s = [row2]"
      "b_state s = run_tasks db_delete db_upsert [row1] db0"
    by (simp add: do_moves_simps enter_backend_def new_backend_def add_tasks_def worker_step_def tree_run_def)
  have "stuck query (tree_run db_delete db_upsert) s"
    by (rule stuckI) (use s in \<open>simp_all add: worker_step_def\<close>)
  with do_moves_brun [OF d] tr s show ?thesis by blast
qed

section \<open>What is written when the broker stops\<close>

definition flush_rows ::
    "(string list \<Rightarrow> 'db \<Rightarrow> 'db) \<Rightarrow> ((string \<times> bytes \<times> int) list \<Rightarrow> 'db \<Rightarrow> 'db) \<Rightarrow> row list \<Rightarrow> 'db \<Rightarrow> 'db" where
  "flush_rows db_delete db_upsert rows db = (if rows = [] then db else run_tasks db_delete db_upsert rows db)"

text \<open>What is left when the notification of \<open>__exit__\<close> finds the worker where it is in \<open>s\<close>.\<close>

definition after_exit ::
    "(string list \<Rightarrow> 'db \<Rightarrow> 'db) \<Rightarrow> ((string \<times> bytes \<times> int) list \<Rightarrow> 'db \<Rightarrow> 'db)
     \<Rightarrow> (row, 'db) backend \<Rightarrow> (row, 'db) backend" where
  "after_exit db_delete db_upsert s =
     (let joined = s\<lparr>b_main := M_Join\<rparr>; flush = flush_rows db_delete db_upsert
      in case b_worker s of
           W_Wait \<Rightarrow> joined\<lparr>b_tasks := [], b_state := flush (b_tasks s) (b_state s), b_worker := W_End\<rparr>
         | W_Woken \<Rightarrow> joined\<lparr>b_tasks := [], b_state := flush (b_tasks s) (b_state s), b_worker := W_End\<rparr>
         | W_Tasks ts \<Rightarrow> joined\<lparr>b_state := flush ts (b_state s), b_worker := W_End\<rparr>
         | W_Enter \<Rightarrow> joined\<lparr>b_worker := W_Wait\<rparr>
         | _ \<Rightarrow> joined\<lparr>b_worker := W_End\<rparr>)"

fun between_queries :: "'a worker_pc \<Rightarrow> bool" where
  "between_queries W_Off = False"
| "between_queries (W_Query q ts) = False"
| "between_queries (W_Notify ts) = False"
| "between_queries (W_Dead e ts) = False"
| "between_queries _ = True"

lemma worker_step_simps [simp]:
  "worker_step query run (t\<lparr>b_worker := W_Check\<rparr>) = Some (t\<lparr>b_worker := (if b_running t then W_Enter else W_End)\<rparr>)"
  "worker_step query run (t\<lparr>b_worker := W_Enter\<rparr>) = Some (t\<lparr>b_worker := W_Wait\<rparr>)"
  "worker_step query run (t\<lparr>b_worker := W_End\<rparr>) = None"
  "worker_step query run (t\<lparr>b_worker := W_Wait\<rparr>) = None"
  by (simp_all add: worker_step_def)

lemma tree_step_simps [simp]:
  "worker_step query (tree_run db_delete db_upsert) (t\<lparr>b_worker := W_Tasks rows\<rparr>) =
     Some (t\<lparr>b_state := flush_rows db_delete db_upsert rows (b_state t), b_worker := W_Check\<rparr>)"
  by (simp_all add: worker_step_def tree_run_def flush_rows_def)

lemma settles_Check:
  assumes "b_asker t = None" and "\<not> b_running t"
  shows "settles query run (t\<lparr>b_worker := W_Check\<rparr>) s' \<longleftrightarrow> s' = t\<lparr>b_worker := W_End\<rparr>"
  using assms settles_step [of "t\<lparr>b_worker := W_Check\<rparr>" query run "t\<lparr>b_worker := W_End\<rparr>" s']
    settles_end [of "t\<lparr>b_worker := W_End\<rparr>" query run s'] by simp

lemma settles_Tasks:
  assumes "b_asker t = None" and "\<not> b_running t"
  shows "settles query (tree_run db_delete db_upsert) (t\<lparr>b_worker := W_Tasks rows\<rparr>) s' \<longleftrightarrow>
    s' = t\<lparr>b_state := flush_rows db_delete db_upsert rows (b_state t), b_worker := W_End\<rparr>"
  using assms settles_Check [of "t\<lparr>b_state := flush_rows db_delete db_upsert rows (b_state t)\<rparr>"]
    settles_step [of "t\<lparr>b_worker := W_Tasks rows\<rparr>" query "tree_run db_delete db_upsert"] by simp

lemma settles_Woken:
  assumes "b_asker t = None" and "\<not> b_running t" and "b_slot t = None"
  shows "settles query (tree_run db_delete db_upsert) (t\<lparr>b_worker := W_Woken\<rparr>) s' \<longleftrightarrow>
    s' = t\<lparr>b_tasks := [], b_state := flush_rows db_delete db_upsert (b_tasks t) (b_state t), b_worker := W_End\<rparr>"
proof -
  have "worker_step query (tree_run db_delete db_upsert) (t\<lparr>b_worker := W_Woken\<rparr>) =
      Some (t\<lparr>b_tasks := [], b_slot := None, b_worker := W_Tasks (b_tasks t)\<rparr>)"
    using assms by (simp add: worker_step_def worker_woken_def Let_def)
  with settles_step [OF _ this, of s'] settles_Tasks [of "t\<lparr>b_tasks := [], b_slot := None\<rparr>" query db_delete db_upsert "b_tasks t" s']
    assms show ?thesis by (cases t) simp
qed

text \<open>
  C31: What \<open>__exit__\<close> of the tree manager leaves, by the place where its notification finds the
  worker, when no row comes any more. A worker that waits, or has just been woken, writes every
  row of the list and ends. A worker that writes a batch finishes it and ends, and so does one
  that is about to look at the flag, but the rows that are in the list by then are never written.
  A worker that has looked at the flag and not begun to wait misses the notification: it waits
  for ever, with it the broker that joins it, and the rows stay in the list.
\<close>

theorem rows_at_exit:
  assumes "\<not> b_running s" and "b_asker s = None" and "b_slot s = None" and "between_queries (b_worker s)"
  shows "settles query (tree_run db_delete db_upsert) (notify_exit s) s' \<longleftrightarrow> s' = after_exit db_delete db_upsert s"
proof -
  let ?run = "tree_run db_delete db_upsert"
  let ?t = "s\<lparr>b_main := M_Join\<rparr>"
  have t: "b_asker ?t = None" "\<not> b_running ?t" "b_slot ?t = None" using assms by simp_all
  have n: "notify_exit s = ?t\<lparr>b_worker := (if b_worker s = W_Wait then W_Woken else b_worker s)\<rparr>"
    by (cases s) (simp add: notify_exit_def notify_worker_def)
  show ?thesis
  proof (cases "b_worker s")
    case W_Enter
    then show ?thesis
      using n t(1) settles_step [of "?t\<lparr>b_worker := W_Enter\<rparr>" query ?run "?t\<lparr>b_worker := W_Wait\<rparr>" s']
        settles_end [of "?t\<lparr>b_worker := W_Wait\<rparr>" query ?run s'] by (simp add: after_exit_def Let_def)
  next
    case W_End
    then show ?thesis
      using n t(1) settles_end [of "?t\<lparr>b_worker := W_End\<rparr>" query ?run s'] by (simp add: after_exit_def Let_def)
  qed (use n settles_Check [OF t(1,2)] settles_Tasks [OF t(1,2)] settles_Woken [OF t] assms(4)
      in \<open>simp_all add: after_exit_def Let_def\<close>)
qed

lemma rows_at_exit_witness:
  "\<exists>(s :: (row, map_db) backend) s'. b_main s = M_Flag \<and> b_tasks s = [([''a''], Some [1], 0)]
    \<and> settles base_query (tree_run map_delete map_upsert) (notify_exit s) s'
    \<and> b_worker s' = W_End \<and> b_tasks s' = b_tasks s \<and> b_state s' = b_state s"
proof -
  define s :: "(row, map_db) backend" where "s = (clear_running (enter_backend (new_backend (\<lambda>t. None))))
    \<lparr>b_tasks := [([''a''], Some [1], 0)]\<rparr>"
  have "b_worker s = W_Check" "\<not> b_running s" "b_asker s = None" "b_slot s = None" "b_main s = M_Flag"
    "b_tasks s = [([''a''], Some [1], 0)]"
    by (simp_all add: s_def clear_running_def enter_backend_def new_backend_def)
  with rows_at_exit [of s base_query map_delete map_upsert "after_exit map_delete map_upsert s"] show ?thesis
    by (intro exI [of _ s] exI [of _ "after_exit map_delete map_upsert s"]) (simp add: after_exit_def Let_def)
qed

end
