(* ===== verification/Restart.thy ===== *)
theory Restart
  imports Persistence
begin

text \<open>
  What the worker leaves in the database when topics are published any number of times, in batches
  that the interleaving decides; the last batch of \<open>__exit__\<close>; and the tree that \<open>preload\<close> builds
  from the rows of the database. \<open>Publishers\<close> adds the threads that publish.
\<close>

section \<open>The database, row by row\<close>

text \<open>
  SQLite works through the rows of an upsert in their order, so the last row of a topic is the
  one that stays.
\<close>

definition seq_laws ::
    "(string list \<Rightarrow> 'db \<Rightarrow> 'db) \<Rightarrow> ((string \<times> bytes \<times> int) list \<Rightarrow> 'db \<Rightarrow> 'db)
     \<Rightarrow> ('db \<Rightarrow> string \<Rightarrow> (bytes \<times> int) option) \<Rightarrow> bool" where
  "seq_laws db_delete db_upsert db_lookup \<longleftrightarrow>
     (\<forall>ts db t. db_lookup (db_delete ts db) t = (if t \<in> set ts then None else db_lookup db t)) \<and>
     (\<forall>rs db t. db_lookup (db_upsert rs db) t =
          (case map_of (rev rs) t of Some v \<Rightarrow> Some v | None \<Rightarrow> db_lookup db t))"

definition seq_upsert :: "(string \<times> bytes \<times> int) list \<Rightarrow> map_db \<Rightarrow> map_db" where
  "seq_upsert rs db = db ++ map_of (rev rs)"

lemma map_seq_laws: "seq_laws map_delete seq_upsert (\<lambda>db. db)"
  by (auto simp: seq_laws_def map_delete_def seq_upsert_def map_add_def)

lemma seq_store_laws: "seq_laws db_delete db_upsert db_lookup \<Longrightarrow> store_laws db_delete db_upsert db_lookup"
  by (simp add: seq_laws_def store_laws_def map_of_rev_distinct)

text \<open>
  The worker deletes before it stores, so a clear that comes after a store can be undone by it.
  A path is steady when its last row is a store, or none of its rows is.
\<close>

definition steady :: "row list \<Rightarrow> string list \<Rightarrow> bool" where
  "steady rows p \<longleftrightarrow> (\<forall>q. map_of (rev rows) p = Some (None, q) \<longrightarrow> (\<forall>b q'. (p, Some b, q') \<notin> set rows))"

definition written :: "row list \<Rightarrow> (string \<Rightarrow> (bytes \<times> int) option) \<Rightarrow> string \<Rightarrow> (bytes \<times> int) option" where
  "written rows look t = flushed (rev rows) look t"

lemma steady_distinct: "distinct (map fst rows) \<Longrightarrow> steady rows p"
  by (auto simp: steady_def map_of_rev_distinct dest: map_of_SomeD eq_key_imp_eq_value)

definition stores :: "row list \<Rightarrow> row list" where
  "stores rows = filter (\<lambda>r. fst (snd r) \<noteq> None) rows"

lemma map_of_create_stores:
  assumes "clean_rows rows"
  shows "map_of (create_list rows) t =
    map_option (\<lambda>v. (the (fst v), snd v)) (map_of (stores rows) (topic_nodes t))"
  using assms
proof (induction rows)
  case (Cons r rows)
  have "clean_rows rows" using Cons.prems by (simp add: clean_rows_def)
  moreover have "join_char TOPIC_SEP (fst r) = t \<longleftrightarrow> fst r = topic_nodes t"
    using clean_row_key [OF Cons.prems, of r t] by simp
  ultimately show ?case using Cons.IH by (cases r) (auto simp: create_list_def stores_def)
qed (simp add: create_list_def stores_def)

lemma map_of_stores:
  "map_of (stores rows) p = None \<longleftrightarrow> (\<forall>b q. (p, Some b, q) \<notin> set rows)"
  "map_of rows p = Some (Some b, q) \<Longrightarrow> map_of (stores rows) p = Some (Some b, q)"
proof -
  show "map_of (stores rows) p = None \<longleftrightarrow> (\<forall>b q. (p, Some b, q) \<notin> set rows)"
    by (force simp: map_of_eq_None_iff image_iff stores_def)
  show "map_of rows p = Some (Some b, q) \<Longrightarrow> map_of (stores rows) p = Some (Some b, q)"
    by (induction rows) (auto simp: stores_def split: if_splits)
qed

lemma run_tasks_seq:
  assumes "seq_laws db_delete db_upsert db_lookup" and "clean_rows rows"
  shows "db_lookup (run_tasks db_delete db_upsert rows db) t =
    (case map_of (rev (create_list rows)) t of
       Some v \<Rightarrow> Some v | None \<Rightarrow> if t \<in> set (delete_list rows) then None else db_lookup db t)"
  using assms by (auto simp: run_tasks_def Let_def seq_laws_def split: option.split)

lemma run_tasks_written:
  assumes "seq_laws db_delete db_upsert db_lookup" and "clean_rows rows" and "steady rows (topic_nodes t)"
  shows "db_lookup (run_tasks db_delete db_upsert rows db) t = written rows (db_lookup db) t"
proof -
  have "clean_rows (rev rows)" using assms(2) by (simp add: clean_rows_def)
  then have cr: "map_of (rev (create_list rows)) t =
      map_option (\<lambda>v. (the (fst v), snd v)) (map_of (stores (rev rows)) (topic_nodes t))"
    using map_of_create_stores [of "rev rows" t] by (simp add: create_list_def rev_map rev_filter)
  note run = run_tasks_seq [OF assms(1,2), of db t] cr delete_list_mem [OF assms(2), of t]
  consider b q where "map_of (rev rows) (topic_nodes t) = Some (Some b, q)"
    | q where "map_of (rev rows) (topic_nodes t) = Some (None, q)"
    | "map_of (rev rows) (topic_nodes t) = None" by (cases "map_of (rev rows) (topic_nodes t)") force+
  then show ?thesis
  proof cases
    case 1
    with map_of_stores(2) [OF 1] run show ?thesis by (simp add: written_def flushed_def)
  next
    case (2 q)
    then have "(topic_nodes t, None, q) \<in> set rows" by (auto dest: map_of_SomeD)
    moreover have "map_of (stores (rev rows)) (topic_nodes t) = None"
      using 2 assms(3) by (simp add: map_of_stores(1) steady_def)
    ultimately show ?thesis using run 2 by (auto simp: written_def flushed_def)
  next
    case 3
    then have "(topic_nodes t, v) \<notin> set rows" for v by (force simp: map_of_eq_None_iff)
    moreover from this have "map_of (stores (rev rows)) (topic_nodes t) = None" by (simp add: map_of_stores(1))
    ultimately show ?thesis using run 3 by (auto simp: written_def flushed_def)
  qed
qed

text \<open>Batches are as good as one batch at a steady path.\<close>

lemma batches_written:
  assumes "seq_laws db_delete db_upsert db_lookup"
    and "ran (tree_run db_delete db_upsert) db0 bs db" and "clean_rows (concat bs)"
    and "steady (concat bs) (topic_nodes t)"
  shows "db_lookup db t = written (concat bs) (db_lookup db0) t"
  using assms(2-)
proof (induction bs arbitrary: db rule: rev_induct)
  case Nil
  then show ?case by (simp add: ran_def written_def flushed_def)
next
  case (snoc b bs)
  let ?p = "topic_nodes t"
  from snoc.prems obtain db1 where db1: "ran (tree_run db_delete db_upsert) db0 bs db1"
    "db = run_tasks db_delete db_upsert b db1"
    by (auto simp: ran_def foldR_snoc tree_run_def res_simps)
  have c: "clean_rows (concat bs)" "clean_rows b" using snoc.prems(2) by (simp_all add: clean_rows_append)
  have s: "steady (concat bs @ b) ?p" using snoc.prems(3) by simp
  then have "steady b ?p" by (auto simp: steady_def map_add_def)
  then have run: "db_lookup db t = written b (db_lookup db1) t"
    unfolding db1(2) by (rule run_tasks_written [OF assms(1) c(2)])
  show ?case
  proof (cases "map_of (rev b) ?p")
    case None
    then have "(?p, v) \<notin> set b" for v by (force simp: map_of_eq_None_iff)
    with None s have "steady (concat bs) ?p" by (simp add: steady_def map_add_def)
    from snoc.IH [OF db1(1) c(1) this] run None show ?thesis
      by (simp add: written_def flushed_def map_add_def)
  next
    case (Some v)
    with run show ?thesis by (simp add: written_def flushed_def map_add_def)
  qed
qed

section \<open>Memory and database\<close>

text \<open>
  The tree in memory, where the last row of a path is the one that stays, too: it has at a topic
  what the database has when the last row stored there is the last one handed to the worker.
\<close>

lemma stored_written:
  assumes "wf_tree tree" and "coherent tree look" and "rows_ok stored"
    and "map_of (rev stored) (topic_nodes t) = map_of (rev rows) (topic_nodes t)"
  shows "leaf_bytes (leaf_at (retained.store_all (map row_leaf stored) tree) (topic_nodes t)) =
    map_option fst (written rows look t)"
proof -
  have "leaf_at (retained.store_all (map row_leaf stored) tree) (topic_nodes t) =
      (case map_of (rev rows) (topic_nodes t) of
         Some v \<Rightarrow> Some (obj_of_data (fst v)) | None \<Rightarrow> leaf_at tree (topic_nodes t))"
    using retained.lookup_store_all [OF assms(1), of "map row_leaf stored" "topic_nodes t"] assms(3,4)
    by (simp add: rev_map map_of_row_leaf topic_nodes_path split: option.split)
  with assms(2) show ?thesis by (simp add: coherent_def written_def flushed_def split: option.split)
qed

text \<open>The whole run: everything that has been taken off the list is in the database.\<close>

lemma run_written:
  assumes "seq_laws db_delete db_upsert db_lookup"
    and "brun query (tree_run db_delete db_upsert) (new_backend db0) tr s"
    and "clean_rows (added tr)" and "steady (added tr) (topic_nodes t)"
    and "in_hand (b_worker s) = []"
  shows "db_lookup (run_tasks db_delete db_upsert (b_tasks s) (b_state s)) t = written (added tr) (db_lookup db0) t"
    and "b_tasks s = [] \<Longrightarrow> db_lookup (b_state s) t = written (added tr) (db_lookup db0) t"
proof -
  obtain bs where bs: "ran (tree_run db_delete db_upsert) db0 bs (b_state s)" "concat bs @ b_tasks s = added tr"
    using brun_batches [OF assms(2)] assms(5) by auto
  then have run: "foldR (\<lambda>w b. tree_run db_delete db_upsert b w) db0 (bs @ [b_tasks s]) =
      Inr (run_tasks db_delete db_upsert (b_tasks s) (b_state s))"
    by (simp add: ran_def foldR_snoc tree_run_def)
  show last: "db_lookup (run_tasks db_delete db_upsert (b_tasks s) (b_state s)) t = written (added tr) (db_lookup db0) t"
  proof (cases "b_tasks s = []")
    case True
    with batches_written [OF assms(1) bs(1), of t] bs(2) assms(3,4) show ?thesis
      by (simp add: run_tasks_def delete_list_def create_list_def)
  next
    case False
    with run bs(1) have "ran (tree_run db_delete db_upsert) db0 (bs @ [b_tasks s])
        (run_tasks db_delete db_upsert (b_tasks s) (b_state s))" by (simp add: ran_def)
    from batches_written [OF assms(1) this, of t] bs(2) assms(3,4) show ?thesis by simp
  qed
  show "db_lookup (b_state s) t = written (added tr) (db_lookup db0) t" if "b_tasks s = []"
    using last that by (simp add: run_tasks_def delete_list_def create_list_def)
qed

section \<open>Stop and start\<close>

text \<open>Nothing asks the tree's worker, and the flag is down from \<open>__exit__\<close> on.\<close>

definition quiet :: "('a, 'w) backend \<Rightarrow> bool" where
  "quiet s \<longleftrightarrow> b_asker s = None \<and> b_slot s = None \<and> (\<forall>q ts. b_worker s \<noteq> W_Query q ts)
     \<and> (\<forall>ts. b_worker s \<noteq> W_Notify ts) \<and> (b_main s = M_Flag \<longrightarrow> \<not> b_running s)"

lemma quiet_step: "bstep query run s l s' \<Longrightarrow> asked [l] = [] \<Longrightarrow> quiet s \<Longrightarrow> quiet s'"
  by (erule bstepE)
    (auto simp: quiet_def enter_backend_def add_tasks_def clear_running_def notify_exit_def
       worker_step_def notify_worker_def worker_woken_def Let_def
       split: if_splits option.splits worker_pc.splits sum.splits)

lemma quiet_run: "brun query run (new_backend w0) tr s \<Longrightarrow> asked tr = [] \<Longrightarrow> quiet s"
proof (induction rule: brun.induct)
  case (brun_snoc tr s' l s'')
  then show ?case using quiet_step [OF brun_snoc(2)] by simp
qed (simp add: quiet_def new_backend_def)

lemma flush_rows_eq: "flush_rows db_delete db_upsert rows db = run_tasks db_delete db_upsert rows db"
  by (simp add: flush_rows_def run_tasks_def delete_list_def create_list_def)

lemma exit_waiting:
  assumes "brun query (tree_run db_delete db_upsert) (new_backend db0) tr s" and "asked tr = []"
    and "b_main s = M_Flag" and "b_worker s \<in> {W_Wait, W_Woken}"
    and "settles query (tree_run db_delete db_upsert) (notify_exit s) s'"
  shows "b_worker s' = W_End" and "b_tasks s' = []"
    and "b_state s' = run_tasks db_delete db_upsert (b_tasks s) (b_state s)"
proof -
  let ?t = "s\<lparr>b_main := M_Join\<rparr>"
  have q: "b_asker ?t = None" "\<not> b_running ?t" "b_slot ?t = None"
    using quiet_run [OF assms(1,2)] assms(3) by (simp_all add: quiet_def)
  have "notify_exit s = ?t\<lparr>b_worker := W_Woken\<rparr>"
    using assms(4) by (cases s) (auto simp: notify_exit_def notify_worker_def)
  with settles_Woken [OF q] assms(5)
  have "s' = ?t\<lparr>b_tasks := [], b_state := run_tasks db_delete db_upsert (b_tasks s) (b_state s), b_worker := W_End\<rparr>"
    by (simp add: flush_rows_eq)
  then show "b_worker s' = W_End" "b_tasks s' = []"
    "b_state s' = run_tasks db_delete db_upsert (b_tasks s) (b_state s)" by simp_all
qed

text \<open>What \<open>preload\<close> reads: the rows of the database, one per topic.\<close>

definition rows_of :: "(string \<Rightarrow> (bytes \<times> int) option) \<Rightarrow> (string \<times> bytes option) list \<Rightarrow> bool" where
  "rows_of look ms \<longleftrightarrow> distinct (map fst ms) \<and> (\<forall>t. map_of ms t = map_option (\<lambda>v. Some (fst v)) (look t))"

lemma preload_rows:
  assumes "rows_of look ms" and "\<forall>t\<in>set (map fst ms). [] \<notin> set (topic_nodes t)"
  shows "wf_tree (preload ms)" and "leaf_bytes (leaf_at (preload ms) (topic_nodes t)) = map_option fst (look t)"
  using assms preload_aux [of ms] by (cases "look t"; simp add: rows_of_def)+

text \<open>Trees with the same bytes at a topic give the same answer for it to every subscription.\<close>

lemma same_answers:
  assumes "wf_tree x" and "wf_tree y" and "EVERYTHING_CARD \<notin> set (topic_nodes f)"
  shows "\<exists>before after. tm_filter (topic_of f) x = Inr before \<and> tm_filter (topic_of f) y = Inr after
    \<and> (\<forall>t b. topic_match (topic_nodes f) (topic_nodes t) \<and> b \<noteq> []
          \<and> leaf_bytes (leaf_at x (topic_nodes t)) = leaf_bytes (leaf_at y (topic_nodes t)) \<longrightarrow>
         (obj_at after (captures (topic_nodes f) (topic_nodes t)) = Some (PyBytes b) \<longleftrightarrow>
          obj_at before (captures (topic_nodes f) (topic_nodes t)) = Some (PyBytes b)))"
proof -
  have leaf: "leaf_at z p = Some (PyBytes b) \<longleftrightarrow> leaf_bytes (leaf_at z p) = Some b" for z p b
    by (cases "(z, p)" rule: prod.exhaust; cases "leaf_at z p" rule: leaf_bytes.cases) auto
  have path: "LEAF_KEY \<notin> set (topic_nodes t)" for t using topic_nodes_path [of t] by (simp add: rdd_path_def)
  obtain before after where "tm_filter (topic_of f) x = Inr before" "tm_filter (topic_of f) y = Inr after"
    "\<And>p b. topic_match (topic_nodes f) p \<Longrightarrow> LEAF_KEY \<notin> set p \<Longrightarrow> b \<noteq> [] \<Longrightarrow>
       obj_at before (captures (topic_nodes f) p) = Some (PyBytes b) \<longleftrightarrow> leaf_at x p = Some (PyBytes b)"
    "\<And>p b. topic_match (topic_nodes f) p \<Longrightarrow> LEAF_KEY \<notin> set p \<Longrightarrow> b \<noteq> [] \<Longrightarrow>
       obj_at after (captures (topic_nodes f) p) = Some (PyBytes b) \<longleftrightarrow> leaf_at y p = Some (PyBytes b)"
    using filter_answers [OF assms(1,3)] filter_answers [OF assms(2,3)] by blast
  then show ?thesis by (intro exI [of _ before] exI [of _ after]) (simp add: path leaf)
qed

end
