(* ===== verification/Publishers.thy ===== *)
theory Publishers
  imports Restart
begin

text \<open>
  Publishing by several threads at once. Every connection has a thread of its own that runs
  \<open>TreeManager.process_message\<close>, and only \<open>add_tasks\<close> is done under a lock: the rows are made of the
  tree, handed to the worker, and stored in the tree, with the other threads and the worker
  process at work in between. The dictionary operations that make the rows of a message, and those
  that store one row, are taken as one step each.
\<close>

section \<open>The threads\<close>

text \<open>
  Where a thread is in \<open>process_message\<close>: outside, before \<open>add_tasks\<close> with the rows it has made, in
  the loop with the rows it has yet to store, or leaving with an exception.
\<close>

datatype publisher_pc = P_Idle | P_Rows "row list" | P_Store "row list" | P_Raised py_error

record 'db publishers =
  pb_tree :: pyobj
  pb_worker :: "(row, 'db) backend"
  pb_threads :: "publisher_pc list"

definition new_publishers :: "nat \<Rightarrow> pyobj \<Rightarrow> 'db \<Rightarrow> 'db publishers" where
  "new_publishers n tree db0 =
     \<lparr>pb_tree = tree, pb_worker = new_backend db0, pb_threads = replicate n P_Idle\<rparr>"

datatype pub_event = Publish nat string "bytes option" int | Handed nat "row list" | Stored nat row
  | Returned nat | Failed nat py_error | Worker "row event"

text \<open>The first step, for a retained PUBLISH packet: the message and its rows.\<close>

definition begin_publish ::
    "(string \<Rightarrow> py_error + pyobj) \<Rightarrow> nat \<Rightarrow> string \<Rightarrow> bytes option \<Rightarrow> int \<Rightarrow> 'db publishers \<Rightarrow> 'db publishers" where
  "begin_publish loads i raw data qos s =
     s\<lparr>pb_threads := (pb_threads s)[i :=
         (case bindR (from_raw_data raw data qos True) (\<lambda>m. message_rows loads m (pb_tree s)) of
            Inl e \<Rightarrow> P_Raised e
          | Inr rows \<Rightarrow> P_Rows rows)]\<rparr>"

text \<open>The steps of \<open>retain_rows\<close>: the rows to the worker, then one row after the other.\<close>

definition publisher_step :: "nat \<Rightarrow> 'db publishers \<Rightarrow> (pub_event \<times> 'db publishers) option" where
  "publisher_step i s =
     (case pb_threads s ! i of
        P_Idle \<Rightarrow> None
      | P_Rows rows \<Rightarrow>
          Some (Handed i rows,
            s\<lparr>pb_worker := add_tasks rows (pb_worker s), pb_threads := (pb_threads s)[i := P_Store rows]\<rparr>)
      | P_Store [] \<Rightarrow> Some (Returned i, s\<lparr>pb_threads := (pb_threads s)[i := P_Idle]\<rparr>)
      | P_Store (row # rows) \<Rightarrow>
          (case retain_row row (pb_tree s) of
             (Inl e, tree') \<Rightarrow>
               Some (Failed i e, s\<lparr>pb_tree := tree', pb_threads := (pb_threads s)[i := P_Idle]\<rparr>)
           | (Inr _, tree') \<Rightarrow>
               Some (Stored i row, s\<lparr>pb_tree := tree', pb_threads := (pb_threads s)[i := P_Store rows]\<rparr>))
      | P_Raised e \<Rightarrow> Some (Failed i e, s\<lparr>pb_threads := (pb_threads s)[i := P_Idle]\<rparr>))"

text \<open>Any thread and the worker, in any order; \<open>Worker\<close> covers the main thread that starts and stops it, too.\<close>

inductive pstep ::
    "(string \<Rightarrow> py_error + pyobj) \<Rightarrow> (arg list \<Rightarrow> py_error + ipc) \<Rightarrow> (row list \<Rightarrow> 'db \<Rightarrow> py_error + 'db)
     \<Rightarrow> 'db publishers \<Rightarrow> pub_event \<Rightarrow> 'db publishers \<Rightarrow> bool"
  for loads query run where
  publish: "i < length (pb_threads s) \<Longrightarrow> pb_threads s ! i = P_Idle
    \<Longrightarrow> pstep loads query run s (Publish i raw data qos) (begin_publish loads i raw data qos s)"
| thread: "i < length (pb_threads s) \<Longrightarrow> publisher_step i s = Some (l, s') \<Longrightarrow> pstep loads query run s l s'"
| backend: "bstep query run (pb_worker s) l w \<Longrightarrow> added [l] = []
    \<Longrightarrow> pstep loads query run s (Worker l) (s\<lparr>pb_worker := w\<rparr>)"

inductive prun ::
    "(string \<Rightarrow> py_error + pyobj) \<Rightarrow> (arg list \<Rightarrow> py_error + ipc) \<Rightarrow> (row list \<Rightarrow> 'db \<Rightarrow> py_error + 'db)
     \<Rightarrow> 'db publishers \<Rightarrow> pub_event list \<Rightarrow> 'db publishers \<Rightarrow> bool"
  for loads query run s where
  prun_Nil: "prun loads query run s [] s"
| prun_snoc: "prun loads query run s tr s' \<Longrightarrow> pstep loads query run s' l s''
    \<Longrightarrow> prun loads query run s (tr @ [l]) s''"

inductive_cases pstepE: "pstep loads query run s l s'"

text \<open>What has been handed to the worker, what has been stored, and what the worker sees of a run.\<close>

fun handed :: "pub_event list \<Rightarrow> row list" where
  "handed [] = []"
| "handed (Handed i rows # tr) = rows @ handed tr"
| "handed (_ # tr) = handed tr"

fun stored :: "pub_event list \<Rightarrow> row list" where
  "stored [] = []"
| "stored (Stored i row # tr) = row # stored tr"
| "stored (_ # tr) = stored tr"

fun worker_trace :: "pub_event list \<Rightarrow> row event list" where
  "worker_trace [] = []"
| "worker_trace (Handed i rows # tr) = Add rows # worker_trace tr"
| "worker_trace (Worker l # tr) = l # worker_trace tr"
| "worker_trace (_ # tr) = worker_trace tr"

lemma pub_append [simp]:
  "handed (tr @ tr') = handed tr @ handed tr'" "stored (tr @ tr') = stored tr @ stored tr'"
  "worker_trace (tr @ tr') = worker_trace tr @ worker_trace tr'"
proof -
  show "handed (tr @ tr') = handed tr @ handed tr'" by (induction tr rule: handed.induct) auto
  show "stored (tr @ tr') = stored tr @ stored tr'" by (induction tr rule: stored.induct) auto
  show "worker_trace (tr @ tr') = worker_trace tr @ worker_trace tr'"
    by (induction tr rule: worker_trace.induct) auto
qed

lemma prun_trans: "prun loads query run s' tr' s'' \<Longrightarrow> prun loads query run s tr s' \<Longrightarrow> prun loads query run s (tr @ tr') s''"
proof (induction rule: prun.induct)
  case (prun_snoc tr1 t l t')
  from prun.prun_snoc [OF prun_snoc(3) [OF prun_snoc(4)] prun_snoc(2)] show ?case by simp
qed simp

lemma prun_one: "pstep loads query run s l s' \<Longrightarrow> prun loads query run s [l] s'"
  using prun.prun_snoc [OF prun.prun_Nil] by fastforce

text \<open>A thread that is not interrupted does what \<open>process_message\<close> of \<open>Tree_Manager\<close> does in one go.\<close>

lemma loop_alone:
  assumes "retain_loop rows (pb_tree s) = (Inr (), tree')" and "i < length (pb_threads s)"
    and "pb_threads s ! i = P_Store rows"
  shows "\<exists>tr. prun loads query run s tr (s\<lparr>pb_tree := tree', pb_threads := (pb_threads s)[i := P_Idle]\<rparr>)"
  using assms
proof (induction rows arbitrary: s)
  case Nil
  have "publisher_step i s = Some (Returned i, s\<lparr>pb_tree := tree', pb_threads := (pb_threads s)[i := P_Idle]\<rparr>)"
    using Nil by (simp add: publisher_step_def)
  from prun_one [OF pstep.thread [OF Nil(2) this]] show ?case by blast
next
  case (Cons row rows)
  then obtain t where t: "retain_row row (pb_tree s) = (Inr (), t)" "retain_loop rows t = (Inr (), tree')"
    by (auto split: prod.splits sum.splits)
  let ?s = "s\<lparr>pb_tree := t, pb_threads := (pb_threads s)[i := P_Store rows]\<rparr>"
  have "publisher_step i s = Some (Stored i row, ?s)" using Cons.prems(3) t(1) by (simp add: publisher_step_def)
  from prun_one [OF pstep.thread [OF Cons.prems(2) this]] Cons.IH [of ?s] t(2) Cons.prems(2) prun_trans
  show ?case by fastforce
qed

lemma publisher_alone:
  assumes "i < length (pb_threads s)" and "pb_threads s ! i = P_Idle" and "from_raw_data raw data qos True = Inr m"
    and "process_message loads m \<lparr>tm_tree = pb_tree s, tm_tasks = b_tasks (pb_worker s)\<rparr> = (Inr rows, tm')"
  shows "\<exists>tr. prun loads query run s tr (s\<lparr>pb_tree := tm_tree tm', pb_worker := add_tasks rows (pb_worker s)\<rparr>)
    \<and> b_tasks (add_tasks rows (pb_worker s)) = tm_tasks tm'"
proof -
  have rows: "message_rows loads m (pb_tree s) = Inr rows" "retain_loop rows (pb_tree s) = (Inr (), tm_tree tm')"
    "tm_tasks tm' = b_tasks (pb_worker s) @ rows"
    using assms(4) by (auto simp: process_message_def message_rows_def retain_rows_def tm_add_tasks_def res_simps
        split: sum.splits prod.splits if_splits)
  let ?s1 = "s\<lparr>pb_threads := (pb_threads s)[i := P_Rows rows]\<rparr>"
  let ?s2 = "s\<lparr>pb_worker := add_tasks rows (pb_worker s), pb_threads := (pb_threads s)[i := P_Store rows]\<rparr>"
  have "begin_publish loads i raw data qos s = ?s1" using assms(3) rows(1) by (simp add: begin_publish_def)
  then have p: "pstep loads query run s (Publish i raw data qos) ?s1" using pstep.publish [OF assms(1,2)] by metis
  have "publisher_step i ?s1 = Some (Handed i rows, ?s2)" using assms(1) by (simp add: publisher_step_def)
  then have h: "pstep loads query run ?s1 (Handed i rows) ?s2" using assms(1) by (simp add: pstep.thread)
  have idle: "(pb_threads s)[i := P_Idle] = pb_threads s" using assms(2) by (metis list_update_id)
  obtain tr where "prun loads query run ?s2 tr (?s2\<lparr>pb_tree := tm_tree tm', pb_threads := (pb_threads ?s2)[i := P_Idle]\<rparr>)"
    using loop_alone [of rows ?s2 "tm_tree tm'" i loads query run] rows(2) assms(1) by auto
  moreover have "?s2\<lparr>pb_tree := tm_tree tm', pb_threads := (pb_threads ?s2)[i := P_Idle]\<rparr> =
      s\<lparr>pb_tree := tm_tree tm', pb_worker := add_tasks rows (pb_worker s)\<rparr>"
    using idle by simp
  ultimately show ?thesis
    using prun_trans [OF _ prun_trans [OF prun_one [OF h] prun_one [OF p]]] rows(3)
    by (fastforce simp: add_tasks_def)
qed

section \<open>Threads that keep apart\<close>

text \<open>
  The rows every thread has yet to store, followed through a run, and the runs in which no thread
  hands rows of a topic to the worker while another one has a row of it yet to store.
\<close>

fun rest_rows :: "publisher_pc \<Rightarrow> row list" where
  "rest_rows (P_Store rows) = rows"
| "rest_rows _ = []"

fun flight :: "row list list \<Rightarrow> pub_event \<Rightarrow> row list list" where
  "flight fl (Handed i rows) = fl[i := rows]"
| "flight fl (Stored i row) = fl[i := tl (fl ! i)]"
| "flight fl (Failed i e) = fl[i := []]"
| "flight fl _ = fl"

fun clear_of :: "string list \<Rightarrow> row list list \<Rightarrow> pub_event \<Rightarrow> bool" where
  "clear_of p fl (Handed i rows) \<longleftrightarrow>
     p \<in> fst ` set rows \<longrightarrow> (\<forall>j\<in>set [0..<length fl]. j = i \<or> p \<notin> fst ` set (fl ! j))"
| "clear_of p fl _ \<longleftrightarrow> True"

fun apart :: "string list \<Rightarrow> row list list \<Rightarrow> pub_event list \<Rightarrow> bool" where
  "apart p fl [] \<longleftrightarrow> True"
| "apart p fl (l # tr) \<longleftrightarrow> clear_of p fl l \<and> apart p (flight fl l) tr"

lemma apart_append: "apart p fl (tr @ tr') \<longleftrightarrow> apart p fl tr \<and> apart p (foldl flight fl tr) tr'"
  by (induction tr arbitrary: fl) auto

lemma publisher_stepE:
  assumes "publisher_step i s = Some (l, s')"
  obtains
    (hands) rows where "pb_threads s ! i = P_Rows rows" "l = Handed i rows"
      "s' = s\<lparr>pb_worker := add_tasks rows (pb_worker s), pb_threads := (pb_threads s)[i := P_Store rows]\<rparr>"
  | (returns) "pb_threads s ! i = P_Store []" "l = Returned i" "s' = s\<lparr>pb_threads := (pb_threads s)[i := P_Idle]\<rparr>"
  | (stores) row rows tree' where "pb_threads s ! i = P_Store (row # rows)" "l = Stored i row"
      "retain_row row (pb_tree s) = (Inr (), tree')"
      "s' = s\<lparr>pb_tree := tree', pb_threads := (pb_threads s)[i := P_Store rows]\<rparr>"
  | (fails) row rows e tree' where "pb_threads s ! i = P_Store (row # rows)" "l = Failed i e"
      "retain_row row (pb_tree s) = (Inl e, tree')" "s' = s\<lparr>pb_tree := tree', pb_threads := (pb_threads s)[i := P_Idle]\<rparr>"
  | (raised) e where "pb_threads s ! i = P_Raised e" "l = Failed i e" "s' = s\<lparr>pb_threads := (pb_threads s)[i := P_Idle]\<rparr>"
  using assms unfolding publisher_step_def
  by (auto split: publisher_pc.splits list.splits prod.splits sum.splits)

lemma rest_same: "i < length ths \<Longrightarrow> rest_rows (ths ! i) = r \<Longrightarrow> (map rest_rows ths)[i := r] = map rest_rows ths"
  by (auto intro!: nth_equalityI simp: nth_list_update)

lemma run_threads:
  assumes "prun loads query run (new_publishers n tree db0) tr s"
  shows "foldl flight (replicate n []) tr = map rest_rows (pb_threads s)" and "length (pb_threads s) = n"
    and "brun query run (new_backend db0) (worker_trace tr) (pb_worker s)" and "added (worker_trace tr) = handed tr"
proof -
  have "foldl flight (replicate n []) tr = map rest_rows (pb_threads s) \<and> length (pb_threads s) = n
      \<and> brun query run (new_backend db0) (worker_trace tr) (pb_worker s) \<and> added (worker_trace tr) = handed tr"
    using assms
  proof (induction rule: prun.induct)
    case prun_Nil
    show ?case by (simp add: new_publishers_def brun.brun_Nil)
  next
    case (prun_snoc tr s' l s'')
    from prun_snoc(2) show ?case
    proof (cases rule: pstep.cases)
      case (publish i raw data qos)
      then show ?thesis using prun_snoc(3)
        by (auto simp: begin_publish_def map_update rest_same split: sum.split)
    next
      case (thread i)
      from thread(2) show ?thesis
        by (cases rule: publisher_stepE)
          (use prun_snoc(3) thread(1) brun.brun_snoc [OF _ bstep.add] in
            \<open>auto simp: map_update rest_same\<close>)
    next
      case (backend l w)
      then show ?thesis using prun_snoc(3) brun.brun_snoc by fastforce
    qed
  qed
  then show "foldl flight (replicate n []) tr = map rest_rows (pb_threads s)" "length (pb_threads s) = n"
    "brun query run (new_backend db0) (worker_trace tr) (pb_worker s)" "added (worker_trace tr) = handed tr" by simp_all
qed

definition rests_in :: "row set \<Rightarrow> publisher_pc list \<Rightarrow> bool" where
  "rests_in R ths \<longleftrightarrow> (\<forall>pc\<in>set ths. set (rest_rows pc) \<subseteq> R)"

lemma rests_in_simps:
  "rests_in R ths \<Longrightarrow> set (rest_rows pc) \<subseteq> R \<Longrightarrow> rests_in R (ths[i := pc])"
  "rests_in R ths \<Longrightarrow> R \<subseteq> R' \<Longrightarrow> rests_in R' ths"
  "rests_in R ths \<Longrightarrow> i < length ths \<Longrightarrow> set (rest_rows (ths ! i)) \<subseteq> R"
  unfolding rests_in_def using set_update_subset_insert [of ths i pc] by (blast, blast, simp)

lemma run_tree:
  assumes "prun loads query run (new_publishers n tree db0) tr s" and "wf_tree tree" and "rows_ok (handed tr)"
  shows "wf_tree (pb_tree s)" and "pb_tree s = retained.store_all (map row_leaf (stored tr)) tree"
    and "set (stored tr) \<subseteq> set (handed tr)" and "rests_in (set (handed tr)) (pb_threads s)"
proof -
  have "wf_tree (pb_tree s) \<and> pb_tree s = retained.store_all (map row_leaf (stored tr)) tree
      \<and> set (stored tr) \<subseteq> set (handed tr) \<and> rests_in (set (handed tr)) (pb_threads s)"
    using assms(1,3)
  proof (induction rule: prun.induct)
    case prun_Nil
    show ?case using assms(2) by (simp add: new_publishers_def rests_in_def)
  next
    case (prun_snoc tr s' l s'')
    then have ih: "wf_tree (pb_tree s')" "pb_tree s' = retained.store_all (map row_leaf (stored tr)) tree"
      "set (stored tr) \<subseteq> set (handed tr)" "rests_in (set (handed tr)) (pb_threads s')"
      by (auto simp: rows_ok_def)
    note rest = rests_in_simps(1) [OF ih(4)]
    from prun_snoc(2) show ?case
    proof (cases rule: pstep.cases)
      case (publish i raw data qos)
      then show ?thesis using ih rest by (simp add: begin_publish_def split: sum.split)
    next
      case (thread i)
      note mine = rests_in_simps(3) [OF ih(4) thread(1)]
      have path: "pb_threads s' ! i = P_Store (row # rows) \<Longrightarrow> rdd_path (fst row)" for row rows
        using mine prun_snoc.prems by (auto simp: rows_ok_def)
      from thread(2) show ?thesis
      proof (cases rule: publisher_stepE)
        case (hands rows)
        have "rests_in (set (handed tr @ rows)) ((pb_threads s')[i := P_Store rows])"
          using rests_in_simps(1) [OF rests_in_simps(2) [OF ih(4)]] by simp
        with ih hands show ?thesis by auto
      next
        case (stores row rows tree')
        have t: "tree' = tree_store (fst row) (obj_of_data (fst (snd row))) (pb_tree s')"
          using retain_row_eq [OF ih(1) path [OF stores(1)]] stores(3) by simp
        then have "wf_tree tree'" using retained.invar_store [OF ih(1) path [OF stores(1)]] by simp
        moreover have "tree' = retained.store_all (map row_leaf (stored tr @ [row])) tree"
          by (simp add: t ih(2) row_leaf_def [of row])
        ultimately show ?thesis using ih(3) mine stores(1,2,4) rest by simp
      next
        case (fails row rows e tree')
        from retain_row_eq [OF ih(1) path [OF fails(1)]] fails(3) show ?thesis by simp
      qed (use ih rest in simp_all)
    next
      case (backend l w)
      then show ?thesis using ih by simp
    qed
  qed
  then show "wf_tree (pb_tree s)" "pb_tree s = retained.store_all (map row_leaf (stored tr)) tree"
    "set (stored tr) \<subseteq> set (handed tr)" "rests_in (set (handed tr)) (pb_threads s)" by blast+
qed

text \<open>
  The rows of a topic are stored in the order in which the worker got them when the threads that
  have rows of it keep apart: at every moment at most one thread has rows of it left, and they are
  the ones that have been handed over and not stored (\<open>ordered\<close>).
\<close>

definition rows_at :: "string list \<Rightarrow> row list \<Rightarrow> row list" where
  "rows_at p rows = filter (\<lambda>r. fst r = p) rows"

lemma rows_at_simps [simp]:
  "rows_at p [] = []" "rows_at p (rows @ rows') = rows_at p rows @ rows_at p rows'"
  "rows_at p (r # rows) = (if fst r = p then r # rows_at p rows else rows_at p rows)"
  by (simp_all add: rows_at_def)

lemma rows_at_Nil: "rows_at p rows = [] \<longleftrightarrow> p \<notin> fst ` set rows"
  by (auto simp: rows_at_def filter_empty_conv)

lemma map_of_rows_at: "map_of (rev (rows_at p rows)) p = map_of (rev rows) p"
proof -
  have "map_of (filter (\<lambda>r. fst r = p) xs) p = map_of xs p" for xs :: "row list" by (induction xs) auto
  then show ?thesis by (simp add: rows_at_def rev_filter)
qed

definition left_of :: "'db publishers \<Rightarrow> nat \<Rightarrow> row list" where
  "left_of s i = (if i < length (pb_threads s) then rest_rows (pb_threads s ! i) else [])"

definition ordered :: "string list \<Rightarrow> pub_event list \<Rightarrow> 'db publishers \<Rightarrow> bool" where
  "ordered p tr s \<longleftrightarrow> (\<exists>i. (\<forall>j. j \<noteq> i \<longrightarrow> rows_at p (left_of s j) = [])
     \<and> rows_at p (handed tr) = rows_at p (stored tr) @ rows_at p (left_of s i))"

lemma left_of_update:
  "k < length (pb_threads s) \<Longrightarrow> pb_threads s' = (pb_threads s)[k := pc] \<Longrightarrow>
   left_of s' j = (if j = k then rest_rows pc else left_of s j)"
  by (simp add: left_of_def)

lemma ordered_same:
  assumes "ordered p tr s" and "left_of s' = left_of s" and "handed [l] = []" and "stored [l] = []"
  shows "ordered p (tr @ [l]) s'"
  using assms by (simp add: ordered_def)

lemma ordered_handed:
  assumes "ordered p tr s" and "k < length (pb_threads s)" and "pb_threads s ! k = P_Rows rows"
    and "pb_threads s' = (pb_threads s)[k := P_Store rows]"
    and "clear_of p (map rest_rows (pb_threads s)) (Handed k rows)"
  shows "ordered p (tr @ [Handed k rows]) s'"
proof -
  note lf = left_of_update [OF assms(2,4)]
  have k: "left_of s k = []" using assms(2,3) by (simp add: left_of_def)
  obtain i where i: "\<And>j. j \<noteq> i \<Longrightarrow> rows_at p (left_of s j) = []"
    "rows_at p (handed tr) = rows_at p (stored tr) @ rows_at p (left_of s i)" using assms(1) by (auto simp: ordered_def)
  show ?thesis
  proof (cases "rows_at p rows = []")
    case True
    with i k show ?thesis unfolding ordered_def by (intro exI [of _ i]) (auto simp: lf)
  next
    case False
    have "rows_at p (left_of s j) = []" for j
    proof (cases "j < length (pb_threads s) \<and> j \<noteq> k")
      case True
      with assms(5) False show ?thesis by (auto simp: rows_at_Nil left_of_def)
    qed (use k in \<open>auto simp: left_of_def\<close>)
    with i show ?thesis unfolding ordered_def by (intro exI [of _ k]) (auto simp: lf)
  qed
qed

lemma ordered_stored:
  assumes "ordered p tr s" and "k < length (pb_threads s)" and "pb_threads s ! k = P_Store (row # rows)"
    and "pb_threads s' = (pb_threads s)[k := P_Store rows]"
  shows "ordered p (tr @ [Stored k row]) s'"
proof -
  note lf = left_of_update [OF assms(2,4)]
  have k: "left_of s k = row # rows" using assms(2,3) by (simp add: left_of_def)
  obtain i where i: "\<And>j. j \<noteq> i \<Longrightarrow> rows_at p (left_of s j) = []"
    "rows_at p (handed tr) = rows_at p (stored tr) @ rows_at p (left_of s i)" using assms(1) by (auto simp: ordered_def)
  show ?thesis
  proof (cases "k = i")
    case True
    with i k show ?thesis unfolding ordered_def by (intro exI [of _ i]) (auto simp: lf)
  next
    case False
    with i(1) [of k] k have "fst row \<noteq> p" "rows_at p rows = []" by (auto split: if_splits)
    with i False show ?thesis unfolding ordered_def by (intro exI [of _ i]) (auto simp: lf)
  qed
qed

lemma run_order:
  assumes "prun loads query run (new_publishers n tree db0) tr s" and "wf_tree tree" and "rows_ok (handed tr)"
    and "apart p (replicate n []) tr"
  shows "ordered p tr s"
  using assms(1,3,4)
proof (induction rule: prun.induct)
  case prun_Nil
  show ?case by (auto simp: ordered_def new_publishers_def left_of_def)
next
  case (prun_snoc tr s' l s'')
  have ok: "rows_ok (handed tr)" using prun_snoc.prems(1) by (auto simp: rows_ok_def)
  have ap: "apart p (replicate n []) tr" "clear_of p (map rest_rows (pb_threads s')) l"
    using prun_snoc.prems(2) run_threads(1) [OF prun_snoc(1)] by (simp_all add: apart_append)
  note ih = prun_snoc.IH [OF ok ap(1)] and same = ordered_same [OF prun_snoc.IH [OF ok ap(1)]]
  from prun_snoc(2) show ?case
  proof (cases rule: pstep.cases)
    case (publish k raw data qos)
    then have "left_of s'' = left_of s'" by (auto simp: fun_eq_iff begin_publish_def left_of_def nth_list_update split: sum.split)
    from same [OF this, of l] publish show ?thesis by simp
  next
    case (thread k)
    from thread(2) show ?thesis
    proof (cases rule: publisher_stepE)
      case (hands rows)
      with ordered_handed [OF ih thread(1), of rows s''] ap(2) show ?thesis by simp
    next
      case returns
      then have "left_of s'' = left_of s'" using thread(1) by (auto simp: fun_eq_iff left_of_def nth_list_update)
      from same [OF this, of l] returns show ?thesis by simp
    next
      case (stores row rows tree')
      with ordered_stored [OF ih thread(1), of row rows s''] show ?thesis by simp
    next
      case (fails row rows e tree')
      from rests_in_simps(3) [OF run_tree(4) [OF prun_snoc(1) assms(2) ok] thread(1)] fails(1) ok
      have "rdd_path (fst row)" by (auto simp: rows_ok_def)
      from retain_row_eq [OF run_tree(1) [OF prun_snoc(1) assms(2) ok] this] fails(3) show ?thesis by simp
    next
      case (raised e)
      then have "left_of s'' = left_of s'" using thread(1) by (auto simp: fun_eq_iff left_of_def nth_list_update)
      from same [OF this, of l] raised show ?thesis by simp
    qed
  next
    case (backend e w)
    then have "left_of s'' = left_of s'" by (simp add: fun_eq_iff left_of_def)
    from same [OF this, of l] backend show ?thesis by simp
  qed
qed

lemma left_none:
  "(\<forall>pc\<in>set (pb_threads s). p \<notin> fst ` set (rest_rows pc)) \<Longrightarrow> rows_at p (left_of s i) = []"
  by (cases "i < length (pb_threads s)") (simp_all add: left_of_def rows_at_Nil)

text \<open>Where threads kept apart, the tree has what the rows handed to the worker say.\<close>

lemma tree_agrees:
  assumes "seq_laws db_delete db_upsert db_lookup" and "wf_tree tree" and "coherent tree (db_lookup db0)"
    and "prun loads query (tree_run db_delete db_upsert) (new_publishers n tree db0) tr s"
    and "clean_rows (handed tr)" and "apart (topic_nodes t) (replicate n []) tr"
    and "\<forall>pc\<in>set (pb_threads s). topic_nodes t \<notin> fst ` set (rest_rows pc)"
  shows "leaf_bytes (leaf_at (pb_tree s) (topic_nodes t)) = map_option fst (written (handed tr) (db_lookup db0) t)"
proof -
  let ?p = "topic_nodes t"
  have ok: "rows_ok (handed tr)" using assms(5) by (rule clean_rows_ok)
  note tree = run_tree [OF assms(4,2) ok]
  have "rows_ok (stored tr)" using ok tree(3) by (auto simp: rows_ok_def)
  moreover have "rows_at ?p (stored tr) = rows_at ?p (handed tr)"
    using run_order [OF assms(4,2) ok assms(6)] left_none [OF assms(7)] by (auto simp: ordered_def)
  then have "map_of (rev (stored tr)) ?p = map_of (rev (handed tr)) ?p"
    by (metis map_of_rows_at)
  ultimately show ?thesis unfolding tree(2) using stored_written [OF assms(2,3)] by blast
qed

section \<open>Memory and database\<close>

text \<open>
  C13: Memory and database come to agree where publishers keep apart. Any number of threads publish
  retained messages, a topic as often as they like, under any interleaving with each other and
  with the worker. Whenever the worker has no task left, a topic has in the database the payload
  it has in the tree, if all topics had before and no row has a separator in the name of a node,
  provided that no thread handed rows of the topic to the worker while another one had yet to store
  a row of it, that none is to be stored now, and that the topic was not stored and cleared with
  the clear last.
\<close>

theorem database_follows:
  assumes "seq_laws db_delete db_upsert db_lookup" and "wf_tree tree" and "coherent tree (db_lookup db0)"
    and "prun loads query (tree_run db_delete db_upsert) (new_publishers n tree db0) tr s"
    and "clean_rows (handed tr)" and "in_hand (b_worker (pb_worker s)) = []" and "b_tasks (pb_worker s) = []"
  shows "wf_tree (pb_tree s)
    \<and> (\<forall>t. steady (handed tr) (topic_nodes t) \<and> apart (topic_nodes t) (replicate n []) tr
          \<and> (\<forall>pc\<in>set (pb_threads s). topic_nodes t \<notin> fst ` set (rest_rows pc)) \<longrightarrow>
         map_option fst (db_lookup (b_state (pb_worker s)) t) = leaf_bytes (leaf_at (pb_tree s) (topic_nodes t)))"
  using tree_agrees [OF assms(1-5)] run_written(2) [OF assms(1) run_threads(3) [OF assms(4)]]
    run_threads(4) [OF assms(4)] run_tree(1) [OF assms(4,2) clean_rows_ok [OF assms(5)]] assms(5-7)
  by simp

section \<open>Schedules\<close>

text \<open>As in \<open>Backend\<close>, a schedule names who moves, and running one is a way to compute a run.\<close>

datatype pub_move = PPublish nat string "bytes option" int | PThread nat | PWorker "row move"

definition do_pub ::
    "(string \<Rightarrow> py_error + pyobj) \<Rightarrow> (arg list \<Rightarrow> py_error + ipc) \<Rightarrow> (row list \<Rightarrow> 'db \<Rightarrow> py_error + 'db)
     \<Rightarrow> pub_move \<Rightarrow> 'db publishers \<Rightarrow> (pub_event \<times> 'db publishers) option" where
  "do_pub loads query run m s =
     (case m of
        PPublish i raw data qos \<Rightarrow>
          if i < length (pb_threads s) \<and> pb_threads s ! i = P_Idle
          then Some (Publish i raw data qos, begin_publish loads i raw data qos s) else None
      | PThread i \<Rightarrow> if i < length (pb_threads s) then publisher_step i s else None
      | PWorker mv \<Rightarrow>
          (case do_move query run mv (pb_worker s) of
             None \<Rightarrow> None
           | Some (l, w) \<Rightarrow> if added [l] = [] then Some (Worker l, s\<lparr>pb_worker := w\<rparr>) else None))"

fun do_pubs ::
    "(string \<Rightarrow> py_error + pyobj) \<Rightarrow> (arg list \<Rightarrow> py_error + ipc) \<Rightarrow> (row list \<Rightarrow> 'db \<Rightarrow> py_error + 'db)
     \<Rightarrow> pub_move list \<Rightarrow> 'db publishers \<Rightarrow> (pub_event list \<times> 'db publishers) option" where
  "do_pubs loads query run [] s = Some ([], s)"
| "do_pubs loads query run (m # ms) s =
     (case do_pub loads query run m s of
        None \<Rightarrow> None
      | Some (l, s') \<Rightarrow> map_option (\<lambda>(tr, s''). (l # tr, s'')) (do_pubs loads query run ms s'))"

lemma do_pub_pstep: "do_pub loads query run m s = Some (l, s') \<Longrightarrow> pstep loads query run s l s'"
  by (cases m)
    (auto simp: do_pub_def intro: pstep.publish pstep.thread pstep.backend [OF do_move_bstep] split: if_splits option.splits)

lemma prun_Cons:
  assumes "pstep loads query run s l s'" and "prun loads query run s' tr s''"
  shows "prun loads query run s (l # tr) s''"
  using assms(2)
proof (induction rule: prun.induct)
  case prun_Nil
  show ?case using prun.prun_snoc [OF prun.prun_Nil assms(1)] by simp
next
  case (prun_snoc tr t l' t')
  from prun.prun_snoc [OF prun_snoc(3,2)] show ?case by simp
qed

lemma do_pubs_prun: "do_pubs loads query run ms s = Some (tr, s') \<Longrightarrow> prun loads query run s tr s'"
  by (induction ms arbitrary: s tr) (auto intro: prun.prun_Nil prun_Cons do_pub_pstep split: option.splits)

lemmas do_pubs_simps = do_pub_def begin_publish_def publisher_step_def do_moves_simps enter_backend_def
  add_tasks_def worker_step_def tree_run_def new_publishers_def new_backend_def

text \<open>A topic without wildcards is one row, whatever the tree holds.\<close>

lemma static_rows:
  assumes "wf_tree tree" and "list_all is_node_static (topic_nodes raw)" and "raw \<noteq> []" and "last raw \<noteq> TOPIC_SEP"
  shows "bindR (from_raw_data raw data qos True) (\<lambda>m. message_rows loads m tree) = Inr [(topic_nodes raw, data, qos)]"
proof -
  obtain m where m: "from_raw_data raw data qos True = Inr m" "\<not> im_graft m"
    using assms(3,4) by (simp add: from_raw_data_def)
  have "EVERYTHING_CARD \<notin> set (topic_nodes raw)" using assms(2) by (auto simp: list_all_iff is_node_static_def)
  then obtain rows where rows: "msg_get_applicable_rows m tree = Inr rows"
    "set rows = {(p, data, qos) | p. applicable False (topic_nodes raw) tree p}" "distinct (map fst rows)"
    using get_applicable_rows_spec [OF assms(1) topic_nodes_path, of raw data qos "[]" False] from_raw_data_Inr [OF m(1)] m(2)
    by (auto simp: msg_get_applicable_rows_def)
  have "set rows = {(topic_nodes raw, data, qos)}"
    unfolding rows(2) using assms(2) topic_nodes_path [of raw]
    by (auto simp: applicable_def topic_match_static rdd_path_def)
  with rows(3) have "rows = [(topic_nodes raw, data, qos)]"
    by (cases rows; cases "tl rows") auto
  with rows(1) m show ?thesis by (simp add: message_rows_def)
qed

text \<open>
  C37: Two publishers can leave memory and database different. Two threads publish to the same topic;
  the worker gets the first one's row first, the tree gets the second one's row first. When both
  have returned and the worker has written everything and waits, the tree holds the one payload and
  the database the other: after a restart the topic has another retained message than before, if
  no topic of the database has an empty node.
\<close>

theorem publishers_disagree:
  assumes "seq_laws db_delete db_upsert db_lookup" and "wf_tree tree"
    and "list_all is_node_static (topic_nodes raw)" and "raw \<noteq> []" and "last raw \<noteq> TOPIC_SEP"
  shows "\<exists>tr s. prun loads query (tree_run db_delete db_upsert) (new_publishers 2 tree db0) tr s
    \<and> pb_threads s = [P_Idle, P_Idle] \<and> b_tasks (pb_worker s) = [] \<and> b_worker (pb_worker s) = W_Wait
    \<and> leaf_at (pb_tree s) (topic_nodes raw) = Some (PyBytes b1)
    \<and> db_lookup (b_state (pb_worker s)) raw = Some (b2, q2)
    \<and> (\<forall>ms. rows_of (db_lookup (b_state (pb_worker s))) ms \<and> (\<forall>t\<in>set (map fst ms). [] \<notin> set (topic_nodes t)) \<longrightarrow>
         leaf_bytes (leaf_at (preload ms) (topic_nodes raw)) = Some b2)"
proof -
  let ?r1 = "(topic_nodes raw, Some b1, q1) :: row" and ?r2 = "(topic_nodes raw, Some b2, q2) :: row"
  let ?ms = "[PWorker MStart, PWorker MWorker, PWorker MWorker, PPublish 0 raw (Some b1) q1, PPublish 1 raw (Some b2) q2,
    PThread 0, PThread 1, PThread 1, PThread 0, PThread 0, PThread 1,
    PWorker MWorker, PWorker MWorker, PWorker MWorker, PWorker MWorker]"
  let ?db = "run_tasks db_delete db_upsert [?r1, ?r2] db0"
  have p: "rdd_path (topic_nodes raw)" by (rule topic_nodes_path)
  let ?t = "\<lambda>b. tree_store (topic_nodes raw) (PyBytes b)"
  have wf: "wf_tree (?t b2 tree)" using retained.invar_store [OF assms(2) p] by simp
  have store: "retain_row ?r2 tree = (Inr (), ?t b2 tree)" "retain_row ?r1 (?t b2 tree) = (Inr (), ?t b1 (?t b2 tree))"
    using retain_row_eq [OF assms(2), of ?r2] retain_row_eq [OF wf, of ?r1] p by simp_all
  obtain tr s where run: "do_pubs loads query (tree_run db_delete db_upsert) ?ms (new_publishers 2 tree db0) = Some (tr, s)"
    and s: "pb_threads s = [P_Idle, P_Idle]" "b_tasks (pb_worker s) = []" "b_worker (pb_worker s) = W_Wait"
      "pb_tree s = ?t b1 (?t b2 tree)" "b_state (pb_worker s) = ?db"
    using store static_rows [OF assms(2-5), of "Some b1" q1 loads] static_rows [OF assms(2-5), of "Some b2" q2 loads]
    by (simp add: do_pubs_simps numeral_2_eq_2)
  have "leaf_at (pb_tree s) (topic_nodes raw) = Some (PyBytes b1)"
    using retained.lookup_store [OF wf p _ p, of "PyBytes b1"] by (simp add: s(4))
  moreover have db: "db_lookup (b_state (pb_worker s)) raw = Some (b2, q2)"
  proof -
    have "create_list [?r1, ?r2] = [(raw, b1, q1), (raw, b2, q2)]" by (simp add: create_list_def join_topic_nodes)
    moreover have "clean_rows [?r1, ?r2]" using topic_nodes_clean by (auto simp: clean_rows_def)
    ultimately show ?thesis using run_tasks_seq [OF assms(1)] by (simp add: s(5))
  qed
  moreover have "leaf_bytes (leaf_at (preload ms) (topic_nodes raw)) = Some b2"
    if "rows_of (db_lookup (b_state (pb_worker s))) ms" "\<forall>t\<in>set (map fst ms). [] \<notin> set (topic_nodes t)" for ms
    using preload_rows(2) [OF that, of raw] db by simp
  ultimately show ?thesis using do_pubs_prun [OF run] s(1-3) by (intro exI [of _ tr] exI [of _ s]) blast
qed

lemma publishers_disagree_witness:
  "\<exists>tr (s :: map_db publishers). prun no_json base_query (tree_run map_delete seq_upsert)
       (new_publishers 2 (PyRdd []) (\<lambda>t. None)) tr s
    \<and> leaf_at (pb_tree s) (topic_nodes ''a/b'') = Some (PyBytes [1]) \<and> b_state (pb_worker s) ''a/b'' = Some ([2], 1)"
proof -
  have "topic_nodes ''a/b'' = [''a'', ''b'']" by (simp add: topic_nodes_def const_defs)
  then have "list_all is_node_static (topic_nodes ''a/b'')" "last ''a/b'' \<noteq> TOPIC_SEP"
    by (simp_all add: is_node_static_def const_defs)
  from publishers_disagree [where db_lookup = "\<lambda>db. db", OF map_seq_laws wf_rdd_Nil this(1) _ this(2),
      of no_json base_query "\<lambda>t. None" "[1]" "[2]" 1]
  show ?thesis by blast
qed

lemma demo_rows:
  assumes "wf_tree tree"
  shows "bindR (from_raw_data ''a'' (Some b) 0 True) (\<lambda>m. message_rows no_json m tree) = Inr [([''a''], Some b, 0)]"
    and "bindR (from_raw_data ''b'' (Some b) 0 True) (\<lambda>m. message_rows no_json m tree) = Inr [([''b''], Some b, 0)]"
    and "\<exists>tree'. retain_row ([''a''], Some b, 0) tree = (Inr (), tree') \<and> wf_tree tree'"
    and "\<exists>tree'. retain_row ([''b''], Some b, 0) tree = (Inr (), tree') \<and> wf_tree tree'"
proof -
  have n: "topic_nodes ''a'' = [''a'']" "topic_nodes ''b'' = [''b'']" by (simp_all add: topic_nodes_def const_defs)
  show "bindR (from_raw_data ''a'' (Some b) 0 True) (\<lambda>m. message_rows no_json m tree) = Inr [([''a''], Some b, 0)]"
    "bindR (from_raw_data ''b'' (Some b) 0 True) (\<lambda>m. message_rows no_json m tree) = Inr [([''b''], Some b, 0)]"
    using static_rows [OF assms, of "''a''"] static_rows [OF assms, of "''b''"]
    by (simp_all add: n is_node_static_def const_defs)
  have p: "rdd_path [''a'']" "rdd_path [''b'']" by (simp_all add: rdd_path_def const_defs)
  show "\<exists>tree'. retain_row ([''a''], Some b, 0) tree = (Inr (), tree') \<and> wf_tree tree'"
    "\<exists>tree'. retain_row ([''b''], Some b, 0) tree = (Inr (), tree') \<and> wf_tree tree'"
    using retain_row_eq [OF assms] p retained.invar_store [OF assms] by fastforce+
qed

lemma database_follows_witness:
  "\<exists>tr (s :: map_db publishers). prun no_json base_query (tree_run map_delete seq_upsert)
       (new_publishers 2 (PyRdd []) (\<lambda>t. None)) tr s
    \<and> handed tr = [([''a''], Some [1], 0), ([''b''], Some [2], 0), ([''a''], Some [3], 0)]
    \<and> stored tr = [([''b''], Some [2], 0), ([''a''], Some [1], 0), ([''a''], Some [3], 0)]
    \<and> map_option fst (b_state (pb_worker s) ''a'') = leaf_bytes (leaf_at (pb_tree s) [''a''])"
proof -
  let ?ms = "[PWorker MStart, PWorker MWorker, PWorker MWorker, PPublish 0 ''a'' (Some [1]) 0, PPublish 1 ''b'' (Some [2]) 0,
    PThread 0, PThread 1, PThread 1, PThread 0, PThread 1, PPublish 1 ''a'' (Some [3]) 0, PThread 1, PThread 1,
    PWorker MWorker, PWorker MWorker, PWorker MWorker, PWorker MWorker]"
  note start = wf_rdd_Nil [where P = is_data]
  obtain t1 where t1: "retain_row ([''b''], Some [2], 0) (PyRdd []) = (Inr (), t1)" "wf_tree t1"
    using demo_rows(4) [OF start] by blast
  obtain t2 where t2: "retain_row ([''a''], Some [1], 0) t1 = (Inr (), t2)" "wf_tree t2"
    using demo_rows(3) [OF t1(2)] by blast
  obtain t3 where t3: "retain_row ([''a''], Some [3], 0) t2 = (Inr (), t3)" "wf_tree t3"
    using demo_rows(3) [OF t2(2)] by blast
  obtain tr s where run: "do_pubs no_json base_query (tree_run map_delete seq_upsert) ?ms
      (new_publishers 2 (PyRdd []) (\<lambda>t. None)) = Some (tr, s)"
    and s: "pb_threads s = [P_Store [], P_Store []]" "b_tasks (pb_worker s) = []" "in_hand (b_worker (pb_worker s)) = []"
      "tr = [Worker Start, Worker Internal, Worker Internal, Publish 0 ''a'' (Some [1]) 0, Publish 1 ''b'' (Some [2]) 0,
        Handed 0 [([''a''], Some [1], 0)], Handed 1 [([''b''], Some [2], 0)], Stored 1 ([''b''], Some [2], 0),
        Stored 0 ([''a''], Some [1], 0), Returned 1, Publish 1 ''a'' (Some [3]) 0, Handed 1 [([''a''], Some [3], 0)],
        Stored 1 ([''a''], Some [3], 0), Worker Internal, Worker Internal, Worker Internal, Worker Internal]"
    using demo_rows(1,2) [OF start] demo_rows(1) [OF t2(2)] t1(1) t2(1) t3(1)
    by (simp add: do_pubs_simps numeral_2_eq_2)
  have n: "topic_nodes ''a'' = [''a'']" by (simp add: topic_nodes_def const_defs)
  have c: "clean_rows (handed tr)" "steady (handed tr) [''a'']" "apart [''a''] (replicate 2 []) tr"
    "\<forall>pc\<in>set (pb_threads s). [''a''] \<notin> fst ` set (rest_rows pc)"
    by (simp_all add: s clean_rows_def clean_node_def steady_def const_defs numeral_2_eq_2)
  from database_follows [where db_lookup = "\<lambda>db. db", OF map_seq_laws start coherent_empty do_pubs_prun [OF run] c(1) s(3,2)] c(2-4)
  have "map_option fst (b_state (pb_worker s) ''a'') = leaf_bytes (leaf_at (pb_tree s) [''a''])"
    unfolding n [symmetric] by blast
  with do_pubs_prun [OF run] show ?thesis by (intro exI [of _ tr] exI [of _ s]) (simp add: s(4))
qed

end
