(* ===== verification/Publications.thy ===== *)
theory Publications
  imports Publishers
begin

text \<open>
  From the publications to the answers of the next broker: the threads of \<open>Publishers\<close> start with
  the tree \<open>preload\<close> has built, and the rows are those they make of retained messages. The names of
  the nodes are followed through the tree, since a row is written under its path joined by
  separators.
\<close>

section \<open>Names of nodes\<close>

text \<open>A name that survives joining, splitting and the loader: no separator in it, and not empty.\<close>

definition good_node :: "string \<Rightarrow> bool" where
  "good_node n \<longleftrightarrow> clean_node n \<and> n \<noteq> []"

definition good_path :: "string list \<Rightarrow> bool" where
  "good_path p \<longleftrightarrow> p \<noteq> [] \<and> list_all good_node p"

fun named_well :: "pyobj \<Rightarrow> bool" where
  "named_well (PyRdd kvs) \<longleftrightarrow> (\<forall>x\<in>set kvs. fst x = LEAF_KEY \<or> good_node (fst x) \<and> named_well (snd x))"
| "named_well obj \<longleftrightarrow> True"

lemma good_not_leaf: "good_node n \<Longrightarrow> n \<noteq> LEAF_KEY"
  using clean_not_leaf by (simp add: good_node_def)

lemma good_rdd_path: "good_path p \<Longrightarrow> rdd_path p"
  by (auto simp: good_path_def rdd_path_def list_all_iff dest: good_not_leaf)

lemma good_topic: "good_path (topic_nodes t) \<longleftrightarrow> [] \<notin> set (topic_nodes t)"
  using topic_nodes_clean [of _ t] topic_nodes_not_Nil [of t]
  by (auto simp: good_path_def good_node_def list_all_iff)

lemma leaf_branch: "leaf_at t p \<noteq> None \<Longrightarrow> branch_at t p \<noteq> None"
proof (induction t p rule: leaf_at.induct)
  case (2 kvs n ns)
  then show ?case by (auto split: option.splits)
qed auto

lemma branch_names:
  "named_well t \<Longrightarrow> branch_at t p \<noteq> None \<Longrightarrow> LEAF_KEY \<notin> set p \<Longrightarrow> list_all good_node p"
proof (induction t p rule: branch_at.induct)
  case (2 kvs n ns)
  then obtain v where v: "map_of kvs n = Some v" "branch_at v ns \<noteq> None" by (auto split: option.splits)
  then have "good_node n \<and> named_well v" using 2(2,4) by (fastforce dest: map_of_SomeD)
  with 2(1) [OF v(1)] v(2) 2(4) show ?case by simp
qed auto

lemma named_update:
  "named_well (PyRdd kvs) \<Longrightarrow> n = LEAF_KEY \<or> good_node n \<and> named_well v \<Longrightarrow> named_well (PyRdd (AList.update n v kvs))"
  unfolding named_well.simps using set_update_subset [of n v kvs] by fastforce

lemma named_child: "named_well (PyRdd kvs) \<Longrightarrow> n \<noteq> LEAF_KEY \<Longrightarrow> named_well (child_or kvs n)"
  by (fastforce simp: child_or_def split: option.splits dest: map_of_SomeD)

lemma tree_store_names:
  "wf_tree t \<Longrightarrow> good_path p \<Longrightarrow> named_well t \<Longrightarrow> named_well (tree_store p v t)"
proof (induction p arbitrary: t)
  case (Cons n ns)
  from Cons.prems(1) obtain kvs where t: "t = PyRdd kvs" by (blast dest: wf_rdd_ex)
  have n: "good_node n" "n \<noteq> LEAF_KEY" using Cons.prems(2) good_not_leaf by (auto simp: good_path_def)
  have wfc: "wf_tree (child_or kvs n)" using Cons.prems(1) n(2) by (simp add: t wf_child_or)
  have nc: "named_well (child_or kvs n)" using Cons.prems(3) n(2) by (simp add: t named_child)
  obtain kvs2 where c: "child_or kvs n = PyRdd kvs2" using wfc by (blast dest: wf_rdd_ex)
  let ?r = "if ns \<noteq> [] then tree_store ns v (child_or kvs n) else snd (set_leaf v (child_or kvs n))"
  have "named_well ?r"
  proof (cases "ns = []")
    case True
    then show ?thesis using nc named_update [of kvs2 LEAF_KEY v] by (simp add: c del: named_well.simps)
  next
    case False
    then have "good_path ns" using Cons.prems(2) by (simp add: good_path_def)
    with Cons.IH [OF wfc _ nc] False show ?thesis by simp
  qed
  moreover have "tree_store (n # ns) v t = PyRdd (AList.update n ?r kvs)"
    using rdd_truediv_Cons [OF n(2) Cons.prems(1) [unfolded t], of PyNone ns "set_leaf v"]
    by (simp add: t tree_store_def split_beta Let_def)
  ultimately show ?case using Cons.prems(3) n by (simp add: t named_update del: named_well.simps)
qed (simp add: good_path_def)

text \<open>What \<open>preload\<close> builds is named well whatever the rows are.\<close>

lemma preload_store_names:
  "wf_tree t \<Longrightarrow> list_all good_node p \<Longrightarrow> named_well t \<Longrightarrow> named_well (preload_store p v t)"
proof (induction p arbitrary: t)
  case Nil
  then obtain kvs where "t = PyRdd kvs" by (blast dest: wf_rdd_ex)
  with Nil show ?case by (simp add: named_update del: named_well.simps)
next
  case (Cons n ns)
  from Cons.prems(1) obtain kvs where t: "t = PyRdd kvs" by (blast dest: wf_rdd_ex)
  have n: "good_node n" "n \<noteq> LEAF_KEY" using Cons.prems(2) good_not_leaf by auto
  have "wf_tree (child_or kvs n)" "named_well (child_or kvs n)"
    using Cons.prems n(2) by (simp_all add: t wf_child_or named_child)
  with Cons.IH Cons.prems(2) have "named_well (preload_store ns v (child_or kvs n))" by simp
  with n Cons.prems(3) show ?case by (simp add: t preload_store_Cons named_update del: named_well.simps)
qed

lemma preload_nodes_good: "list_all good_node (preload_nodes t)"
  by (auto simp: preload_nodes_def list_all_iff good_node_def clean_node_def dest: split_char_no_sep)

lemma preload_named: "named_well (preload ms)"
proof -
  have "wf_tree (preload ms) \<and> named_well (preload ms)"
  proof (induction ms rule: rev_induct)
    case Nil
    show ?case by (simp add: preload_def)
  next
    case (snoc m ms)
    have "leaf_path (preload_nodes (fst m))"
      using preload_nodes_good [of "fst m"] good_not_leaf by (auto simp: leaf_path_def list_all_iff)
    with snoc preload_store_spec [of "preload ms" "preload_nodes (fst m)" "obj_of_data (snd m)"]
      preload_store_names [OF _ preload_nodes_good, of "preload ms" "fst m" "obj_of_data (snd m)"]
    show ?case by (simp add: preload_def)
  qed
  then show ?thesis by simp
qed

section \<open>Rows of publications\<close>

definition good_rows :: "row list \<Rightarrow> bool" where
  "good_rows rows \<longleftrightarrow> (\<forall>r\<in>set rows. good_path (fst r))"

lemma good_clean_rows: "good_rows rows \<Longrightarrow> clean_rows rows"
  by (auto simp: good_rows_def clean_rows_def good_path_def good_node_def list_all_iff)

lemma store_all_names:
  "wf_tree t \<Longrightarrow> named_well t \<Longrightarrow> good_rows rows \<Longrightarrow>
   wf_tree (retained.store_all (map row_leaf rows) t) \<and> named_well (retained.store_all (map row_leaf rows) t)"
proof (induction rows arbitrary: t)
  case (Cons r rows)
  then have "good_path (fst r)" "good_rows rows" by (simp_all add: good_rows_def)
  with Cons tree_store_names [OF Cons.prems(1) _ Cons.prems(2)] retained.invar_store [OF Cons.prems(1) good_rdd_path]
  show ?case by (simp add: row_leaf_def)
qed simp

lemma match_good:
  "topic_match topic p \<Longrightarrow> list_all good_node topic \<Longrightarrow> LEAF_KEY \<notin> set p \<Longrightarrow> named_well t \<Longrightarrow> topic \<noteq> [] \<Longrightarrow>
   branch_at t (if last topic = MANY_CARD then p else butlast p) \<noteq> None \<Longrightarrow> good_path p"
proof -
  assume m: "topic_match topic p" and g: "list_all good_node topic" and leaf: "LEAF_KEY \<notin> set p"
    and t: "named_well t" and ne: "topic \<noteq> []"
    and br: "branch_at t (if last topic = MANY_CARD then p else butlast p) \<noteq> None"
  have p: "p \<noteq> []" using m ne topic_match_length by fastforce
  show "good_path p"
  proof (cases "last topic = MANY_CARD")
    case True
    with branch_names [OF t _ leaf] br p show ?thesis by (simp add: good_path_def)
  next
    case False
    have "last p = last topic"
    proof -
      have "list_all2 (\<lambda>f n. f = MANY_CARD \<or> f = n) (butlast topic @ [last topic]) (butlast p @ [last p])"
        using m ne p by (simp add: topic_match_def)
      moreover have "length (butlast topic) = length (butlast p)" using topic_match_length [OF m] by simp
      ultimately show ?thesis using False by (auto simp: list_all2_append)
    qed
    moreover have "good_node (last topic)" using g ne by (simp add: list_all_iff)
    moreover have "list_all good_node (butlast p)"
      using branch_names [OF t, of "butlast p"] br False leaf by (auto dest: in_set_butlastD)
    ultimately have "list_all good_node (butlast p @ [last p])" by simp
    with p show ?thesis by (simp add: good_path_def)
  qed
qed

lemma applicable_good:
  assumes "applicable False topic t p" and "good_path topic" and "named_well t"
  shows "good_path p"
proof (cases "list_all is_node_static topic")
  case True
  then show ?thesis using assms by (simp add: applicable_def topic_match_static)
next
  case False
  with assms match_good [of topic p t] show ?thesis by (auto simp: applicable_def good_path_def)
qed

lemma below_good: "below pre t p \<Longrightarrow> named_well t \<Longrightarrow> good_path p"
  using branch_names [of t p] leaf_branch [of t p] by (auto simp: below_def good_path_def)

lemma fill_good: "list_all good_node topic \<Longrightarrow> list_all good_node p \<Longrightarrow> list_all good_node (fill topic p)"
  by (induction topic p rule: fill.induct) (auto split: list.splits)

text \<open>
  What can be published and kept: a topic without empty nodes and with \<open>#\<close> only at the end, or
  such a topic with a separator after it and a JSON tree as deep as its wildcards, with texts at
  its ends and keys that are names.
\<close>

definition publishable :: "(string \<Rightarrow> py_error + pyobj) \<Rightarrow> string \<Rightarrow> bytes option \<Rightarrow> bool" where
  "publishable loads raw data \<longleftrightarrow>
     good_path (topic_nodes raw) \<and> EVERYTHING_CARD \<notin> set (butlast (topic_nodes raw))
     \<or> (\<exists>bs text obj. data = Some bs \<and> raw \<noteq> [] \<and> last raw = TOPIC_SEP \<and> good_path (topic_nodes (butlast raw))
          \<and> EVERYTHING_CARD \<notin> set (topic_nodes (butlast raw)) \<and> py_decode bs = Inr text \<and> loads text = Inr obj
          \<and> payload (wilds (topic_nodes (butlast raw))) obj
          \<and> (\<forall>(p, s)\<in>set (payload_leaves obj). list_all good_node p))"

lemma split_char_end: "split_char sep (w @ [sep]) = split_char sep w @ [[]]"
  by (induction w) (auto split: list.splits)

lemma ends_in_separator: "raw \<noteq> [] \<Longrightarrow> last raw = TOPIC_SEP \<Longrightarrow> [] \<in> set (topic_nodes raw)"
  using split_char_end [of TOPIC_SEP "butlast raw"] append_butlast_last_id [of raw]
  by (simp add: topic_nodes_def)

lemma plain_rows:
  assumes "wf_tree (tm_tree tm)" and "named_well (tm_tree tm)" and "good_path (topic_nodes raw)"
    and "EVERYTHING_CARD \<notin> set (butlast (topic_nodes raw))"
  shows "\<exists>m rows tm'. from_raw_data raw data qos True = Inr m \<and> process_message loads m tm = (Inr rows, tm') \<and> good_rows rows"
proof -
  have ne: "[] \<notin> set (topic_nodes raw)" using assms(3) by (simp add: good_topic)
  then have "raw \<noteq> []" by (auto simp: topic_nodes_def)
  with ne have raw: "raw \<noteq> []" "last raw \<noteq> TOPIC_SEP" using ends_in_separator [of raw] by blast+
  then obtain m where m: "from_raw_data raw data qos True = Inr m" "\<not> im_graft m" by (simp add: from_raw_data_def)
  show ?thesis
  proof (cases "EVERYTHING_CARD \<in> set (topic_nodes raw)")
    case False
    from process_publish_aux [OF assms(1) m False, of loads] obtain rows tree' where
      "process_message loads m tm = (Inr rows, tm\<lparr>tm_tree := tree', tm_tasks := tm_tasks tm @ rows\<rparr>)"
      "set rows = {(p, data, qos) | p. applicable False (topic_nodes raw) (tm_tree tm) p}" by blast
    moreover from this(2) have "good_rows rows"
      using applicable_good [OF _ assms(3,2)] by (auto simp: good_rows_def)
    ultimately show ?thesis using m(1) by blast
  next
    case True
    let ?pre = "butlast (topic_nodes raw)"
    have "topic_nodes raw \<noteq> []" using True by auto
    moreover have "last (topic_nodes raw) = EVERYTHING_CARD"
      using True assms(4) \<open>topic_nodes raw \<noteq> []\<close> by (metis append_butlast_last_id rotate1.simps(2) set_ConsD set_rotate1)
    ultimately have nodes: "topic_nodes raw = ?pre @ [EVERYTHING_CARD]" by (metis append_butlast_last_id)
    from process_everything_aux [OF assms(1) m nodes assms(4), of loads] obtain rows tree' where
      "process_message loads m tm = (Inr rows, tm\<lparr>tm_tree := tree', tm_tasks := tm_tasks tm @ rows\<rparr>)"
      "set rows = {(p, data, qos) | p. below ?pre (tm_tree tm) p}" by blast
    moreover from this(2) have "good_rows rows" using below_good [OF _ assms(2)] by (auto simp: good_rows_def)
    ultimately show ?thesis using m(1) by blast
  qed
qed

lemma graft_rows_good:
  assumes "good_path topic" and "payload (wilds topic) obj" and "\<forall>(p, s)\<in>set (payload_leaves obj). list_all good_node p"
  shows "good_rows (graft_rows topic obj qos)"
proof -
  have "good_path (fill topic p)" if "(p, s) \<in> set (payload_leaves obj)" for p s
  proof -
    have "fill topic p \<noteq> []" using assms(1) by (cases topic) (auto simp: good_path_def split: list.splits)
    with fill_good [of topic p] assms(1,3) that show ?thesis by (auto simp: good_path_def)
  qed
  then show ?thesis by (auto simp: good_rows_def graft_rows_def)
qed

lemma publishable_rows:
  assumes "wf_tree tree" and "named_well tree" and "publishable loads raw data"
  shows "\<exists>rows. bindR (from_raw_data raw data qos True) (\<lambda>m. message_rows loads m tree) = Inr rows \<and> good_rows rows"
proof -
  let ?tm = "\<lparr>tm_tree = tree, tm_tasks = []\<rparr>"
  have tm: "wf_tree (tm_tree ?tm)" "named_well (tm_tree ?tm)" using assms(1,2) by simp_all
  obtain m rows tm' where m: "from_raw_data raw data qos True = Inr m" "process_message loads m ?tm = (Inr rows, tm')"
    "good_rows rows"
  proof -
    from assms(3) consider "good_path (topic_nodes raw)" "EVERYTHING_CARD \<notin> set (butlast (topic_nodes raw))"
      | bs str obj where "data = Some bs" "raw \<noteq> []" "last raw = TOPIC_SEP" "good_path (topic_nodes (butlast raw))"
          "EVERYTHING_CARD \<notin> set (topic_nodes (butlast raw))" "py_decode bs = Inr str" "loads str = Inr obj"
          "payload (wilds (topic_nodes (butlast raw))) obj" "\<forall>(p, s)\<in>set (payload_leaves obj). list_all good_node p"
      unfolding publishable_def by blast
    then show ?thesis
    proof cases
      case 1
      with plain_rows [OF tm 1, of data qos loads] that show ?thesis by blast
    next
      case (2 bs str obj)
      then obtain m where f: "from_raw_data raw (Some bs) qos True = Inr m" "im_graft m" by (simp add: from_raw_data_def)
      from process_graft_aux [where loads = loads, OF tm(1) f 2(6,7,8,5)] graft_rows_good [OF 2(4,8,9)] that f 2(1)
      show ?thesis by blast
    qed
  qed
  then have "message_rows loads m tree = Inr rows"
    by (auto simp: process_message_def message_rows_def res_simps split: sum.splits prod.splits if_splits)
  with m show ?thesis by simp
qed

text \<open>What the threads were given, and how they failed.\<close>

fun published :: "pub_event list \<Rightarrow> (string \<times> bytes option) list" where
  "published [] = []"
| "published (Publish i raw data qos # tr) = (raw, data) # published tr"
| "published (_ # tr) = published tr"

fun failures :: "pub_event list \<Rightarrow> py_error list" where
  "failures [] = []"
| "failures (Failed i e # tr) = e # failures tr"
| "failures (_ # tr) = failures tr"

lemma published_append [simp]:
  "published (tr @ tr') = published tr @ published tr'" "failures (tr @ tr') = failures tr @ failures tr'"
proof -
  show "published (tr @ tr') = published tr @ published tr'" by (induction tr rule: published.induct) auto
  show "failures (tr @ tr') = failures tr @ failures tr'" by (induction tr rule: failures.induct) auto
qed

text \<open>Every row a thread has at hand is named well, and no thread has an exception to raise.\<close>

fun pc_good :: "publisher_pc \<Rightarrow> bool" where
  "pc_good P_Idle \<longleftrightarrow> True"
| "pc_good (P_Rows rows) \<longleftrightarrow> good_rows rows"
| "pc_good (P_Store rows) \<longleftrightarrow> good_rows rows"
| "pc_good (P_Raised e) \<longleftrightarrow> False"

lemma pcs_good_update: "list_all pc_good ths \<Longrightarrow> pc_good pc \<Longrightarrow> list_all pc_good (ths[i := pc])"
  using set_update_subset_insert [of ths i pc] unfolding list_all_iff by blast

lemma good_rows_simps [simp]:
  "good_rows []" "good_rows (row # rows) \<longleftrightarrow> good_path (fst row) \<and> good_rows rows"
  "good_rows (rows @ rows') \<longleftrightarrow> good_rows rows \<and> good_rows rows'"
  by (auto simp: good_rows_def)

definition pub_good :: "pub_event list \<Rightarrow> 'db publishers \<Rightarrow> bool" where
  "pub_good tr s \<longleftrightarrow> wf_tree (pb_tree s) \<and> named_well (pb_tree s) \<and> list_all pc_good (pb_threads s)
     \<and> good_rows (handed tr) \<and> failures tr = []"

lemma thread_good:
  assumes "pub_good tr s" and "i < length (pb_threads s)" and "publisher_step i s = Some (l, s')"
  shows "pub_good (tr @ [l]) s'"
proof -
  have g: "wf_tree (pb_tree s)" "named_well (pb_tree s)" "list_all pc_good (pb_threads s)" "good_rows (handed tr)"
    "failures tr = []" using assms(1) by (simp_all add: pub_good_def)
  have mine: "pc_good (pb_threads s ! i)" using g(3) assms(2) by (simp add: list_all_length)
  note pcs = pcs_good_update [OF g(3)]
  have row: "retain_row row (pb_tree s) = (Inr (), tree_store (fst row) (obj_of_data (fst (snd row))) (pb_tree s))
      \<and> wf_tree (tree_store (fst row) (obj_of_data (fst (snd row))) (pb_tree s))
      \<and> named_well (tree_store (fst row) (obj_of_data (fst (snd row))) (pb_tree s))"
    if "good_path (fst row)" for row
    using retain_row_eq [OF g(1) good_rdd_path [OF that]] retained.invar_store [OF g(1) good_rdd_path [OF that]]
      tree_store_names [OF g(1) that g(2)] by simp
  from assms(3) show ?thesis
  proof (cases rule: publisher_stepE)
    case (stores r rows tree')
    with mine row [of r] g pcs show ?thesis by (simp add: pub_good_def)
  next
    case (fails r rows e tree')
    with mine row [of r] show ?thesis by simp
  qed (use g mine pcs in \<open>simp_all add: pub_good_def\<close>)
qed

lemma run_good:
  assumes "prun loads query run (new_publishers n tree db0) tr s" and "wf_tree tree" and "named_well tree"
    and "\<forall>(raw, data)\<in>set (published tr). publishable loads raw data"
  shows "pub_good tr s"
  using assms(1,4)
proof (induction rule: prun.induct)
  case prun_Nil
  show ?case using assms(2,3) by (simp add: pub_good_def new_publishers_def list_all_iff)
next
  case (prun_snoc tr s' l s'')
  then have ih: "pub_good tr s'" by auto
  from prun_snoc(2) show ?case
  proof (cases rule: pstep.cases)
    case (publish i raw data qos)
    have "publishable loads raw data" using prun_snoc.prems publish(1) by simp
    with ih obtain rows where "bindR (from_raw_data raw data qos True) (\<lambda>m. message_rows loads m (pb_tree s')) = Inr rows"
      "good_rows rows" using publishable_rows [of "pb_tree s'" loads raw data qos] by (auto simp: pub_good_def)
    with ih publish show ?thesis by (simp add: begin_publish_def pub_good_def pcs_good_update)
  next
    case (thread i)
    with thread_good [OF ih thread] show ?thesis by simp
  next
    case (backend e w)
    with ih show ?thesis by (simp add: pub_good_def)
  qed
qed

section \<open>The topics of the database\<close>

lemma run_tasks_topics:
  assumes "seq_laws db_delete db_upsert db_lookup" and "clean_rows rows"
    and "db_lookup (run_tasks db_delete db_upsert rows db) t \<noteq> None"
  shows "db_lookup db t \<noteq> None \<or> topic_nodes t \<in> fst ` set rows"
proof (cases "map_of (rev (create_list rows)) t")
  case None
  with run_tasks_seq [OF assms(1,2), of db t] assms(3) show ?thesis by (auto split: if_splits)
next
  case (Some v)
  then have "(t, v) \<in> set (create_list rows)" by (auto dest: map_of_SomeD)
  then obtain r where r: "r \<in> set rows" "join_char TOPIC_SEP (fst r) = t" by (auto simp: create_list_def)
  with clean_row_key [OF assms(2) r(1), of t] have "fst r = topic_nodes t" by simp
  with r(1) show ?thesis by (metis image_eqI)
qed

lemma batches_topics:
  assumes "seq_laws db_delete db_upsert db_lookup" and "ran (tree_run db_delete db_upsert) db0 bs db"
    and "clean_rows (concat bs)" and "db_lookup db t \<noteq> None"
  shows "db_lookup db0 t \<noteq> None \<or> topic_nodes t \<in> fst ` set (concat bs)"
  using assms(2-)
proof (induction bs arbitrary: db rule: rev_induct)
  case (snoc b bs)
  then obtain db1 where db1: "ran (tree_run db_delete db_upsert) db0 bs db1" "db = run_tasks db_delete db_upsert b db1"
    by (auto simp: ran_def foldR_snoc tree_run_def res_simps)
  have "clean_rows (concat bs)" "clean_rows b" using snoc.prems(2) by (simp_all add: clean_rows_append)
  then have "db_lookup db1 t \<noteq> None \<or> topic_nodes t \<in> fst ` set b"
    using run_tasks_topics [OF assms(1), of b db1 t] snoc.prems(3) db1(2) by blast
  with snoc.IH [OF db1(1) \<open>clean_rows (concat bs)\<close>] show ?case
    unfolding concat_append set_append image_Un by auto
qed (simp add: ran_def)

section \<open>From one broker to the next\<close>

definition topics_full :: "(string \<times> bytes option) list \<Rightarrow> bool" where
  "topics_full ms \<longleftrightarrow> (\<forall>t\<in>set (map fst ms). [] \<notin> set (topic_nodes t))"

lemma preload_coherent: "rows_of look ms \<Longrightarrow> topics_full ms \<Longrightarrow> wf_tree (preload ms) \<and> coherent (preload ms) look"
  using preload_rows [of look ms] by (simp add: topics_full_def coherent_def)

text \<open>No topic with an empty node gets into the database.\<close>

lemma topics_stay_full:
  assumes "seq_laws db_delete db_upsert db_lookup" and "rows_of (db_lookup db0) ms0" and "topics_full ms0"
    and "brun query (tree_run db_delete db_upsert) (new_backend db0) tr s" and "good_rows (added tr)"
    and "in_hand (b_worker s) = []"
    and "rows_of (db_lookup (run_tasks db_delete db_upsert (b_tasks s) (b_state s))) ms"
  shows "topics_full ms"
  unfolding topics_full_def
proof
  fix t assume "t \<in> set (map fst ms)"
  then have "map_of ms t \<noteq> None" by (simp add: map_of_eq_None_iff)
  then have look: "db_lookup (run_tasks db_delete db_upsert (b_tasks s) (b_state s)) t \<noteq> None"
    using assms(7) by (auto simp: rows_of_def)
  obtain bs where bs: "ran (tree_run db_delete db_upsert) db0 bs (b_state s)" "concat bs @ b_tasks s = added tr"
    using brun_batches [OF assms(4)] assms(6) by auto
  have "clean_rows (concat bs @ b_tasks s)" using good_clean_rows [OF assms(5)] bs(2) by simp
  then have c: "clean_rows (concat bs)" "clean_rows (b_tasks s)" by (simp_all add: clean_rows_append)
  have "db_lookup db0 t \<noteq> None \<or> topic_nodes t \<in> fst ` set (concat bs @ b_tasks s)"
    using run_tasks_topics [OF assms(1) c(2) look] batches_topics [OF assms(1) bs(1) c(1)]
    unfolding set_append image_Un by blast
  then show "[] \<notin> set (topic_nodes t)"
  proof
    assume "db_lookup db0 t \<noteq> None"
    then have "map_of ms0 t \<noteq> None" using assms(2) by (simp add: rows_of_def)
    then have "t \<in> set (map fst ms0)" by (simp add: map_of_eq_None_iff)
    with assms(3) show ?thesis unfolding topics_full_def by blast
  next
    assume "topic_nodes t \<in> fst ` set (concat bs @ b_tasks s)"
    then have "good_path (topic_nodes t)" using assms(5) bs(2) by (auto simp: good_rows_def)
    then show ?thesis by (simp add: good_topic)
  qed
qed

text \<open>
  C12: What clients see of a restart where publishers keep apart: nothing. A broker starts on a
  database without empty nodes in its topics; any number of threads publish retained messages to
  topics without empty nodes and with \<open>#\<close> only at the end, or JSON trees with names for keys and
  texts at their ends to such topics, under any interleaving with each other and with the worker;
  the broker stops while the worker waits for work; another one starts on the same database. Then
  publishing never failed, the worker has written everything and ended, and to every subscription
  without \<open>#\<close> the new broker answers with the same payloads as the old one would have: for every
  topic of which no thread handed rows to the worker while another one had yet to store one, of
  which none is left to store, and which was not stored and cleared with the clear last.
\<close>

theorem restart_keeps_publications:
  assumes "seq_laws db_delete db_upsert db_lookup" and "rows_of (db_lookup db0) ms0" and "topics_full ms0"
    and "prun loads query (tree_run db_delete db_upsert) (new_publishers n (preload ms0) db0) tr s"
    and "\<forall>(raw, data)\<in>set (published tr). publishable loads raw data"
    and "asked (worker_trace tr) = []"
    and "b_main (pb_worker s) = M_Flag" and "b_worker (pb_worker s) \<in> {W_Wait, W_Woken}"
    and "settles query (tree_run db_delete db_upsert) (notify_exit (pb_worker s)) w"
    and "rows_of (db_lookup (b_state w)) ms" and "EVERYTHING_CARD \<notin> set (topic_nodes f)"
  shows "\<exists>before after. failures tr = [] \<and> b_worker w = W_End \<and> b_tasks w = []
    \<and> tm_filter (topic_of f) (pb_tree s) = Inr before \<and> tm_filter (topic_of f) (preload ms) = Inr after
    \<and> (\<forall>t b. topic_match (topic_nodes f) (topic_nodes t) \<and> steady (handed tr) (topic_nodes t)
          \<and> apart (topic_nodes t) (replicate n []) tr
          \<and> (\<forall>pc\<in>set (pb_threads s). topic_nodes t \<notin> fst ` set (rest_rows pc)) \<and> b \<noteq> [] \<longrightarrow>
         (obj_at after (captures (topic_nodes f) (topic_nodes t)) = Some (PyBytes b) \<longleftrightarrow>
          obj_at before (captures (topic_nodes f) (topic_nodes t)) = Some (PyBytes b)))"
proof -
  have start: "wf_tree (preload ms0)" "coherent (preload ms0) (db_lookup db0)" using preload_coherent [OF assms(2,3)] by simp_all
  have good: "good_rows (handed tr)" "failures tr = []" "wf_tree (pb_tree s)"
    using run_good [OF assms(4) start(1) preload_named assms(5)] by (simp_all add: pub_good_def)
  note clean = good_clean_rows [OF good(1)] and worker = run_threads(3,4) [OF assms(4)]
  note stop = exit_waiting [OF worker(1) assms(6-9)]
  have hand: "in_hand (b_worker (pb_worker s)) = []" using assms(8) by auto
  have full: "\<forall>t\<in>set (map fst ms). [] \<notin> set (topic_nodes t)"
    using topics_stay_full [OF assms(1-3) worker(1) _ hand, of ms] good(1) worker(2) stop(3) assms(10)
    by (simp add: topics_full_def)
  note new = preload_rows [OF assms(10) full]
  have "leaf_bytes (leaf_at (pb_tree s) (topic_nodes t)) = leaf_bytes (leaf_at (preload ms) (topic_nodes t))"
    if "steady (handed tr) (topic_nodes t)" "apart (topic_nodes t) (replicate n []) tr"
      "\<forall>pc\<in>set (pb_threads s). topic_nodes t \<notin> fst ` set (rest_rows pc)" for t
    using tree_agrees [OF assms(1) start assms(4) clean that(2,3)] new(2)
      run_written(1) [OF assms(1) worker(1) _ _ hand, of t] worker(2) clean that(1) stop(3) by simp
  with same_answers [OF good(3) new(1) assms(11)] stop(1,2) good(2) show ?thesis by blast
qed

text \<open>
  A key of a JSON tree may hold a separator. The row of such a text is stored under one node in
  memory and comes back under several.
\<close>

theorem slash_key_moves:
  "create_list [([''x'', ''a/b''], Some b, q)] = [(''x/a/b'', b, q)]
   \<and> leaf_at (tree_store [''x'', ''a/b''] (PyBytes b) (PyRdd [])) [''x'', ''a/b''] = Some (PyBytes b)
   \<and> leaf_at (preload [(''x/a/b'', Some b)]) [''x'', ''a/b''] = None
   \<and> leaf_at (preload [(''x/a/b'', Some b)]) [''x'', ''a'', ''b''] = Some (PyBytes b)"
proof -
  have nodes: "preload_nodes ''x/a/b'' = [''x'', ''a'', ''b'']" by (simp add: preload_nodes_def const_defs)
  have "rdd_path [''x'', ''a/b'']" by (simp add: rdd_path_def const_defs)
  then have "leaf_at (tree_store [''x'', ''a/b''] (PyBytes b) (PyRdd [])) [''x'', ''a/b''] = Some (PyBytes b)"
    using retained.lookup_store [of "PyRdd []" "[''x'', ''a/b'']" "PyBytes b" "[''x'', ''a/b'']"] by simp
  then show ?thesis
    by (simp add: create_list_def const_defs preload_def nodes preload_store.simps(2) rdd_getitem_def rdd_missing_def Let_def)
qed

lemma demo_nodes:
  "topic_nodes ''a/b'' = [''a'', ''b'']" "topic_nodes ''a/c'' = [''a'', ''c'']" "topic_nodes ''a/+'' = [''a'', ''+'']"
  by (simp_all add: topic_nodes_def const_defs)

text \<open>Two threads that publish and a worker that has been woken when the broker stops.\<close>

lemma demo_run:
  assumes "wf_tree tree"
  shows "\<exists>s :: map_db publishers.
    prun no_json base_query (tree_run map_delete seq_upsert) (new_publishers 2 tree db0)
      [Worker Start, Worker Internal, Worker Internal, Publish 0 ''a/c'' (Some [3]) 1, Publish 1 ''a/b'' (Some [4]) 0,
       Handed 0 [([''a'', ''c''], Some [3], 1)], Handed 1 [([''a'', ''b''], Some [4], 0)],
       Stored 1 ([''a'', ''b''], Some [4], 0), Stored 0 ([''a'', ''c''], Some [3], 1), Worker Stop] s
    \<and> pb_threads s = [P_Store [], P_Store []]
    \<and> pb_worker s = \<lparr>b_tasks = [([''a'', ''c''], Some [3], 1), ([''a'', ''b''], Some [4], 0)], b_running = False,
         b_slot = None, b_worker = W_Woken, b_state = db0, b_asker = None, b_main = M_Flag\<rparr>"
proof -
  let ?ms = "[PWorker MStart, PWorker MWorker, PWorker MWorker, PPublish 0 ''a/c'' (Some [3]) 1, PPublish 1 ''a/b'' (Some [4]) 0,
    PThread 0, PThread 1, PThread 1, PThread 0, PWorker MStop]"
  let ?rb = "([''a'', ''b''], Some [4], 0) :: row" and ?rc = "([''a'', ''c''], Some [3], 1) :: row"
  have p: "rdd_path (fst ?rb)" "rdd_path (fst ?rc)" by (simp_all add: rdd_path_def const_defs)
  obtain t1 where t1: "retain_row ?rb tree = (Inr (), t1)" "wf_tree t1"
    using retain_row_eq [OF assms p(1)] retained.invar_store [OF assms p(1)] by fastforce
  obtain t2 where t2: "retain_row ?rc t1 = (Inr (), t2)" using retain_row_eq [OF t1(2) p(2)] by fastforce
  have rows: "bindR (from_raw_data ''a/c'' (Some [3]) 1 True) (\<lambda>m. message_rows no_json m tree) = Inr [?rc]"
    "bindR (from_raw_data ''a/b'' (Some [4]) 0 True) (\<lambda>m. message_rows no_json m tree) = Inr [?rb]"
    using static_rows [OF assms, of "''a/c''"] static_rows [OF assms, of "''a/b''"]
    by (simp_all add: demo_nodes is_node_static_def const_defs)
  show ?thesis
    by (rule exI, rule conjI, rule do_pubs_prun [of _ _ _ ?ms])
      (simp add: do_pubs_simps numeral_2_eq_2 rows t1 t2 clear_running_def, simp)
qed

lemma demo_answers:
  assumes "wf_tree tree" and "tm_filter (topic_of ''a/+'') tree = Inr r"
    and "leaf_bytes (leaf_at tree (topic_nodes ''a/c'')) = Some [3]" and "leaf_bytes (leaf_at tree (topic_nodes ''a/b'')) = Some [4]"
  shows "obj_at r [''c''] = Some (PyBytes [3])" and "obj_at r [''b''] = Some (PyBytes [4])"
proof -
  have leaf: "leaf_at tree (topic_nodes ''a/c'') = Some (PyBytes [3])" "leaf_at tree (topic_nodes ''a/b'') = Some (PyBytes [4])"
    using assms(3,4) by (cases "leaf_at tree (topic_nodes ''a/c'')" rule: leaf_bytes.cases;
        cases "leaf_at tree (topic_nodes ''a/b'')" rule: leaf_bytes.cases; simp)+
  have ev: "EVERYTHING_CARD \<notin> set (topic_nodes ''a/+'')" by (simp add: demo_nodes const_defs)
  have "obj_at r (captures (topic_nodes ''a/+'') p) = Some (PyBytes b) \<longleftrightarrow> leaf_at tree p = Some (PyBytes b)"
    if "topic_match (topic_nodes ''a/+'') p" "LEAF_KEY \<notin> set p" "b \<noteq> []" for p b
    using filter_answers [OF assms(1) ev] assms(2) that by auto
  from this [of "topic_nodes ''a/c''" "[3]"] this [of "topic_nodes ''a/b''" "[4]"] leaf
  show "obj_at r [''c''] = Some (PyBytes [3])" "obj_at r [''b''] = Some (PyBytes [4])"
    by (simp_all add: demo_nodes const_defs)
qed

lemma restart_keeps_publications_witness:
  "\<exists>tr (s :: map_db publishers) w after. prun no_json base_query (tree_run map_delete seq_upsert)
        (new_publishers 2 (preload [(''a/b'', Some [1])]) [''a/b'' \<mapsto> ([1], 0)]) tr s
    \<and> settles base_query (tree_run map_delete seq_upsert) (notify_exit (pb_worker s)) w
    \<and> tm_filter (topic_of ''a/+'') (preload [(''a/c'', Some [3]), (''a/b'', Some [4])]) = Inr after
    \<and> obj_at after [''b''] = Some (PyBytes [4]) \<and> obj_at after [''c''] = Some (PyBytes [3])"
proof -
  let ?rb = "([''a'', ''b''], Some [4], 0) :: row" and ?rc = "([''a'', ''c''], Some [3], 1) :: row"
  let ?run = "tree_run map_delete seq_upsert" and ?db = "[''a/b'' \<mapsto> ([1], 0)] :: map_db"
  let ?old = "[(''a/b'', Some [1])] :: (string \<times> bytes option) list"
  let ?ms = "[(''a/c'', Some [3]), (''a/b'', Some [4])] :: (string \<times> bytes option) list"
  let ?tr = "[Worker Start, Worker Internal, Worker Internal, Publish 0 ''a/c'' (Some [3]) 1, Publish 1 ''a/b'' (Some [4]) 0,
    Handed 0 [?rc], Handed 1 [?rb], Stored 1 ?rb, Stored 0 ?rc, Worker Stop]"
  have start: "wf_tree (preload ?old)" using preload_aux(1) [of ?old] by (simp add: demo_nodes)
  from demo_run [OF start] obtain s :: "map_db publishers" where
    run: "prun no_json base_query ?run (new_publishers 2 (preload ?old) ?db) ?tr s"
    and s: "pb_threads s = [P_Store [], P_Store []]"
      "pb_worker s = \<lparr>b_tasks = [?rc, ?rb], b_running = False, b_slot = None, b_worker = W_Woken, b_state = ?db,
        b_asker = None, b_main = M_Flag\<rparr>" by blast
  have w: "b_main (pb_worker s) = M_Flag" "b_worker (pb_worker s) \<in> {W_Wait, W_Woken}" by (simp_all add: s(2))
  let ?t = "(pb_worker s)\<lparr>b_main := M_Join\<rparr>"
  have "notify_exit (pb_worker s) = ?t\<lparr>b_worker := W_Woken\<rparr>" by (simp add: s(2) notify_exit_def notify_worker_def)
  then obtain w where settled: "settles base_query ?run (notify_exit (pb_worker s)) w"
    using settles_Woken [of ?t base_query map_delete seq_upsert] by (simp add: s(2))
  have q: "asked (worker_trace ?tr) = []" by simp
  have "create_list [?rc, ?rb] = [(''a/c'', [3], 1), (''a/b'', [4], 0)]" "delete_list [?rc, ?rb] = []"
    by (simp_all add: create_list_def delete_list_def const_defs)
  then have state: "b_state w = ?db(''a/c'' \<mapsto> ([3], 1), ''a/b'' \<mapsto> ([4], 0))"
    using exit_waiting(3) [OF run_threads(3) [OF run] q w settled] by (simp add: s(2) run_tasks_def seq_upsert_def fun_upd_twist)
  have rows: "rows_of ?db ?old" "topics_full ?old" "rows_of (b_state w) ?ms"
    by (simp_all add: rows_of_def topics_full_def demo_nodes state)
  have ok: "\<forall>(raw, data)\<in>set (published ?tr). publishable no_json raw data"
    by (simp add: publishable_def demo_nodes good_path_def good_node_def clean_node_def const_defs)
  have ev: "EVERYTHING_CARD \<notin> set (topic_nodes ''a/+'')" by (simp add: demo_nodes const_defs)
  have m: "topic_match (topic_nodes ''a/+'') (topic_nodes ''a/c'')" "topic_match (topic_nodes ''a/+'') (topic_nodes ''a/b'')"
    "steady (handed ?tr) (topic_nodes ''a/c'')" "steady (handed ?tr) (topic_nodes ''a/b'')"
    "captures (topic_nodes ''a/+'') (topic_nodes ''a/c'') = [''c'']" "captures (topic_nodes ''a/+'') (topic_nodes ''a/b'') = [''b'']"
    "apart (topic_nodes ''a/c'') (replicate 2 []) ?tr" "apart (topic_nodes ''a/b'') (replicate 2 []) ?tr"
    "\<forall>pc\<in>set (pb_threads s). p \<notin> fst ` set (rest_rows pc)" for p
    by (simp_all add: demo_nodes const_defs steady_def numeral_2_eq_2 s(1))
  from restart_keeps_publications [where db_lookup = "\<lambda>db. db", OF map_seq_laws rows(1,2) run ok q w settled rows(3) ev]
  obtain before after where r: "tm_filter (topic_of ''a/+'') (pb_tree s) = Inr before"
      "tm_filter (topic_of ''a/+'') (preload ?ms) = Inr after"
    and same: "\<forall>t b. topic_match (topic_nodes ''a/+'') (topic_nodes t) \<and> steady (handed ?tr) (topic_nodes t)
      \<and> apart (topic_nodes t) (replicate 2 []) ?tr
      \<and> (\<forall>pc\<in>set (pb_threads s). topic_nodes t \<notin> fst ` set (rest_rows pc)) \<and> b \<noteq> [] \<longrightarrow>
      (obj_at after (captures (topic_nodes ''a/+'') (topic_nodes t)) = Some (PyBytes b) \<longleftrightarrow>
       obj_at before (captures (topic_nodes ''a/+'') (topic_nodes t)) = Some (PyBytes b))"
    by (elim exE conjE) (rule that; assumption)
  have clean: "clean_rows (handed ?tr)" by (simp add: clean_rows_def clean_node_def const_defs)
  note tree = tree_agrees [where db_lookup = "\<lambda>db. db", OF map_seq_laws start _ run clean]
  have co: "coherent (preload ?old) ?db" using preload_coherent [OF rows(1,2)] by simp
  have "leaf_bytes (leaf_at (pb_tree s) (topic_nodes ''a/c'')) = Some [3]" "leaf_bytes (leaf_at (pb_tree s) (topic_nodes ''a/b'')) = Some [4]"
    using tree [OF co m(7) m(9)] tree [OF co m(8) m(9)] by (simp_all add: written_def flushed_def demo_nodes)
  note answers = demo_answers [OF run_tree(1) [OF run start clean_rows_ok [OF clean]] r(1) this]
  from answers same [THEN spec, THEN spec, THEN mp, OF conjI [OF m(1) conjI [OF m(3) conjI [OF m(7) conjI [OF m(9)]]]], of "[3]"]
    same [THEN spec, THEN spec, THEN mp, OF conjI [OF m(2) conjI [OF m(4) conjI [OF m(8) conjI [OF m(9)]]]], of "[4]"]
  have "obj_at after [''c''] = Some (PyBytes [3])" "obj_at after [''b''] = Some (PyBytes [4])" by (simp_all only: m(5,6)) simp_all
  with r run settled show ?thesis by blast
qed

end
