(* ===== verification/Sending.thy ===== *)
theory Sending
  imports Websocket Packets
begin

text \<open>
  servers/socket.py and servers/websocket/handler.py: several threads write to one connection.
  \<open>outgoing_lock\<close> is held while a packet is sent, in one call of \<open>send\<close> over TCP and in one frame
  after the other over a WebSocket, but not for the PONG and CLOSE frames of the read thread.
\<close>

section \<open>One round of the loop of \<open>send_bytes\<close>\<close>

text \<open>The opcode, the piece and the rest that the loop is about to send; \<open>None\<close> when it is done.\<close>

type_synonym sending = "nat \<times> bytes \<times> bytes"

definition first_piece :: "bytes \<Rightarrow> sending" where
  "first_piece payload = (OP_BYTES, take OUT_SIZE payload, drop OUT_SIZE payload)"

fun send_piece :: "sending \<Rightarrow> ws \<Rightarrow> (py_error + sending option) \<times> ws" where
  "send_piece (opcode, data, buffer) w =
     (let n = take OUT_SIZE buffer; fin = (n = [])
      in case ws_send \<lparr>fr_opcode = opcode, fr_fin = fin, fr_masked = False, fr_payload = Some data\<rparr> w of
           (Inl e, w1) \<Rightarrow> (Inl e, w1)
         | (Inr _, w1) \<Rightarrow>
             (Inr (if fin then None else Some (OP_CONTINUATION, n, drop OUT_SIZE buffer)), w1))"

declare send_piece.simps [simp del]

lemma send_loop_pieces:
  "send_loop opcode data buffer w =
     (case send_piece (opcode, data, buffer) w of
        (Inl e, w1) \<Rightarrow> (Inl e, w1)
      | (Inr None, w1) \<Rightarrow> (Inr (), w1)
      | (Inr (Some (opcode', data', buffer')), w1) \<Rightarrow> send_loop opcode' data' buffer' w1)"
  by (subst send_loop.simps) (simp add: send_piece.simps Let_def split: prod.split sum.split)

section \<open>The threads\<close>

text \<open>
  A connection with its lock: who holds it is in the middle of a packet. \<open>Acquire\<close> is a thread
  that enters \<open>write\<close>, \<open>Piece\<close> and \<open>Broken\<close> a round of its loop, with the lock released at the
  end and by an exception; \<open>Control\<close> is the read thread and whoever closes the connection.
\<close>

record conn =
  cn_ws :: ws
  cn_lock :: "sending option"

datatype wire_event = Acquire bytes | Piece | Broken py_error | Control nat bytes | Shut

definition control_frame :: "nat \<Rightarrow> bytes \<Rightarrow> frame" where
  "control_frame opcode payload = \<lparr>fr_opcode = opcode, fr_fin = True, fr_masked = False, fr_payload = Some payload\<rparr>"

inductive wire_step :: "conn \<Rightarrow> wire_event \<Rightarrow> conn \<Rightarrow> bool" where
  acquire: "cn_lock c = None \<Longrightarrow> wire_step c (Acquire payload) (c\<lparr>cn_lock := Some (first_piece payload)\<rparr>)"
| piece: "cn_lock c = Some st \<Longrightarrow> send_piece st (cn_ws c) = (Inr st', w) \<Longrightarrow>
    wire_step c Piece (c\<lparr>cn_ws := w, cn_lock := st'\<rparr>)"
| broken: "cn_lock c = Some st \<Longrightarrow> send_piece st (cn_ws c) = (Inl e, w) \<Longrightarrow>
    wire_step c (Broken e) (c\<lparr>cn_ws := w, cn_lock := None\<rparr>)"
| control: "opcode = OP_PONG \<or> opcode = OP_CLOSE \<Longrightarrow>
    wire_step c (Control opcode payload) (c\<lparr>cn_ws := snd (ws_send (control_frame opcode payload) (cn_ws c))\<rparr>)"
| shut: "wire_step c Shut (c\<lparr>cn_ws := (cn_ws c)\<lparr>ws_alive := False, ws_open := False\<rparr>\<rparr>)"

inductive_cases wire_stepE: "wire_step c l c'"

inductive wire_run :: "conn \<Rightarrow> wire_event list \<Rightarrow> conn \<Rightarrow> bool" for c where
  wire_Nil: "wire_run c [] c"
| wire_snoc: "wire_run c tr c' \<Longrightarrow> wire_step c' l c'' \<Longrightarrow> wire_run c (tr @ [l]) c''"

definition new_conn :: "ws \<Rightarrow> conn" where
  "new_conn w = \<lparr>cn_ws = w, cn_lock = None\<rparr>"

text \<open>The packets in the order in which their threads got the lock.\<close>

fun acquired :: "wire_event list \<Rightarrow> bytes list" where
  "acquired [] = []"
| "acquired (Acquire payload # tr) = payload # acquired tr"
| "acquired (_ # tr) = acquired tr"

lemma acquired_append [simp]: "acquired (tr @ tr') = acquired tr @ acquired tr'"
  by (induction tr rule: acquired.induct) simp_all

text \<open>Nobody answers a PING as long as those of theorem \<open>long_frame_misread\<close>.\<close>

fun small_control :: "wire_event \<Rightarrow> bool" where
  "small_control (Control opcode payload) \<longleftrightarrow> length payload < 65535"
| "small_control _ \<longleftrightarrow> True"

section \<open>The client's side\<close>

text \<open>
  How a client puts messages together (RFC 6455): a binary frame starts a message when none is
  being read, continuations carry it on, the one with the FIN bit ends it, and control frames
  may come in between. \<open>None\<close> when the frames break these rules; otherwise the messages and the
  beginning of one that has not ended.
\<close>

type_synonym server_frame = "nat \<times> bool \<times> bytes"

fun frame_on_wire :: "server_frame \<Rightarrow> bytes" where
  "frame_on_wire (opcode, fin, payload) = wire_frame opcode fin None payload"

fun take_frame :: "bytes list \<times> bytes option \<Rightarrow> server_frame \<Rightarrow> (bytes list \<times> bytes option) option" where
  "take_frame (ms, part) (opcode, fin, p) =
     (if opcode = OP_BYTES \<and> part = None then Some (if fin then (ms @ [p], None) else (ms, Some p))
      else if opcode = OP_CONTINUATION then
        (case part of None \<Rightarrow> None
         | Some q \<Rightarrow> Some (if fin then (ms @ [q @ p], None) else (ms, Some (q @ p))))
      else if opcode \<in> {OP_CLOSE, OP_PING, OP_PONG} \<and> fin then Some (ms, part)
      else None)"

fun take_frames :: "bytes list \<times> bytes option \<Rightarrow> server_frame list \<Rightarrow> (bytes list \<times> bytes option) option" where
  "take_frames st [] = Some st"
| "take_frames st (f # fs) = Option.bind (take_frame st f) (\<lambda>st'. take_frames st' fs)"

lemma take_frames_snoc: "take_frames st (fs @ [f]) = Option.bind (take_frames st fs) (\<lambda>st'. take_frame st' f)"
proof (induction fs arbitrary: st)
  case (Cons g fs)
  then show ?case by (cases "take_frame st g") simp_all
qed simp

section \<open>What is on the wire\<close>

text \<open>
  What a client that reads the frames has: the packets that are finished, and the beginning of
  the one whose thread holds the lock, or held it when the connection was closed.
\<close>

fun under_way :: "sending option \<Rightarrow> bytes option \<Rightarrow> bytes list \<Rightarrow> bool" where
  "under_way None part ms \<longleftrightarrow> part = None \<and> ms = []"
| "under_way (Some (opcode, data, buffer)) part ms \<longleftrightarrow> length data \<le> OUT_SIZE
     \<and> (case part of None \<Rightarrow> opcode = OP_BYTES \<and> ms = [data @ buffer]
         | Some q \<Rightarrow> opcode = OP_CONTINUATION \<and> ms = [q @ data @ buffer])"

definition cut_off :: "bytes option \<Rightarrow> bytes list \<Rightarrow> bool" where
  "cut_off part ms \<longleftrightarrow> (\<forall>q. part = Some q \<longrightarrow> (\<exists>z ms'. ms = (q @ z) # ms'))"

definition on_wire :: "bytes list \<Rightarrow> wire_event list \<Rightarrow> conn \<Rightarrow> server_frame list \<Rightarrow> bytes list \<Rightarrow> bytes option \<Rightarrow> bool" where
  "on_wire before tr c fs ms part \<longleftrightarrow> ws_sent (cn_ws c) = before @ map frame_on_wire fs
     \<and> take_frames ([], None) fs = Some (ms, part)
     \<and> (\<exists>rest. acquired tr = ms @ rest \<and> (if ws_open (cn_ws c) then under_way (cn_lock c) part rest else cut_off part rest))"

lemma under_way_cut: "under_way lock part ms \<Longrightarrow> cut_off part ms"
  by (cases lock) (auto simp: cut_off_def split: option.splits)

lemma ws_send_open:
  assumes "ws_open w" and "fr_opcode f < 16" and "fr_payload f = Some p" and "length p < 65535"
  shows "ws_send f w = (Inr (), w\<lparr>ws_sent := ws_sent w @ [wire_frame (fr_opcode f) (fr_fin f) None p]\<rparr>)"
  using assms frame_bytes_wire [OF assms(2-4)] by (simp add: ws_send_def)

lemma ws_send_closed: "\<not> ws_open w \<Longrightarrow> \<exists>e. ws_send f w = (Inl e, w)"
  by (simp add: ws_send_def split: sum.split)

lemma send_piece_open:
  assumes "ws_open w" and "opcode < 16" and "length data \<le> OUT_SIZE"
  shows "send_piece (opcode, data, buffer) w =
    (Inr (if buffer = [] then None else Some (OP_CONTINUATION, take OUT_SIZE buffer, drop OUT_SIZE buffer)),
     w\<lparr>ws_sent := ws_sent w @ [wire_frame opcode (buffer = []) None data]\<rparr>)"
proof -
  have "take OUT_SIZE buffer = [] \<longleftrightarrow> buffer = []" by (simp add: OUT_SIZE_def)
  then show ?thesis using assms by (simp add: send_piece.simps Let_def ws_send_open OUT_SIZE_def)
qed

lemma send_piece_closed:
  assumes "\<not> ws_open w"
  shows "snd (send_piece st w) = w"
proof (cases st)
  case (fields opcode data buffer)
  obtain e where "ws_send \<lparr>fr_opcode = opcode, fr_fin = (take OUT_SIZE buffer = []), fr_masked = False,
      fr_payload = Some data\<rparr> w = (Inl e, w)" using ws_send_closed [OF assms] by blast
  then show ?thesis by (simp add: fields send_piece.simps Let_def)
qed

lemma on_wire_piece:
  assumes "on_wire before tr c fs ms part" and "ws_open (cn_ws c)" and "cn_lock c = Some st"
  shows "\<exists>st' w fs' ms' part'. send_piece st (cn_ws c) = (Inr st', w)
    \<and> on_wire before (tr @ [Piece]) (c\<lparr>cn_ws := w, cn_lock := st'\<rparr>) fs' ms' part'"
proof -
  obtain opcode data buffer where st: "st = (opcode, data, buffer)" by (cases st)
  let ?w = "(cn_ws c)\<lparr>ws_sent := ws_sent (cn_ws c) @ [wire_frame opcode (buffer = []) None data]\<rparr>"
  let ?st' = "if buffer = [] then None else Some (OP_CONTINUATION, take OUT_SIZE buffer, drop OUT_SIZE buffer)"
  obtain rest where a: "ws_sent (cn_ws c) = before @ map frame_on_wire fs" "take_frames ([], None) fs = Some (ms, part)"
    "acquired tr = ms @ rest" "length data \<le> OUT_SIZE"
    and part: "part = None \<and> opcode = OP_BYTES \<and> rest = [data @ buffer] \<or>
      (\<exists>q. part = Some q \<and> opcode = OP_CONTINUATION \<and> rest = [q @ data @ buffer])"
    using assms by (auto simp: on_wire_def st split: option.splits)
  have op: "opcode < 16" using part by auto
  have "on_wire before (tr @ [Piece]) (c\<lparr>cn_ws := ?w, cn_lock := ?st'\<rparr>) (fs @ [(opcode, buffer = [], data)])
      (if buffer = [] then ms @ rest else ms)
      (if buffer = [] then None else Some (case part of None \<Rightarrow> data | Some q \<Rightarrow> q @ data))"
    using a part assms(2) by (auto simp: on_wire_def take_frames_snoc)
  with send_piece_open [OF assms(2) op a(4), of buffer] show ?thesis unfolding st by blast
qed

lemma on_wire_step:
  assumes "on_wire before tr c fs ms part" and "wire_step c l c'" and "small_control l"
  shows "\<exists>fs' ms' part'. on_wire before (tr @ [l]) c' fs' ms' part'"
  using assms(2)
proof (cases rule: wire_step.cases)
  case (acquire payload)
  with assms(1) show ?thesis
    by (intro exI [of _ fs] exI [of _ ms] exI [of _ part], cases "ws_open (cn_ws c)")
       (auto simp: on_wire_def first_piece_def cut_off_def)
next
  case (piece st st' w)
  show ?thesis
  proof (cases "ws_open (cn_ws c)")
    case True
    with on_wire_piece [OF assms(1) True] piece show ?thesis by fastforce
  next
    case False
    with send_piece_closed [OF False, of st] assms(1) piece show ?thesis
      by (intro exI [of _ fs] exI [of _ ms] exI [of _ part]) (auto simp: on_wire_def)
  qed
next
  case (broken st e w)
  then have "\<not> ws_open (cn_ws c)" using on_wire_piece [OF assms(1)] by fastforce
  with send_piece_closed [of "cn_ws c" st] assms(1) broken show ?thesis
    by (intro exI [of _ fs] exI [of _ ms] exI [of _ part]) (auto simp: on_wire_def)
next
  case (control opcode payload)
  show ?thesis
  proof (cases "ws_open (cn_ws c)")
    case True
    then have "ws_send (control_frame opcode payload) (cn_ws c) =
        (Inr (), (cn_ws c)\<lparr>ws_sent := ws_sent (cn_ws c) @ [wire_frame opcode True None payload]\<rparr>)"
      using control assms(3) by (subst ws_send_open [where p = payload]) (auto simp: control_frame_def)
    with control assms(1) True show ?thesis
      by (intro exI [of _ "fs @ [(opcode, True, payload)]"] exI [of _ ms] exI [of _ part])
         (auto simp: on_wire_def take_frames_snoc)
  next
    case False
    then obtain e where "ws_send (control_frame opcode payload) (cn_ws c) = (Inl e, cn_ws c)"
      using ws_send_closed by blast
    with assms(1) control False show ?thesis
      by (intro exI [of _ fs] exI [of _ ms] exI [of _ part]) (simp add: on_wire_def)
  qed
next
  case shut
  with assms(1) under_way_cut show ?thesis
    by (intro exI [of _ fs] exI [of _ ms] exI [of _ part]) (auto simp: on_wire_def split: if_splits)
qed

lemma on_wire_run:
  "wire_run (new_conn w) tr c \<Longrightarrow> list_all small_control tr \<Longrightarrow> \<exists>fs ms part. on_wire (ws_sent w) tr c fs ms part"
proof (induction rule: wire_run.induct)
  case wire_Nil
  show ?case by (intro exI [of _ "[]"] exI [of _ None]) (simp add: on_wire_def new_conn_def cut_off_def)
next
  case (wire_snoc tr c' l c'')
  then show ?case using on_wire_step by fastforce
qed

text \<open>
  C14: Packets of several threads are not mixed up. However the threads that write over a WebSocket
  interleave with each other, with the PONG and CLOSE frames of the read thread and with the end
  of the connection, a client that puts the frames together as the protocol says finds no frame
  out of place, and gets whole packets in the order in which the threads got the lock, with at
  most the beginning of the next one at the end. While the connection is open and the lock is
  free, it has got all of them.
\<close>

theorem packets_not_mixed:
  assumes "wire_run (new_conn w) tr c" and "list_all small_control tr"
  shows "\<exists>fs ms part rest. ws_sent (cn_ws c) = ws_sent w @ map frame_on_wire fs
    \<and> take_frames ([], None) fs = Some (ms, part) \<and> acquired tr = ms @ rest
    \<and> (\<forall>q. part = Some q \<longrightarrow> (\<exists>z ms'. rest = (q @ z) # ms'))
    \<and> (ws_open (cn_ws c) \<and> cn_lock c = None \<longrightarrow> part = None \<and> rest = [])"
proof -
  obtain fs ms part rest where a: "ws_sent (cn_ws c) = ws_sent w @ map frame_on_wire fs"
    "take_frames ([], None) fs = Some (ms, part)" "acquired tr = ms @ rest"
    "if ws_open (cn_ws c) then under_way (cn_lock c) part rest else cut_off part rest"
    using on_wire_run [OF assms] unfolding on_wire_def by blast
  have "cut_off part rest" using a(4) under_way_cut by (auto split: if_splits)
  then have "\<forall>q. part = Some q \<longrightarrow> (\<exists>z ms'. rest = (q @ z) # ms')" by (simp add: cut_off_def)
  moreover have "ws_open (cn_ws c) \<and> cn_lock c = None \<longrightarrow> part = None \<and> rest = []" using a(4) by auto
  ultimately show ?thesis using a(1-3) by blast
qed

text \<open>Two threads and a PING in the middle of the longer packet.\<close>

lemma packets_not_mixed_witness:
  "\<exists>c fs. wire_run (new_conn (open_ws [])) [Acquire (replicate 3000 7), Piece, Control OP_PONG [1], Piece, Acquire [8], Piece] c
    \<and> ws_sent (cn_ws c) = map frame_on_wire fs \<and> length fs = 4
    \<and> take_frames ([], None) fs = Some ([replicate 3000 7, [8]], None)"
proof -
  let ?big = "replicate 3000 7 :: bytes"
  let ?tr = "[Acquire ?big, Piece, Control OP_PONG [1], Piece, Acquire [8], Piece]"
  let ?f = "[(2, False, replicate 2040 7), (10, True, [1]), (0, True, replicate 960 7), (2, True, [8])] :: server_frame list"
  let ?w = "\<lambda>n. open_ws []\<lparr>ws_sent := map frame_on_wire (take n ?f)\<rparr>"
  let ?l = "Some (0, replicate 960 7, []) :: sending option"
  note nil = wire_Nil [of "new_conn (open_ws [])"]
  have 1: "wire_step (new_conn (open_ws [])) (Acquire ?big) \<lparr>cn_ws = ?w 0, cn_lock = Some (first_piece ?big)\<rparr>"
    using acquire [of "new_conn (open_ws [])" ?big] by (simp add: new_conn_def open_ws_def)
  have 2: "wire_step \<lparr>cn_ws = ?w 0, cn_lock = Some (first_piece ?big)\<rparr> Piece \<lparr>cn_ws = ?w 1, cn_lock = ?l\<rparr>"
    using piece [of "\<lparr>cn_ws = ?w 0, cn_lock = Some (first_piece ?big)\<rparr>" "first_piece ?big" ?l "?w 1"]
      send_piece_open [of "?w 0" 2 "replicate 2040 7" "replicate 960 7"]
    by (simp add: open_ws_def first_piece_def OUT_SIZE_def)
  have 3: "wire_step \<lparr>cn_ws = ?w 1, cn_lock = ?l\<rparr> (Control OP_PONG [1]) \<lparr>cn_ws = ?w 2, cn_lock = ?l\<rparr>"
    using control [of OP_PONG "\<lparr>cn_ws = ?w 1, cn_lock = ?l\<rparr>" "[1]"]
      ws_send_open [of "?w 1" "control_frame OP_PONG [1]" "[1]"]
    by (simp add: open_ws_def control_frame_def)
  have 4: "wire_step \<lparr>cn_ws = ?w 2, cn_lock = ?l\<rparr> Piece \<lparr>cn_ws = ?w 3, cn_lock = None\<rparr>"
    using piece [of "\<lparr>cn_ws = ?w 2, cn_lock = ?l\<rparr>" "the ?l" None "?w 3"]
      send_piece_open [of "?w 2" 0 "replicate 960 7" "[]"]
    by (simp add: open_ws_def OUT_SIZE_def)
  have 5: "wire_step \<lparr>cn_ws = ?w 3, cn_lock = None\<rparr> (Acquire [8]) \<lparr>cn_ws = ?w 3, cn_lock = Some (2, [8], [])\<rparr>"
    using acquire [of "\<lparr>cn_ws = ?w 3, cn_lock = None\<rparr>" "[8]"] by (simp add: first_piece_def OUT_SIZE_def)
  have 6: "wire_step \<lparr>cn_ws = ?w 3, cn_lock = Some (2, [8], [])\<rparr> Piece \<lparr>cn_ws = ?w 4, cn_lock = None\<rparr>"
    using piece [of "\<lparr>cn_ws = ?w 3, cn_lock = Some (2, [8], [])\<rparr>" "(2, [8], [])" None "?w 4"]
      send_piece_open [of "?w 3" 2 "[8]" "[]"] by (simp add: open_ws_def OUT_SIZE_def)
  have run: "wire_run (new_conn (open_ws [])) ?tr \<lparr>cn_ws = ?w 4, cn_lock = None\<rparr>"
    using wire_snoc [OF wire_snoc [OF wire_snoc [OF wire_snoc [OF wire_snoc [OF wire_snoc [OF nil 1] 2] 3] 4] 5] 6] by simp
  let ?c = "\<lparr>cn_ws = ?w 4, cn_lock = None\<rparr>"
  have small: "list_all small_control ?tr" by simp
  have c: "ws_sent (cn_ws ?c) = map frame_on_wire ?f" "ws_open (cn_ws ?c)" "cn_lock ?c = None" "ws_sent (open_ws []) = []"
    by (simp_all add: open_ws_def)
  obtain fs ms part rest where r: "ws_sent (cn_ws ?c) = ws_sent (open_ws []) @ map frame_on_wire fs"
    "take_frames ([], None) fs = Some (ms, part)" "acquired ?tr = ms @ rest"
    "ws_open (cn_ws ?c) \<and> cn_lock ?c = None \<longrightarrow> part = None \<and> rest = []"
    using packets_not_mixed [OF run small] by blast
  from r(3,4) c have "part = None" "ms = [?big, [8]]" by auto
  with r(2) have "take_frames ([], None) fs = Some ([?big, [8]], None)" by simp
  moreover have "length fs = 4" using arg_cong [OF r(1), of length] c by simp
  ultimately show ?thesis using run r(1) c(4) by (intro exI [of _ ?c] exI [of _ fs]) simp
qed

text \<open>The thread that holds the lock gives it back, whether the connection lasts or not.\<close>

theorem lock_is_released:
  "\<exists>tr c'. wire_run c tr c' \<and> cn_lock c' = None \<and> acquired tr = []"
proof (induction "case cn_lock c of None \<Rightarrow> 0 | Some (opcode, data, buffer) \<Rightarrow> Suc (length buffer)" arbitrary: c rule: less_induct)
  case less
  show ?case
  proof (cases "cn_lock c")
    case None
    then show ?thesis by (intro exI [of _ "[]"] exI [of _ c]) (simp add: wire_Nil)
  next
    case (Some st)
    obtain opcode data buffer where st: "st = (opcode, data, buffer)" by (cases st)
    obtain r w where r: "send_piece st (cn_ws c) = (r, w)" by fastforce
    show ?thesis
    proof (cases r)
      case (Inl e)
      with r broken [OF Some] wire_snoc [OF wire_Nil] show ?thesis by fastforce
    next
      case (Inr st')
      let ?c = "c\<lparr>cn_ws := w, cn_lock := st'\<rparr>"
      have step: "wire_step c Piece ?c" using piece [OF Some] r Inr by simp
      have "(case st' of None \<Rightarrow> 0 | Some (opcode, data, buffer) \<Rightarrow> Suc (length buffer)) < Suc (length buffer)"
        using r Inr by (auto simp: st send_piece.simps Let_def OUT_SIZE_def split: sum.splits prod.splits if_splits)
      with less.hyps [of ?c] Some st obtain tr c' where "wire_run ?c tr c'" "cn_lock c' = None" "acquired tr = []" by auto
      moreover have "wire_run ?c tr c' \<Longrightarrow> wire_run c (Piece # tr) c'" 
      proof (induction rule: wire_run.induct)
        case wire_Nil
        show ?case using wire_snoc [OF wire_run.wire_Nil step] by simp
      next
        case (wire_snoc tr c1 l c2)
        then show ?case using wire_run.wire_snoc by fastforce
      qed
      ultimately show ?thesis by (intro exI [of _ "Piece # tr"] exI [of _ c']) simp
    qed
  qed
qed

section \<open>Over TCP\<close>

text \<open>
  \<open>sock.send\<close> answers how many bytes the system has taken, which can be less than all of them,
  on a socket with a timeout at least, and the answer is not looked at: \<open>accepted\<close> is that
  number.
\<close>

record tcp =
  tcp_open :: bool
  tcp_sent :: bytes

definition tcp_send_bytes :: "nat \<Rightarrow> bytes \<Rightarrow> tcp \<Rightarrow> (py_error + unit) \<times> tcp" where
  "tcp_send_bytes accepted data t =
     (if tcp_open t then (Inr (), t\<lparr>tcp_sent := tcp_sent t @ take accepted data\<rparr>) else (Inl OSError, t))"

definition tcp_write :: "nat \<Rightarrow> bytes \<Rightarrow> tcp \<Rightarrow> (py_error + unit) \<times> tcp" where
  "tcp_write accepted data t =
     (case tcp_send_bytes accepted data t of
        (Inl e, t1) \<Rightarrow> (Inl (if e \<in> {OSError, ConnectionError} then ConnectionError else e), t1)
      | (Inr r, t1) \<Rightarrow> (Inr r, t1))"

text \<open>Packets one after the other, in the order in which their threads get the lock.\<close>

fun tcp_writes :: "(nat \<times> bytes) list \<Rightarrow> tcp \<Rightarrow> (py_error + unit) \<times> tcp" where
  "tcp_writes [] t = (Inr (), t)"
| "tcp_writes ((accepted, data) # ws) t =
     (case tcp_write accepted data t of (Inl e, t1) \<Rightarrow> (Inl e, t1) | (Inr _, t1) \<Rightarrow> tcp_writes ws t1)"

definition taken :: "(nat \<times> bytes) list \<Rightarrow> bytes" where
  "taken ws = concat (map (\<lambda>(accepted, data). take accepted data) ws)"

lemma tcp_writes_open:
  "tcp_open t \<Longrightarrow> tcp_writes ws t = (Inr (), t\<lparr>tcp_sent := tcp_sent t @ taken ws\<rparr>)"
proof (induction ws arbitrary: t)
  case (Cons x ws)
  then show ?case by (cases x) (simp add: tcp_write_def tcp_send_bytes_def taken_def)
qed (simp add: taken_def)

lemma publish_data_last:
  assumes "payload_ok (packet_fields PublishPacket) fl [] (kws @ [(''data'', Value (VBytes d))])"
    and "wire_payload (packet_fields PublishPacket) fl [] (kws @ [(''data'', Value (VBytes d))]) = Inr payload"
    and "d' \<noteq> []"
  shows "\<exists>prefix. payload = prefix @ d
    \<and> payload_ok (packet_fields PublishPacket) fl [] (kws @ [(''data'', Value (VBytes d'))])
    \<and> wire_payload (packet_fields PublishPacket) fl [] (kws @ [(''data'', Value (VBytes d'))]) = Inr (prefix @ d')"
proof (cases kws)
  case Nil
  with assms show ?thesis by (auto simp: publish_packet_def enabled_default_def)
next
  case (Cons x ks)
  show ?thesis
  proof (cases ks)
    case Nil
    with assms Cons show ?thesis
      by (cases x) (auto simp: publish_packet_def enabled_default_def res_simps split: if_splits)
  next
    case (Cons y ls)
    with assms \<open>kws = x # ks\<close> show ?thesis
      by (cases x; cases y; cases ls) (auto simp: publish_packet_def enabled_default_def res_simps split: if_splits)
  qed
qed

text \<open>
  A packet that is sent in part: writing over an open connection never fails. When the last \<open>m\<close> bytes
  of a PUBLISH, all of them in its payload, are not taken, the client takes the first \<open>m\<close> bytes of what is
  sent after it for the end of that payload, and reads on in the middle of the packets after it.
\<close>

theorem short_send_swallows:
  assumes "payload_ok (packet_fields PublishPacket) (flags_from_int PublishPacket (int flags)) []
        (kws @ [(''data'', Value (VBytes d))])"
    and "flags < 16" and "wire_packet PublishPacket flags (kws @ [(''data'', Value (VBytes d))]) = Inr bs" and "length bs < 128 ^ 4"
    and "0 < m" and "m \<le> length d" and "m \<le> length later" and "tcp_open t" and "tcp_sent t = []"
  shows "\<exists>t' len. tcp_writes [(length bs - m, bs), (length later, later)] t = (Inr (), t')
    \<and> read_next_packet (tcp_sent t') =
        Inr (\<lparr>pk_class = PublishPacket, pk_flags = flags_from_int PublishPacket (int flags), pk_length = len,
           pk_kwargs = kws @ [(''data'', Value (VBytes (take (length d - m) d @ take m later)))]\<rparr>, drop m later)"
proof -
  let ?fl = "flags_from_int PublishPacket (int flags)" and ?d = "take (length d - m) d @ take m later"
  obtain payload where p: "wire_payload (packet_fields PublishPacket) ?fl [] (kws @ [(''data'', Value (VBytes d))]) = Inr payload"
    and bs: "bs = word_of_nat (type_code PublishPacket * 16 + flags) # length_bytes (length payload) @ payload"
    using assms(3) by (auto simp: wire_packet_def res_simps)
  have "?d \<noteq> []" using assms(5,7) by (cases later) auto
  then obtain prefix where q: "payload = prefix @ d"
    "payload_ok (packet_fields PublishPacket) ?fl [] (kws @ [(''data'', Value (VBytes ?d))])"
    "wire_payload (packet_fields PublishPacket) ?fl [] (kws @ [(''data'', Value (VBytes ?d))]) = Inr (prefix @ ?d)"
    using publish_data_last [OF assms(1) p] by blast
  have len: "length (prefix @ ?d) = length payload" using assms(6,7) by (simp add: q(1))
  have "length bs - m = Suc (length (length_bytes (length payload)) + length prefix + (length d - m))"
    using assms(6) by (simp add: bs q(1))
  then have "taken [(length bs - m, bs), (length later, later)] =
      word_of_nat (type_code PublishPacket * 16 + flags) # length_bytes (length (prefix @ ?d)) @ (prefix @ ?d) @ drop m later"
    unfolding len by (simp add: taken_def bs q(1))
  moreover have "length (prefix @ ?d) < 128 ^ 4" unfolding len using assms(4) by (simp add: bs)
  ultimately show ?thesis
    using read_wire_packet [OF q(2) assms(2) q(3), of "drop m later"] assms(8,9)
    by (simp add: tcp_writes_open del: packet_fields_simps tcp_writes.simps)
qed

lemma short_send_swallows_witness:
  "\<exists>t' len. tcp_writes [(5, [0x30, 5, 0, 1, 97, 104, 105]), (2, [0xD0, 0])] \<lparr>tcp_open = True, tcp_sent = []\<rparr> = (Inr (), t')
    \<and> read_next_packet (tcp_sent t') = Inr (\<lparr>pk_class = PublishPacket, pk_flags = flags_from_int PublishPacket (int 0),
        pk_length = len, pk_kwargs = [(''topic'', Value (VStr ''a'')), (''data'', Value (VBytes [0xD0, 0]))]\<rparr>, [])"
proof -
  let ?kws = "[(''topic'', Value (VStr ''a''))]"
  have ok: "payload_ok (packet_fields PublishPacket) (flags_from_int PublishPacket (int 0)) [] (?kws @ [(''data'', Value (VBytes [104, 105]))])"
    by (simp add: publish_packet_def enabled_default_def enable_id_def flags_from_int_def publish_flags_from_int_def
        qos_flag_read_def raw_bytes_def char_byte_def)
  have wire: "wire_packet PublishPacket 0 (?kws @ [(''data'', Value (VBytes [104, 105]))]) =
      Inr [0x30, 5, 0, 1, 97, 104, 105]"
    by (simp add: wire_packet_def publish_packet_def enabled_default_def enable_id_def flags_from_int_def
        publish_flags_from_int_def qos_flag_read_def pack_int_def py_encode_def raw_bytes_def char_byte_def length_bytes.simps)
  have n: "length [0x30, 5, 0, 1, 97, 104, 105 :: byte] - 2 = 5" "length [0xD0, 0 :: byte] = 2"
    "take (length [104, 105 :: byte] - 2) [104, 105 :: byte] @ take 2 [0xD0, 0] = [0xD0, 0 :: byte]"
    "drop 2 [0xD0, 0 :: byte] = []" by simp_all
  have "0 < (2 :: nat)" "2 \<le> length [104, 105 :: byte]" "2 \<le> length [0xD0, 0 :: byte]" "(0 :: nat) < 16"
    "length [0x30, 5, 0, 1, 97, 104, 105 :: byte] < 128 ^ 4" by simp_all
  from short_send_swallows [OF ok this(4) wire this(5) this(1-3), of "\<lparr>tcp_open = True, tcp_sent = []\<rparr>"]
  show ?thesis unfolding n append.simps by (simp only: tcp.simps simp_thms)
qed

end
