(* ===== verification/Frame_Layout.thy ===== *)
theory Frame_Layout
  imports Websocket
begin

text \<open>
  servers/websocket/constants.py: the layout of a frame as a table of fields, which describes the
  format and is read by nobody. It is the reference for what \<open>Frame.recv\<close> and \<open>Frame.bytes\<close> of
  frame.py write out by hand.
\<close>

record frame_field =
  fd_label :: string
  fd_low_byte :: "nat option"
  fd_high_byte :: "nat option"
  fd_bit_mask :: nat
  fd_byte_length :: "nat option"
  fd_offset :: nat

definition FIN :: frame_field where
  "FIN = \<lparr>fd_label = ''Fin'', fd_low_byte = Some 0, fd_high_byte = Some 0, fd_bit_mask = 128,
     fd_byte_length = Some 1, fd_offset = 7\<rparr>"

definition OPCODE :: frame_field where
  "OPCODE = \<lparr>fd_label = ''OpCode'', fd_low_byte = Some 0, fd_high_byte = Some 0, fd_bit_mask = 15,
     fd_byte_length = Some 1, fd_offset = 0\<rparr>"

definition MASK :: frame_field where
  "MASK = \<lparr>fd_label = ''Mask'', fd_low_byte = Some 1, fd_high_byte = Some 1, fd_bit_mask = 128,
     fd_byte_length = Some 4, fd_offset = 7\<rparr>"

definition PAYLOAD_LEN :: frame_field where
  "PAYLOAD_LEN = \<lparr>fd_label = ''Payload Length'', fd_low_byte = Some 1, fd_high_byte = Some 1, fd_bit_mask = 127,
     fd_byte_length = Some 1, fd_offset = 0\<rparr>"

definition PAYLOAD_LEN_EXT_126 :: frame_field where
  "PAYLOAD_LEN_EXT_126 = \<lparr>fd_label = ''Extended Payload Length (126)'', fd_low_byte = Some 2, fd_high_byte = Some 3,
     fd_bit_mask = 65535, fd_byte_length = Some 2, fd_offset = 0\<rparr>"

definition PAYLOAD_LEN_EXT_127 :: frame_field where
  "PAYLOAD_LEN_EXT_127 = \<lparr>fd_label = ''Extended Payload Length (127)'', fd_low_byte = Some 2, fd_high_byte = Some 9,
     fd_bit_mask = 9223372036854775807, fd_byte_length = Some 8, fd_offset = 0\<rparr>"

definition MASK_KEY :: frame_field where
  "MASK_KEY = \<lparr>fd_label = ''Masking Key'', fd_low_byte = None, fd_high_byte = None, fd_bit_mask = 4294967295,
     fd_byte_length = Some 4, fd_offset = 0\<rparr>"

definition PAYLOAD :: frame_field where
  "PAYLOAD = \<lparr>fd_label = ''Payload'', fd_low_byte = None, fd_high_byte = None, fd_bit_mask = 0,
     fd_byte_length = None, fd_offset = 0\<rparr>"

definition frame_format :: "frame_field list" where
  "frame_format = [FIN, OPCODE, MASK, PAYLOAD_LEN, PAYLOAD_LEN_EXT_126, PAYLOAD_LEN_EXT_127, MASK_KEY, PAYLOAD]"

lemmas frame_field_defs = FIN_def OPCODE_def MASK_def PAYLOAD_LEN_def PAYLOAD_LEN_EXT_126_def
  PAYLOAD_LEN_EXT_127_def MASK_KEY_def PAYLOAD_def

datatype FrameType = CONTINUATION | TEXT | BINARY | CLOSE | PING | PONG

fun frame_type_value :: "FrameType \<Rightarrow> nat" where
  "frame_type_value CONTINUATION = 0"
| "frame_type_value TEXT = 1"
| "frame_type_value BINARY = 2"
| "frame_type_value CLOSE = 8"
| "frame_type_value PING = 9"
| "frame_type_value PONG = 10"

section \<open>Reading by the table\<close>

text \<open>
  What the comment of the module says of the keys: the bytes from \<open>LOW_BYTE\<close> to \<open>HIGH_BYTE\<close>, masked
  and shifted. Bytes past the end count as missing.
\<close>

definition field_value :: "frame_field \<Rightarrow> bytes \<Rightarrow> nat option" where
  "field_value fd bs =
     (case (fd_low_byte fd, fd_high_byte fd) of
        (Some low, Some high) \<Rightarrow>
          if high < length bs then
            Some (drop_bit (fd_offset fd) (from_big_endian (take (Suc high - low) (drop low bs)) AND fd_bit_mask fd))
          else None
      | _ \<Rightarrow> None)"

text \<open>The length a frame announces, by the table.\<close>

definition announced_length :: "bytes \<Rightarrow> nat option" where
  "announced_length bs =
     Option.bind (field_value PAYLOAD_LEN bs) (\<lambda>n.
       if n = 126 then field_value PAYLOAD_LEN_EXT_126 bs
       else if n = 127 then field_value PAYLOAD_LEN_EXT_127 bs
       else Some n)"

section \<open>The table and the code\<close>

text \<open>A header byte, bit by bit.\<close>

lemma unat_byte: "unat (a :: byte) < 256"
  using unsigned_less [of a, where 'a = nat] by simp

lemma unat_byte_AND: "k < 256 \<Longrightarrow> unat (a AND word_of_nat k :: byte) = unat a AND k"
  by (simp add: unsigned_and_eq unat_of_nat)

lemma AND_exp: "n < 8 \<Longrightarrow> (a :: byte) AND 2 ^ n = 2 ^ n \<longleftrightarrow> bit a n"
  by (auto simp: bit_eq_iff [of _ "2 ^ n"] bit_and_iff bit_exp_iff)

lemma top_bit: "(a :: byte) AND 128 = 128 \<longleftrightarrow> bit a 7"
  using AND_exp [of 7 a] by simp

lemma top_bit_value: "drop_bit 7 (unat (a :: byte)) mod 2 = of_bool (a AND 128 = 128)"
proof -
  have "odd (drop_bit 7 (unat a)) \<longleftrightarrow> bit a 7" by (simp add: bit_iff_odd_drop_bit [symmetric] bit_unsigned_iff)
  then show ?thesis unfolding top_bit by (simp add: mod_2_eq_odd)
qed

lemma low_bits_value: "unat (a AND 15 :: byte) = unat a AND 15" "unat (a AND 127 :: byte) = unat a AND 127"
  using unat_byte_AND [of 15 a] unat_byte_AND [of 127 a] by simp_all

lemma header_fields:
  "field_value FIN (a # b # r) = Some (of_bool (a AND 128 = 128))"
  "field_value OPCODE (a # b # r) = Some (unat (a AND 15))"
  "field_value MASK (a # b # r) = Some (of_bool (b AND 128 = 128))"
  "field_value PAYLOAD_LEN (a # b # r) = Some (unat (b AND 127))"
  using top_bit_value by (simp_all add: field_value_def frame_field_defs low_bits_value)

lemma take_mask: "n < 2 ^ k \<Longrightarrow> n AND (2 ^ k - 1) = (n :: nat)"
  by (simp add: take_bit_nat_eq_self flip: take_bit_eq_mask mask_eq_exp_minus_1 del: One_nat_def)

lemma from_big_endian_bound: "from_big_endian bs < 256 ^ length bs"
proof (induction bs rule: rev_induct)
  case (snoc b bs)
  then show ?case using unat_byte [of b] by (simp add: from_big_endian_append)
qed (simp add: from_big_endian_def)

lemma extended_fields:
  "field_value PAYLOAD_LEN_EXT_126 (a # b # r) = (if 2 \<le> length r then Some (from_big_endian (take 2 r)) else None)"
  "field_value PAYLOAD_LEN_EXT_127 (a # b # r) =
     (if 8 \<le> length r then Some (take_bit 63 (from_big_endian (take 8 r))) else None)"
proof -
  have "from_big_endian (take 2 r) AND 65535 = from_big_endian (take 2 r)" if "2 \<le> length r"
    using take_mask [of "from_big_endian (take 2 r)" 16] from_big_endian_bound [of "take 2 r"] that by simp
  then show "field_value PAYLOAD_LEN_EXT_126 (a # b # r) = (if 2 \<le> length r then Some (from_big_endian (take 2 r)) else None)"
    by (auto simp: field_value_def frame_field_defs)
  have "(9223372036854775807 :: nat) = mask 63" by (simp add: mask_eq_exp_minus_1)
  then show "field_value PAYLOAD_LEN_EXT_127 (a # b # r) =
     (if 8 \<le> length r then Some (take_bit 63 (from_big_endian (take 8 r))) else None)"
    by (auto simp: field_value_def frame_field_defs take_bit_eq_mask)
qed

text \<open>The length that \<open>recv\<close> reads.\<close>

lemma recv_announced:
  assumes "announced_length (a # b # r) = Some n" and "unat (b AND 127) = 127 \<Longrightarrow> from_big_endian (take 8 r) < 2 ^ 63"
    and "r \<noteq> []"
  shows "\<exists>k. recv_payload_len (unat (b AND 127)) [r] = (n, after (drop k r) []) \<and> k \<le> 8"
proof -
  consider "unat (b AND 127) = 126" | "unat (b AND 127) = 127" | "unat (b AND 127) \<noteq> 126" "unat (b AND 127) \<noteq> 127"
    by blast
  then show ?thesis
  proof cases
    case 1
    then show ?thesis using assms by (intro exI [of _ 2])
        (auto simp: announced_length_def header_fields extended_fields recv_payload_len_def after_def split: if_splits)
  next
    case 2
    then show ?thesis using assms by (intro exI [of _ 8])
        (auto simp: announced_length_def header_fields extended_fields recv_payload_len_def after_def take_bit_nat_eq_self
          split: if_splits)
  next
    case 3
    then show ?thesis using assms by (intro exI [of _ 0])
        (auto simp: announced_length_def header_fields recv_payload_len_def after_def)
  qed
qed

lemma mapR_length: "mapR f xs = Inr ys \<Longrightarrow> length ys = length xs"
  by (induction xs arbitrary: ys) (auto simp: res_simps)

lemma unmask_length: "unmask key data = Inr p \<Longrightarrow> length p = length data"
  unfolding unmask_def by (drule mapR_length) simp

lemma recv_payload_length:
  assumes "recv_payload n masked (after r []) = (Inr p, segs)"
  shows "length p \<le> n" and "n + 4 \<le> length r \<Longrightarrow> length p = n"
proof -
  have "fst (recv m (after r [])) = take m r" for m by (cases r) (simp_all add: after_def)
  then have len: "length p = (if n = 0 then 0 else if masked then length (take (n + 4) r) - 4 else length (take n r))"
    using assms by (auto simp: recv_payload_def split_beta dest!: unmask_length split: if_splits)
  then show "length p \<le> n" by (auto split: if_splits)
  show "n + 4 \<le> length r \<Longrightarrow> length p = n" using len by (auto split: if_splits)
qed

text \<open>
  C38: The table describes what is read. When a frame is read from bytes that have come in one
  piece, its FIN bit, opcode and mask bit are the values the table gives of these bytes, its
  payload is never longer than the length the table gives, and as long when the bytes suffice. But
  the table gives the eight-byte length without its top bit, which the code counts. The values of
  \<open>FrameType\<close> are the opcodes of frame.py.
\<close>

theorem frames_by_table:
  assumes "recv_frame [bs] = (Inr f, segs)"
  shows "field_value FIN bs = Some (of_bool (fr_fin f)) \<and> field_value OPCODE bs = Some (fr_opcode f)
    \<and> field_value MASK bs = Some (of_bool (fr_masked f))
    \<and> (\<forall>n. announced_length bs = Some n
          \<and> (field_value PAYLOAD_LEN bs = Some 127 \<longrightarrow> from_big_endian (take 8 (drop 2 bs)) < 2 ^ 63) \<longrightarrow>
          (\<exists>p. fr_payload f = Some p \<and> length p \<le> n \<and> (14 + n \<le> length bs \<longrightarrow> length p = n)))
    \<and> map frame_type_value [CONTINUATION, TEXT, BINARY, CLOSE, PING, PONG] =
        [OP_CONTINUATION, OP_TEXT, OP_BYTES, OP_CLOSE, OP_PING, OP_PONG]"
proof -
  have "2 \<le> length bs" using assms by (auto simp: recv_frame_def Let_def split: if_splits)
  then obtain a b r where bs: "bs = a # b # r" by (cases bs; cases "tl bs") auto
  have r2: "recv 2 [bs] = ([a, b], after r [])" unfolding bs by (rule recv_header)
  obtain len s2 where l: "recv_payload_len (unat (b AND 127)) (after r []) = (len, s2)" by fastforce
  obtain p where p: "recv_payload len (b AND 128 = 128) s2 = (Inr p, segs)"
    and f: "f = \<lparr>fr_opcode = unat (a AND 15), fr_fin = (a AND 128 = 128), fr_masked = (b AND 128 = 128), fr_payload = Some p\<rparr>"
    using assms unfolding recv_frame_def r2 by (auto simp: l Let_def split: prod.splits sum.splits)
  have "length p \<le> n \<and> (14 + n \<le> length bs \<longrightarrow> length p = n)"
    if n: "announced_length bs = Some n"
      and top: "field_value PAYLOAD_LEN bs = Some 127 \<longrightarrow> from_big_endian (take 8 (drop 2 bs)) < 2 ^ 63" for n
  proof (cases "r = []")
    case True
    then have "len = n \<and> s2 = after [] []" using n l
      by (auto simp: bs announced_length_def header_fields extended_fields recv_payload_len_def after_def split: if_splits)
    with recv_payload_length [of len _ "[]" p segs] p True show ?thesis by (simp add: bs)
  next
    case False
    obtain k where k: "recv_payload_len (unat (b AND 127)) [r] = (n, after (drop k r) [])" "k \<le> 8"
      using recv_announced [OF n [unfolded bs] _ False] top by (auto simp: bs header_fields)
    then have "len = n" "s2 = after (drop k r) []" using l False by (simp_all add: after_def)
    with recv_payload_length [of len _ "drop k r" p segs] p k(2) show ?thesis by (simp add: bs)
  qed
  then show ?thesis by (simp add: f bs header_fields)
qed

lemma frames_by_table_witness:
  "\<exists>f segs. recv_frame [[0x82, 3, 7, 8, 9] @ replicate 12 0] = (Inr f, segs) \<and> fr_fin f \<and> fr_payload f = Some [7, 8, 9]
    \<and> announced_length ([0x82, 3, 7, 8, 9] @ replicate 12 0) = Some 3
    \<and> field_value FIN ([0x82, 3, 7, 8, 9] @ replicate 12 0) = Some 1"
proof -
  let ?bs = "[0x82, 3, 7, 8, 9] @ replicate 12 0 :: bytes"
  have "wire_frame 2 True None [7, 8, 9] = [0x82, 3, 7, 8, 9]" by (simp add: wire_frame_def)
  then have r: "recv_frame [?bs] = (Inr \<lparr>fr_opcode = 2, fr_fin = True, fr_masked = False, fr_payload = Some [7, 8, 9]\<rparr>,
      after (replicate 12 0) [])"
    using recv_wire_frame [of 2 None "[7, 8, 9]" True "replicate 12 0" "[]"] by simp
  have "announced_length ?bs = Some 3" by (simp add: announced_length_def header_fields)
  with frames_by_table [OF r] r show ?thesis by auto
qed

end
