(* ===== verification/Server_Loop.thy ===== *)
theory Server_Loop
  imports Prelude
begin

text \<open>
  servers/server.py and servers/socket.py: the thread that accepts connections and the main
  thread that starts and stops it, step by step. They share the flag \<open>alive\<close>, the server's socket
  and the list of clients, without a lock. What a connection is, and what disconnecting it does, is
  in theory \<open>Servers\<close>; here it does not raise.
\<close>

section \<open>State\<close>

text \<open>
  The server's socket: what the system's calls do to it is documented behaviour of Linux (a
  listening socket that is shut down refuses \<open>accept\<close> and wakes a thread that is in it; closing
  a socket wakes nobody).
\<close>

datatype sock_state = Fresh | Bound | Listening | ShutDown | Closed

text \<open>Who has connected: a client, or \<open>stop_socket\<close> itself.\<close>

datatype peer = Peer nat | Own

datatype loop_pc = L_Off | L_Alive | L_Option | L_Bind | L_Listen | L_While | L_Accept | L_Blocked
  | L_Check peer | L_Handle peer | L_Except | L_End

datatype main_pc = X_New | X_Running | X_Clients | X_Connect | X_Shutdown | X_Close | X_Join | X_Done

record listener =
  ls_alive :: bool
  ls_sock :: sock_state
  ls_backlog :: "peer list"
  ls_clients :: "peer list"
  ls_loop :: loop_pc
  ls_main :: main_pc

definition new_listener :: listener where
  "new_listener = \<lparr>ls_alive = False, ls_sock = Fresh, ls_backlog = [], ls_clients = [], ls_loop = L_Off, ls_main = X_New\<rparr>"

section \<open>The thread of the server\<close>

text \<open>
  \<open>loop\<close>, one shared access at a time; \<open>None\<close> when it is blocked or has ended. \<open>bindable\<close> says
  whether the address can be bound, \<open>handled\<close> whether a connection can be initialised. An
  exception outside the \<open>try\<close> blocks ends the thread.
\<close>

definition loop_step :: "bool \<Rightarrow> (peer \<Rightarrow> bool) \<Rightarrow> listener \<Rightarrow> listener option" where
  "loop_step bindable handled s =
     (case ls_loop s of
        L_Off \<Rightarrow> None
      | L_Alive \<Rightarrow> Some (s\<lparr>ls_alive := True, ls_loop := L_Option\<rparr>)
      | L_Option \<Rightarrow> Some (s\<lparr>ls_loop := (if ls_sock s = Closed then L_End else L_Bind)\<rparr>)
      | L_Bind \<Rightarrow>
          if ls_sock s = Closed \<or> \<not> bindable then Some (s\<lparr>ls_loop := L_End\<rparr>)
          else Some (s\<lparr>ls_sock := Bound, ls_loop := L_Listen\<rparr>)
      | L_Listen \<Rightarrow>
          if ls_sock s = Closed then Some (s\<lparr>ls_loop := L_End\<rparr>)
          else Some (s\<lparr>ls_sock := Listening, ls_loop := L_While\<rparr>)
      | L_While \<Rightarrow> Some (s\<lparr>ls_loop := (if ls_alive s then L_Accept else L_End)\<rparr>)
      | L_Accept \<Rightarrow>
          if ls_sock s = Listening then
            (case ls_backlog s of
               [] \<Rightarrow> Some (s\<lparr>ls_loop := L_Blocked\<rparr>)
             | c # cs \<Rightarrow> Some (s\<lparr>ls_backlog := cs, ls_loop := L_Check c\<rparr>))
          else Some (s\<lparr>ls_loop := L_Except\<rparr>)
      | L_Blocked \<Rightarrow>
          (case ls_backlog s of
             [] \<Rightarrow> None
           | c # cs \<Rightarrow> if ls_sock s = Listening then Some (s\<lparr>ls_backlog := cs, ls_loop := L_Check c\<rparr>) else None)
      | L_Check c \<Rightarrow> Some (s\<lparr>ls_loop := (if ls_alive s then L_Handle c else L_End)\<rparr>)
      | L_Handle c \<Rightarrow>
          Some (s\<lparr>ls_clients := (if handled c then ls_clients s @ [c] else ls_clients s), ls_loop := L_While\<rparr>)
      | L_Except \<Rightarrow> Some (s\<lparr>ls_loop := (if ls_alive s then L_While else L_End)\<rparr>)
      | L_End \<Rightarrow> None)"

section \<open>The main thread\<close>

definition enter_server :: "listener \<Rightarrow> listener" where
  "enter_server s = s\<lparr>ls_loop := L_Alive, ls_main := X_Running\<rparr>"

text \<open>\<open>stop\<close> up to its first loop.\<close>

definition lower_flag :: "listener \<Rightarrow> listener" where
  "lower_flag s = s\<lparr>ls_alive := False, ls_main := X_Clients\<rparr>"

definition stop_socket :: "bool \<Rightarrow> listener \<Rightarrow> listener" where
  "stop_socket reaches s =
     (if reaches \<and> ls_sock s = Listening then s\<lparr>ls_backlog := ls_backlog s @ [Own]\<rparr> else s)"

text \<open>An \<open>OSError\<close> of \<open>shutdown\<close>, on a socket that does not listen, is swallowed.\<close>

definition shutdown_socket :: "listener \<Rightarrow> listener" where
  "shutdown_socket s =
     (if ls_sock s = Listening then
        s\<lparr>ls_sock := ShutDown, ls_loop := (if ls_loop s = L_Blocked then L_Except else ls_loop s)\<rparr>
      else s)"

text \<open>
  The rest of \<open>stop\<close> and the \<open>join\<close> of \<open>__exit__\<close>; \<open>reaches\<close> says whether \<open>stop_socket\<close> connects to
  the port of the server itself.
\<close>

definition stop_step :: "bool \<Rightarrow> listener \<Rightarrow> listener option" where
  "stop_step reaches s =
     (case ls_main s of
        X_New \<Rightarrow> None
      | X_Running \<Rightarrow> None
      | X_Clients \<Rightarrow>
          if ls_clients s = [] then Some (s\<lparr>ls_main := X_Connect\<rparr>)
          else Some (s\<lparr>ls_clients := butlast (ls_clients s)\<rparr>)
      | X_Connect \<Rightarrow> Some ((stop_socket reaches s)\<lparr>ls_main := X_Shutdown\<rparr>)
      | X_Shutdown \<Rightarrow> Some ((shutdown_socket s)\<lparr>ls_main := X_Close\<rparr>)
      | X_Close \<Rightarrow> Some (s\<lparr>ls_sock := Closed, ls_main := X_Join\<rparr>)
      | X_Join \<Rightarrow> if ls_loop s = L_End then Some (s\<lparr>ls_main := X_Done\<rparr>) else None
      | X_Done \<Rightarrow> None)"

section \<open>Interleavings\<close>

datatype server_event = Enter | Exit | Loop | Main | Connects nat

inductive server_step :: "bool \<Rightarrow> bool \<Rightarrow> (peer \<Rightarrow> bool) \<Rightarrow> listener \<Rightarrow> server_event \<Rightarrow> listener \<Rightarrow> bool"
  for reaches bindable handled where
  enter: "ls_main s = X_New \<Longrightarrow> server_step reaches bindable handled s Enter (enter_server s)"
| exit: "ls_main s = X_Running \<Longrightarrow> server_step reaches bindable handled s Exit (lower_flag s)"
| loop: "loop_step bindable handled s = Some s' \<Longrightarrow> server_step reaches bindable handled s Loop s'"
| main: "stop_step reaches s = Some s' \<Longrightarrow> server_step reaches bindable handled s Main s'"
| connects: "ls_sock s = Listening \<Longrightarrow>
    server_step reaches bindable handled s (Connects n) (s\<lparr>ls_backlog := ls_backlog s @ [Peer n]\<rparr>)"

inductive_cases server_stepE: "server_step reaches bindable handled s l s'"

inductive server_run :: "bool \<Rightarrow> bool \<Rightarrow> (peer \<Rightarrow> bool) \<Rightarrow> listener \<Rightarrow> server_event list \<Rightarrow> listener \<Rightarrow> bool"
  for reaches bindable handled where
  server_Nil: "server_run reaches bindable handled s [] s"
| server_Cons: "server_step reaches bindable handled s l s1 \<Longrightarrow> server_run reaches bindable handled s1 tr s' \<Longrightarrow>
    server_run reaches bindable handled s (l # tr) s'"

inductive_cases server_run_ConsE: "server_run reaches bindable handled s (l # tr) s'"

text \<open>Both threads are at rest.\<close>

definition at_rest :: "bool \<Rightarrow> bool \<Rightarrow> (peer \<Rightarrow> bool) \<Rightarrow> listener \<Rightarrow> bool" where
  "at_rest reaches bindable handled s \<longleftrightarrow> loop_step bindable handled s = None \<and> stop_step reaches s = None"

section \<open>Stopping a server that has started\<close>

fun active :: "loop_pc \<Rightarrow> bool" where
  "active L_While = True"
| "active L_Accept = True"
| "active L_Blocked = True"
| "active (L_Check c) = True"
| "active (L_Handle c) = True"
| "active L_Except = True"
| "active _ = False"

definition before_shutdown :: "main_pc \<Rightarrow> bool" where
  "before_shutdown m \<longleftrightarrow> m \<in> {X_Running, X_Clients, X_Connect, X_Shutdown}"

lemma before_shutdown_simps [simp]:
  "before_shutdown X_Running" "before_shutdown X_Clients" "before_shutdown X_Connect" "before_shutdown X_Shutdown"
  "\<not> before_shutdown X_Close" "\<not> before_shutdown X_Join" "\<not> before_shutdown X_Done" "\<not> before_shutdown X_New"
  by (simp_all add: before_shutdown_def)

definition started :: "listener \<Rightarrow> bool" where
  "started s \<longleftrightarrow> ls_main s = X_Running \<and> (active (ls_loop s) \<longrightarrow> ls_sock s = Listening) \<and> ls_loop s \<noteq> L_Off
     \<or> ls_main s = X_New \<and> ls_loop s = L_Off"

definition stopping :: "listener \<Rightarrow> bool" where
  "stopping s \<longleftrightarrow> \<not> ls_alive s \<and> ls_loop s \<noteq> L_Off \<and> ls_loop s \<noteq> L_Alive \<and> ls_main s \<noteq> X_New \<and> ls_main s \<noteq> X_Running
     \<and> (active (ls_loop s) \<and> before_shutdown (ls_main s) \<longrightarrow> ls_sock s = Listening)
     \<and> (ls_loop s = L_Blocked \<longrightarrow> before_shutdown (ls_main s))
     \<and> (ls_loop s = L_Accept \<and> \<not> before_shutdown (ls_main s) \<longrightarrow> ls_sock s \<noteq> Listening)"

lemma started_step:
  "server_step reaches bindable handled s l s' \<Longrightarrow> l \<noteq> Exit \<Longrightarrow> started s \<Longrightarrow> started s'"
  by (erule server_stepE)
     (auto simp: started_def enter_server_def loop_step_def stop_step_def
       split: if_splits loop_pc.splits list.splits)

lemma started_stop: "started s \<Longrightarrow> ls_main s = X_Running \<Longrightarrow> ls_loop s \<noteq> L_Alive \<Longrightarrow> stopping (lower_flag s)"
  by (auto simp: started_def stopping_def lower_flag_def)

lemma stopping_step: "server_step reaches bindable handled s l s' \<Longrightarrow> stopping s \<Longrightarrow> stopping s'"
  by (erule server_stepE)
     (auto simp: stopping_def loop_step_def stop_step_def stop_socket_def shutdown_socket_def
       split: if_splits loop_pc.splits main_pc.splits list.splits)

text \<open>What is left to do.\<close>

fun loop_rank :: "loop_pc \<Rightarrow> nat" where
  "loop_rank L_End = 0"
| "loop_rank L_Except = 1"
| "loop_rank (L_Check c) = 1"
| "loop_rank L_While = 1"
| "loop_rank L_Blocked = 2"
| "loop_rank L_Accept = 3"
| "loop_rank (L_Handle c) = 3"
| "loop_rank L_Listen = 2"
| "loop_rank L_Bind = 3"
| "loop_rank L_Option = 4"
| "loop_rank _ = 5"

fun main_rank :: "main_pc \<Rightarrow> nat" where
  "main_rank X_Done = 0"
| "main_rank X_Join = 1"
| "main_rank X_Close = 2"
| "main_rank X_Shutdown = 3"
| "main_rank X_Connect = 4"
| "main_rank _ = 5"

definition to_do :: "listener \<Rightarrow> nat" where
  "to_do s = loop_rank (ls_loop s) + main_rank (ls_main s) + length (ls_clients s)"

definition own_steps :: "server_event list \<Rightarrow> nat" where
  "own_steps tr = length (filter (\<lambda>l. l = Loop \<or> l = Main) tr)"

lemma to_do_step:
  "server_step reaches bindable handled s l s' \<Longrightarrow> stopping s \<Longrightarrow>
   own_steps [l] + to_do s' \<le> to_do s"
  by (erule server_stepE)
     (auto simp: stopping_def to_do_def own_steps_def loop_step_def stop_step_def stop_socket_def shutdown_socket_def
       split: if_splits loop_pc.splits main_pc.splits list.splits)

lemma stopping_run:
  "server_run reaches bindable handled s tr s' \<Longrightarrow> stopping s \<Longrightarrow> stopping s' \<and> own_steps tr + to_do s' \<le> to_do s"
proof (induction rule: server_run.induct)
  case (server_Cons s l s1 tr s')
  have "own_steps (l # tr) = own_steps [l] + own_steps tr" by (simp add: own_steps_def)
  with server_Cons stopping_step [OF server_Cons(1,4)] to_do_step [OF server_Cons(1,4)] show ?case by simp
qed (simp add: own_steps_def)

lemma started_run:
  "server_run reaches bindable handled s tr s' \<Longrightarrow> Exit \<notin> set tr \<Longrightarrow> started s \<Longrightarrow> started s'"
proof (induction rule: server_run.induct)
  case (server_Cons s l s1 tr s')
  then show ?case using started_step [OF server_Cons(1) _ server_Cons(5)] by auto
qed

lemma stopping_rest: "stopping s \<Longrightarrow> at_rest reaches bindable handled s \<Longrightarrow> ls_main s = X_Done \<and> ls_loop s = L_End"
  by (auto simp: stopping_def at_rest_def loop_step_def stop_step_def
       split: if_splits loop_pc.splits main_pc.splits list.splits)

text \<open>
  C15: A server that has started can be stopped. When \<open>__exit__\<close> lowers the flag after the thread of
  the server has raised it, then, however both threads and the clients that still connect
  interleave, the two threads have a bounded number of steps left, nine and one for each client,
  and when they are at rest \<open>__exit__\<close> has returned.
\<close>

theorem stop_joins:
  assumes "server_run reaches bindable handled new_listener tr s" and "Exit \<notin> set tr"
    and "ls_main s = X_Running" and "ls_loop s \<noteq> L_Alive"
    and "server_run reaches bindable handled (lower_flag s) tr' s'"
  shows "own_steps tr' \<le> 9 + length (ls_clients s)
    \<and> (at_rest reaches bindable handled s' \<longrightarrow> ls_main s' = X_Done \<and> ls_loop s' = L_End)"
proof -
  have "started new_listener" by (simp add: started_def new_listener_def)
  then have st: "started s" using started_run [OF assms(1,2)] by simp
  have stop: "stopping (lower_flag s)" by (rule started_stop [OF st assms(3,4)])
  have "to_do (lower_flag s) \<le> 9 + length (ls_clients s)"
    using st assms(3,4) by (cases "ls_loop s") (simp_all add: to_do_def lower_flag_def started_def)
  with stopping_run [OF assms(5) stop] stopping_rest [of s' reaches bindable handled] show ?thesis
    by fastforce
qed

section \<open>Schedules\<close>

fun do_event :: "(peer \<Rightarrow> bool) \<Rightarrow> listener \<Rightarrow> server_event \<Rightarrow> listener option" where
  "do_event handled s Enter = (if ls_main s = X_New then Some (enter_server s) else None)"
| "do_event handled s Exit = (if ls_main s = X_Running then Some (lower_flag s) else None)"
| "do_event handled s Loop = loop_step True handled s"
| "do_event handled s Main = stop_step True s"
| "do_event handled s (Connects n) =
     (if ls_sock s = Listening then Some (s\<lparr>ls_backlog := ls_backlog s @ [Peer n]\<rparr>) else None)"

fun do_events :: "(peer \<Rightarrow> bool) \<Rightarrow> server_event list \<Rightarrow> listener \<Rightarrow> listener option" where
  "do_events handled [] s = Some s"
| "do_events handled (l # tr) s = (case do_event handled s l of None \<Rightarrow> None | Some s1 \<Rightarrow> do_events handled tr s1)"

lemma do_event_step: "do_event handled s l = Some s' \<Longrightarrow> server_step True True handled s l s'"
  by (cases l) (auto intro: server_step.intros split: if_splits)

lemma do_events_run: "do_events handled tr s = Some s' \<Longrightarrow> server_run True True handled s tr s'"
  by (induction tr arbitrary: s) (auto intro: server_run.intros do_event_step split: option.splits)

lemmas schedule_simps = loop_step_def stop_step_def enter_server_def lower_flag_def stop_socket_def
  shutdown_socket_def new_listener_def

lemma stop_joins_witness:
  "\<exists>s s'. server_run True True (\<lambda>c. True) new_listener [Enter, Loop, Loop, Loop, Loop, Loop, Connects 7, Loop, Loop, Loop, Loop, Loop] s
    \<and> ls_clients s = [Peer 7]
    \<and> server_run True True (\<lambda>c. True) (lower_flag s) [Main, Main, Main, Loop, Loop, Main, Main, Main] s' \<and> ls_main s' = X_Done"
proof -
  let ?start = "[Enter, Loop, Loop, Loop, Loop, Loop, Connects 7, Loop, Loop, Loop, Loop, Loop]"
  let ?stop = "[Main, Main, Main, Loop, Loop, Main, Main, Main]"
  obtain s where s: "do_events (\<lambda>c. True) ?start new_listener = Some s" "ls_main s = X_Running" "ls_loop s = L_Blocked"
    "ls_clients s = [Peer 7]" by (simp add: schedule_simps)
  obtain s' where s': "do_events (\<lambda>c. True) ?stop (lower_flag s) = Some s'"
    using s(1) by (auto simp: schedule_simps)
  then have "at_rest True True (\<lambda>c. True) s'" using s(1) by (auto simp: schedule_simps at_rest_def)
  with stop_joins [OF do_events_run [OF s(1)] _ s(2) _ do_events_run [OF s']] s do_events_run [OF s(1)] do_events_run [OF s']
  show ?thesis by auto
qed

section \<open>Stopping a server that has not\<close>

text \<open>The thread goes round and round, and nobody lowers the flag again.\<close>

definition spinning :: "listener \<Rightarrow> bool" where
  "spinning s \<longleftrightarrow> ls_alive s \<and> ls_main s = X_Join \<and> ls_sock s = Closed \<and> ls_loop s \<in> {L_While, L_Accept, L_Except}"

lemma spinning_step: "server_step reaches bindable handled s l s' \<Longrightarrow> spinning s \<Longrightarrow> spinning s'"
  by (erule server_stepE) (auto simp: spinning_def loop_step_def stop_step_def)

lemma spinning_run: "server_run reaches bindable handled s tr s' \<Longrightarrow> spinning s \<Longrightarrow> spinning s'"
  by (induction rule: server_run.induct) (auto intro: spinning_step)

text \<open>
  C36: A stop that overtakes the start. The flag is raised by the thread of the server, so a stop
  that comes before that is undone: the thread asks the closed socket for connections, again and
  again, and \<open>__exit__\<close> waits for it for ever. And a connection that is accepted just before the
  flag is lowered enters the list after it has been emptied: \<open>__exit__\<close> returns and the client
  stays connected.
\<close>

theorem stop_races:
  assumes "handled (Peer n)"
  shows "(\<exists>tr s. server_run True True handled new_listener tr s \<and> ls_main s = X_Join
      \<and> (\<forall>tr' s'. server_run True True handled s tr' s' \<longrightarrow> ls_main s' = X_Join \<and> loop_step True handled s' \<noteq> None))
    \<and> (\<exists>tr s. server_run True True handled new_listener tr s \<and> ls_main s = X_Done \<and> ls_clients s = [Peer n])"
proof
  let ?tr = "[Enter, Exit, Loop, Loop, Loop, Loop, Main, Main, Main, Main]"
  obtain s where s: "do_events handled ?tr new_listener = Some s" "spinning s"
    by (simp add: schedule_simps spinning_def)
  have "ls_main s' = X_Join \<and> loop_step True handled s' \<noteq> None" if "server_run True True handled s tr' s'" for tr' s'
    using spinning_run [OF that s(2)] by (auto simp: spinning_def loop_step_def)
  moreover have "ls_main s = X_Join" using s(2) by (simp add: spinning_def)
  ultimately show "\<exists>tr s. server_run True True handled new_listener tr s \<and> ls_main s = X_Join
      \<and> (\<forall>tr' s'. server_run True True handled s tr' s' \<longrightarrow> ls_main s' = X_Join \<and> loop_step True handled s' \<noteq> None)"
    using do_events_run [OF s(1)] by blast
next
  let ?tr = "[Enter, Loop, Loop, Loop, Loop, Loop, Connects n, Loop, Loop, Exit, Main, Main, Main, Main, Loop, Loop, Main]"
  obtain s where "do_events handled ?tr new_listener = Some s" "ls_main s = X_Done" "ls_clients s = [Peer n]"
    using assms by (simp add: schedule_simps)
  then show "\<exists>tr s. server_run True True handled new_listener tr s \<and> ls_main s = X_Done \<and> ls_clients s = [Peer n]"
    using do_events_run by blast
qed

lemma stop_races_witness:
  "\<exists>tr s. server_run True True (\<lambda>c. True) new_listener tr s \<and> ls_main s = X_Done \<and> ls_clients s = [Peer 3]"
  using stop_races [of "\<lambda>c. True" 3] by blast

end
