(* ===== verification/Secure.thy ===== *)
theory Secure
  imports Server_Loop Py_Values
begin

text \<open>
  servers/ssl.py: WebSockets over TLS. Nothing starts this server at present (the lines in
  broker.py are comments). The TLS library is not part of the repository: whether its calls
  succeed is an argument.
\<close>

section \<open>The class of the connections\<close>

text \<open>
  How Python makes the attributes of a dataclass: \<open>__init__\<close> sets the names that are annotated in
  a class of the hierarchy, to the last annotated value; a name without an annotation is only an
  attribute of its class, which those of the instance hide. A class is the list of its names with
  annotation or not and value, the base classes come first.
\<close>

type_synonym 'v class_names = "(string \<times> bool \<times> 'v) list"

definition dataclass_fields :: "'v class_names list \<Rightarrow> (string \<times> 'v) list" where
  "dataclass_fields classes =
     foldl (\<lambda>fields (name, annotated, v). if annotated then AList.update name v fields else fields) [] (concat classes)"

definition instance_attribute :: "'v class_names list \<Rightarrow> string \<Rightarrow> 'v option" where
  "instance_attribute classes name =
     (case map_of (dataclass_fields classes) name of
        Some v \<Rightarrow> Some v
      | None \<Rightarrow> map_option snd (map_of (rev (concat classes)) name))"

datatype server_default = NoDefault | Flag bool | NoContext | SocketHandlerClass | SecureWebsocketHandlerClass

definition server_class :: "server_default class_names" where
  "server_class = [(''name'', True, NoDefault), (''host'', True, NoDefault), (''port'', True, NoDefault),
     (''alive'', True, Flag False)]"

definition socket_server_class :: "server_default class_names" where
  "socket_server_class = [(''handler_class'', True, SocketHandlerClass)]"

definition secure_socket_server_class :: "server_default class_names" where
  "secure_socket_server_class =
     [(''ssl_context'', True, NoContext), (''handler_class'', False, SecureWebsocketHandlerClass)]"

section \<open>The server's socket\<close>

text \<open>\<open>server\<close>: wrapped when there is a context; the certificate and key are read from the broker.\<close>

datatype 'sock server_sock = Plain 'sock | Wrapped string string 'sock

definition secure_server_socket ::
    "bool \<Rightarrow> (string \<Rightarrow> string \<Rightarrow> py_error + unit) \<Rightarrow> string \<Rightarrow> string \<Rightarrow> 'sock \<Rightarrow> py_error + 'sock server_sock" where
  "secure_server_socket ssl_context load_cert_chain ssl_cert ssl_key base_socket =
     (if ssl_context then bindR (load_cert_chain ssl_cert ssl_key) (\<lambda>_. Inr (Wrapped ssl_cert ssl_key base_socket))
      else Inr (Plain base_socket))"

text \<open>\<open>stop\<close> is that of \<open>SocketServer\<close>, except that it knocks at port 443.\<close>

definition secure_stop_step :: "nat \<Rightarrow> listener \<Rightarrow> listener option" where
  "secure_stop_step server_port = stop_step (server_port = 443)"

section \<open>A connection\<close>

datatype thread_call = SetNoDelay | SetTimeout nat | DoHandshake | StartReadThread | StartWriteThread

text \<open>The calls that are made, up to the first that raises.\<close>

fun calls_made :: "(thread_call \<Rightarrow> bool) \<Rightarrow> thread_call list \<Rightarrow> thread_call list" where
  "calls_made raises [] = []"
| "calls_made raises (c # cs) = c # (if raises c then [] else calls_made raises cs)"

definition start_threads :: "thread_call list" where
  "start_threads = [StartReadThread, StartWriteThread]"

text \<open>The thread of \<open>SecureWebsocketHandler.start_threads\<close>.\<close>

definition secure_handshake :: "thread_call list" where
  "secure_handshake = [SetNoDelay, SetTimeout 5, DoHandshake] @ start_threads"

text \<open>
  A TLS connection is read and written only after the handshake has succeeded. A
  \<open>SecureSocketServer\<close>, though, hands its connections to the class for plain TCP: the class it
  names is no field, so \<open>__init__\<close> sets the field of the base class.
\<close>

theorem secure_connections:
  "(StartReadThread \<in> set (calls_made raises secure_handshake) \<longleftrightarrow>
      \<not> raises SetNoDelay \<and> \<not> raises (SetTimeout 5) \<and> \<not> raises DoHandshake)
   \<and> instance_attribute [server_class, socket_server_class, secure_socket_server_class] ''handler_class'' =
       Some SocketHandlerClass"
  by (simp add: secure_handshake_def start_threads_def instance_attribute_def dataclass_fields_def
      server_class_def socket_server_class_def secure_socket_server_class_def)

text \<open>Stopping is that of a server whose port \<open>stop_socket\<close> may miss, to which \<open>stop_joins\<close> applies.\<close>

lemma secure_server_step:
  "secure_stop_step server_port s = Some s' \<Longrightarrow> server_step (server_port = 443) bindable handled s Main s'"
  unfolding secure_stop_step_def by (rule server_step.main)

end
