(* ===== verification/Tables.thy ===== *)
theory Tables
  imports Backend Topics
begin

text \<open>
  tables/models.py and tables/manager.py: tables whose fields are described by JSON, and the
  worker process that creates and drops them. Django is not part of the repository: what the
  code uses of it is a record of functions, the argument \<open>dj\<close> of the definitions.
\<close>

section \<open>Models\<close>

text \<open>\<open>topic.replace("/", "_").replace("+", "").replace("#", "")\<close>.\<close>

definition parse_model_name :: "string \<Rightarrow> string" where
  "parse_model_name topic =
     filter (\<lambda>c. c \<noteq> CHR ''#'') (filter (\<lambda>c. c \<noteq> CHR ''+'')
       (map (\<lambda>c. if c = CHR ''/'' then CHR ''_'' else c) topic))"

datatype field_class = CharField | PositiveIntegerField | IntegerField | URLField | BinaryField

definition field_class_map :: "(string \<times> field_class) list" where
  "field_class_map =
     [(''char'', CharField), (''uint'', PositiveIntegerField), (''int'', IntegerField),
      (''url'', URLField), (''bytes'', BinaryField)]"

record table_meta =
  meta_name :: string
  meta_topic :: string
  meta_field_bytes :: bytes

text \<open>
  Django and the JSON parser: the constructor of a field class, making a model class from its
  name and fields, saving a row, listing all rows, the management commands, and \<open>drop()\<close> on a
  model class.
\<close>

record ('f, 'm, 'db) django =
  dj_loads :: "string \<Rightarrow> py_error + pyobj"
  dj_field :: "field_class \<Rightarrow> pydict \<Rightarrow> py_error + 'f"
  dj_class :: "string \<Rightarrow> (string \<times> 'f) list \<Rightarrow> py_error + 'm"
  dj_save :: "table_meta \<Rightarrow> 'db \<Rightarrow> (py_error + unit) \<times> 'db"
  dj_all :: "'db \<Rightarrow> table_meta list"
  dj_command :: "string \<Rightarrow> 'db \<Rightarrow> (py_error + unit) \<times> 'db"
  dj_drop :: "'m \<Rightarrow> 'db \<Rightarrow> (py_error + unit) \<times> 'db"

text \<open>
  \<open>type_name, field_attrs = value\<close> for a JSON value. A text gives its code points, a dict its
  keys; nothing else but a list can be unpacked.
\<close>

definition continues :: "char \<Rightarrow> bool" where
  "continues c \<longleftrightarrow> cont_byte (char_byte c)"

fun unpack_value :: "pyobj \<Rightarrow> py_error + pyobj list" where
  "unpack_value (PyList xs) = Inr xs"
| "unpack_value (PyDict kvs) = Inr (map (PyStr \<circ> fst) kvs)"
| "unpack_value (PyRdd kvs) = Inr (map (PyStr \<circ> fst) kvs)"
| "unpack_value (PyBytes b) = Inr (map (PyInt \<circ> uint) b)"
| "unpack_value (PyStr s) =
     Inr (map PyStr (foldr (\<lambda>c cs. if continues c then (case cs of [] \<Rightarrow> [[c]] | w # ws \<Rightarrow> (c # w) # ws)
        else (case cs of (d # w) # ws \<Rightarrow> if continues d then (c # d # w) # ws else [c] # cs | _ \<Rightarrow> [c] # cs)) s []))"
| "unpack_value _ = Inl TypeError"

fun unpack_pair :: "'x list \<Rightarrow> py_error + 'x \<times> 'x" where
  "unpack_pair [a, b] = Inr (a, b)"
| "unpack_pair _ = Inl ValueError"

text \<open>
  The call \<open>parse_field(field_name, type_name, **field_attrs)\<close>: the attributes must be a dict
  without the names of the two parameters.
\<close>

definition parse_field ::
    "('f, 'm, 'db) django \<Rightarrow> string \<Rightarrow> pyobj \<Rightarrow> pyobj \<Rightarrow> py_error + 'f" where
  "parse_field dj field_name type_name field_attrs =
     (case field_attrs of
        PyDict attrs \<Rightarrow>
          if ''field_name'' \<in> set (map fst attrs) \<or> ''type_name'' \<in> set (map fst attrs) then Inl TypeError
          else (case type_name of
                  PyStr s \<Rightarrow> (case map_of field_class_map s of
                      None \<Rightarrow> Inl TypeError
                    | Some c \<Rightarrow> dj_field dj c attrs)
                | _ \<Rightarrow> Inl TypeError)
      | _ \<Rightarrow> Inl TypeError)"

definition parse_fields ::
    "('f, 'm, 'db) django \<Rightarrow> pydict \<Rightarrow> py_error + (string \<times> 'f) list" where
  "parse_fields dj kvs =
     mapR (\<lambda>(field_name, value).
         bindR (bindR (unpack_value value) unpack_pair) (\<lambda>(type_name, field_attrs).
         bindR (parse_field dj field_name type_name field_attrs) (\<lambda>f. Inr (field_name, f)))) kvs"

text \<open>\<open>attrs["__module__"]\<close> replaces a field of that name.\<close>

definition create_model_class :: "('f, 'm, 'db) django \<Rightarrow> string \<Rightarrow> pyobj \<Rightarrow> py_error + 'm" where
  "create_model_class dj topic obj =
     (case obj of
        PyDict kvs \<Rightarrow> bindR (parse_fields dj kvs)
          (\<lambda>attrs. dj_class dj (parse_model_name topic) (AList.delete ''__module__'' attrs))
      | _ \<Rightarrow> Inl AttributeError)"

definition build :: "('f, 'm, 'db) django \<Rightarrow> table_meta \<Rightarrow> py_error + 'm" where
  "build dj self =
     bindR (py_decode (meta_field_bytes self)) (\<lambda>s.
       case dj_loads dj s of
         Inl e \<Rightarrow> Inl (if e = JSONDecodeError then CorruptModelError else e)
       | Inr obj \<Rightarrow> create_model_class dj (meta_topic self) obj)"

text \<open>\<open>TableMeta.create_table\<close>: the model is built before the row is saved.\<close>

definition create_table ::
    "('f, 'm, 'db) django \<Rightarrow> string \<Rightarrow> bytes \<Rightarrow> 'db \<Rightarrow> (py_error + 'm) \<times> 'db" where
  "create_table dj topic_str field_data db =
     (let table = \<lparr>meta_name = parse_model_name topic_str, meta_topic = topic_str, meta_field_bytes = field_data\<rparr>
      in case build dj table of
           Inl e \<Rightarrow> (Inl e, db)
         | Inr model \<Rightarrow>
             (case dj_save dj table db of
                (Inl e, db1) \<Rightarrow> (Inl e, db1)
              | (Inr _, db1) \<Rightarrow>
                  (case dj_command dj ''makemigrations'' db1 of
                     (Inl e, db2) \<Rightarrow> (Inl e, db2)
                   | (Inr _, db2) \<Rightarrow>
                       (case dj_command dj ''migrate'' db2 of
                          (Inl e, db3) \<Rightarrow> (Inl e, db3)
                        | (Inr _, db3) \<Rightarrow> (Inr model, db3)))))"

section \<open>The worker\<close>

record ('m, 'db) table_worker =
  tw_models :: "(string \<times> 'm) list"
  tw_db :: 'db

definition load_models :: "('f, 'm, 'db) django \<Rightarrow> 'db \<Rightarrow> py_error + ('m, 'db) table_worker" where
  "load_models dj db =
     bindR (foldR (\<lambda>models t. bindR (build dj t) (\<lambda>m. Inr (AList.update (meta_topic t) m models))) [] (dj_all dj db))
       (\<lambda>models. Inr \<lparr>tw_models = models, tw_db = db\<rparr>)"

datatype table_operator = CreateTable | DropTable | WriteObjects

definition operator_map :: "(string \<times> table_operator) list" where
  "operator_map = [(''@&'', CreateTable), (''@--'', DropTable), (''@$'', WriteObjects)]"

text \<open>An operator on a topic, which is \<open>None\<close> when the message named no table.\<close>

definition run_operator ::
    "('f, 'm, 'db) django \<Rightarrow> table_operator \<Rightarrow> topic option \<Rightarrow> bytes \<Rightarrow> ('m, 'db) table_worker
     \<Rightarrow> (py_error + unit) \<times> ('m, 'db) table_worker" where
  "run_operator dj operator topic data w =
     (case operator of
        CreateTable \<Rightarrow>
          (case topic of
             None \<Rightarrow> (Inl AttributeError, w)
           | Some t \<Rightarrow>
               (case create_table dj (full_str t) data (tw_db w) of
                  (Inl e, db) \<Rightarrow> (Inl e, w\<lparr>tw_db := db\<rparr>)
                | (Inr _, db) \<Rightarrow> (Inr (), w\<lparr>tw_db := db\<rparr>)))
      | WriteObjects \<Rightarrow> (Inr (), w)
      | DropTable \<Rightarrow>
          (case topic of
             None \<Rightarrow> (Inr (), w)
           | Some t \<Rightarrow>
               (case map_of (tw_models w) (full_str t) of
                  None \<Rightarrow> (Inr (), w)
                | Some m \<Rightarrow>
                    (case dj_drop dj m (tw_db w) of
                       (Inl e, db) \<Rightarrow> (Inl e, w\<lparr>tw_db := db\<rparr>)
                     | (Inr _, db) \<Rightarrow>
                         (Inr (), w\<lparr>tw_db := db, tw_models := AList.delete (full_str t) (tw_models w)\<rparr>)))))"

text \<open>\<open>handle_operation\<close> answers \<open>False\<close> when the operator raises, \<open>None\<close> (here \<open>True\<close>) otherwise.\<close>

definition handle_operation ::
    "('f, 'm, 'db) django \<Rightarrow> topic \<Rightarrow> bytes \<Rightarrow> ('m, 'db) table_worker
     \<Rightarrow> (py_error + bool) \<times> ('m, 'db) table_worker" where
  "handle_operation dj full_topic payload w =
     (case node_list full_topic of
        [] \<Rightarrow> (Inl IndexError, w)
      | node # nodes \<Rightarrow>
          (case map_of operator_map node of
             None \<Rightarrow> (Inl UnknownOperation, w)
           | Some operator \<Rightarrow>
               (case run_operator dj operator (topic_from_nodes nodes None) payload w of
                  (Inl e, w1) \<Rightarrow> (Inr False, w1)
                | (Inr _, w1) \<Rightarrow> (Inr True, w1))))"

text \<open>
  \<open>run_tasks\<close> takes one argument besides \<open>self\<close>, the list of tasks, and is called with the tasks
  as its arguments. A task as the broker adds it is a triple, so its first element, a topic, is
  what \<open>full_topic, payload\<close> unpack: two nodes, which are text and have no \<open>node_list\<close>.
\<close>

type_synonym table_task = "topic \<times> bytes \<times> nat"

fun table_run_tasks :: "table_task list \<Rightarrow> 'w \<Rightarrow> py_error + 'w" where
  "table_run_tasks [(topic, data, qos)] w =
     bindR (unpack_pair (node_list topic)) (\<lambda>(full_topic, payload). Inl AttributeError)"
| "table_run_tasks tasks w = Inl TypeError"

text \<open>\<open>TableWorker.query\<close>, which takes one argument.\<close>

definition table_query :: "arg list \<Rightarrow> py_error + ipc" where
  "table_query args =
     (if length args = 1 then Inr (RBytes (raw_bytes ''test response'')) else Inl TypeError)"

section \<open>What the table worker does\<close>

lemma table_run_tasks_fails: "table_run_tasks ts w \<noteq> Inr w'"
proof (cases "(ts, w)" rule: table_run_tasks.cases)
  case (1 t data qos w)
  then show ?thesis by (cases "node_list t" rule: unpack_pair.cases) auto
qed auto

text \<open>
  No table operation is ever carried out. Whatever is published to the tables and asked of
  the worker, in whatever order: the state of the worker, its models and the database, stays as
  it was when the worker started, because \<open>run_tasks\<close> raises on every batch that the broker's
  calls of \<open>add_tasks\<close> can give it; the tasks that were added are all still there, in hand of the
  dead worker or waiting.
\<close>

theorem no_table_operation:
  assumes "brun table_query table_run_tasks (new_backend w0) tr s"
  shows "b_state s = w0 \<and> in_hand (b_worker s) @ b_tasks s = added tr"
  using assms
proof (induction rule: brun.induct)
  case (brun_snoc tr s' l s'')
  from bstep_tasks [OF brun_snoc(2) brun_new [OF brun_snoc(1)]] brun_snoc(3) table_run_tasks_fails
  show ?case by (metis added_append append_assoc)
qed (simp add: new_backend_def)

lemma no_table_operation_witness:
  "\<exists>(s :: (table_task, nat) backend). brun table_query table_run_tasks (new_backend 7)
      [Start, Internal, Internal, Add [(Topic ''a'' None None None, [1], 0)], Internal, Internal] s
    \<and> b_worker s = W_Dead ValueError [(Topic ''a'' None None None, [1], 0)] \<and> b_state s = 7"
proof -
  let ?task = "(Topic ''a'' None None None, [1], 0) :: table_task"
  obtain s :: "(table_task, nat) backend" where
    d: "do_moves table_query table_run_tasks [MStart, MWorker, MWorker, MAdd [?task], MWorker, MWorker] (new_backend 7)
      = Some ([Start, Internal, Internal, Add [?task], Internal, Internal], s)"
    and s: "b_worker s = W_Dead ValueError [?task]"
    by (simp add: do_moves_simps enter_backend_def new_backend_def add_tasks_def worker_step_def node_list_def)
  from no_table_operation [OF do_moves_brun [OF d]] do_moves_brun [OF d] s show ?thesis by blast
qed

section \<open>A lost answer\<close>

text \<open>The thread that asked waits, and no response that could be for it is to come.\<close>

definition abandoned :: "('a, 'w) backend \<Rightarrow> bool" where
  "abandoned s \<longleftrightarrow> b_asker s = Some Q_Wait \<and> (\<exists>e ts. b_worker s = W_Dead e ts) \<and> b_main s \<noteq> M_New"

lemma abandoned_step:
  assumes "bstep query run s l s'" and "abandoned s"
  shows "abandoned s' \<and> answered [l] = []"
  using assms
  by (auto elim!: bstepE simp: abandoned_def add_tasks_def notify_worker_def clear_running_def
      notify_exit_def worker_step_def)

lemma abandoned_run: "brun query run s tr s' \<Longrightarrow> abandoned s \<Longrightarrow> abandoned s' \<and> answered tr = []"
  by (induction rule: brun.induct) (auto dest: abandoned_step)

text \<open>
  C30: A subscription to a table can wait for ever. When the answer of the worker comes before the
  asking thread waits for it, the notification is lost; the next task makes the worker take the
  answer, which is stored in the slot of the queries, for a query, and the call with its bytes as
  arguments kills the worker. From then on nothing that any thread does lets the asking thread
  return.
\<close>

theorem stale_answer_kills_worker:
  "\<exists>tr s. brun table_query run (new_backend w0) tr s \<and> asked tr = [[topic]] \<and> added tr = [task]
    \<and> b_worker s = W_Dead TypeError [task] \<and> b_asker s = Some Q_Wait
    \<and> (\<nexists>tr' s'. brun table_query run s tr' s' \<and> \<not> (answered tr' = [] \<and> b_asker s' = Some Q_Wait))"
proof -
  let ?ms = "[MStart, MWorker, MWorker, MAsk [topic], MWorker, MWorker, MWorker, MAwait, MWorker, MWorker, MWorker,
    MAdd [task], MWorker, MWorker]"
  have len: "length (raw_bytes ''test response'') = 13" by (simp add: raw_bytes_def)
  have ne: "raw_bytes ''test response'' \<noteq> []" using len by force
  obtain tr s where d: "do_moves table_query run ?ms (new_backend w0) = Some (tr, s)"
    and tr: "asked tr = [[topic]]" "added tr = [task]"
    and s: "b_worker s = W_Dead TypeError [task]" "b_asker s = Some Q_Wait" "b_main s = M_Running"
    using len ne by (simp add: do_moves_simps enter_backend_def new_backend_def ask_def await_response_def
        add_tasks_def worker_step_def table_query_def)
  have "abandoned s" using s by (simp add: abandoned_def)
  then show ?thesis
    using do_moves_brun [OF d] tr s abandoned_run [where s = s]
    by (intro exI [of _ tr] exI [of _ s]) (auto simp: abandoned_def)
qed

section \<open>Tables after a restart\<close>

text \<open>
  What is relied on of Django: saving a row whose primary key, the name, is taken replaces the
  row that has it, and migrations leave the rows alone.
\<close>

definition django_laws :: "('f, 'm, 'db) django \<Rightarrow> bool" where
  "django_laws dj \<longleftrightarrow>
     (\<forall>t db. fst (dj_save dj t db) = Inr ()
        \<and> set (dj_all dj (snd (dj_save dj t db))) = insert t {u \<in> set (dj_all dj db). meta_name u \<noteq> meta_name t}
        \<and> (distinct (map meta_name (dj_all dj db)) \<longrightarrow> distinct (map meta_name (dj_all dj (snd (dj_save dj t db)))))) \<and>
     (\<forall>c db. fst (dj_command dj c db) = Inr () \<and> dj_all dj (snd (dj_command dj c db)) = dj_all dj db)"

text \<open>Rows as \<open>create_table\<close> makes them, with different names, from which a model can be built.\<close>

definition rows_ok :: "('f, 'm, 'db) django \<Rightarrow> 'db \<Rightarrow> bool" where
  "rows_ok dj db \<longleftrightarrow> distinct (map meta_name (dj_all dj db)) \<and>
     (\<forall>u\<in>set (dj_all dj db). meta_name u = parse_model_name (meta_topic u) \<and> (\<exists>m. build dj u = Inr m))"

lemma load_loop:
  assumes "\<forall>u\<in>set rows. \<exists>m. build dj u = Inr m" and "distinct (map meta_topic rows)"
  shows "\<exists>models. foldR (\<lambda>models t. bindR (build dj t) (\<lambda>m. Inr (AList.update (meta_topic t) m models))) acc rows = Inr models
    \<and> (\<forall>u\<in>set rows. map_of models (meta_topic u) = Some (projr (build dj u)))
    \<and> (\<forall>s. s \<notin> meta_topic ` set rows \<longrightarrow> map_of models s = map_of acc s)"
  using assms
proof (induction rows arbitrary: acc)
  case (Cons u rows)
  then obtain m where m: "build dj u = Inr m" by auto
  from Cons.IH [of "AList.update (meta_topic u) m acc"] Cons.prems obtain models where
    "foldR (\<lambda>models t. bindR (build dj t) (\<lambda>m. Inr (AList.update (meta_topic t) m models)))
       (AList.update (meta_topic u) m acc) rows = Inr models"
    "\<forall>v\<in>set rows. map_of models (meta_topic v) = Some (projr (build dj v))"
    "\<forall>s. s \<notin> meta_topic ` set rows \<longrightarrow> map_of models s = map_of (AList.update (meta_topic u) m acc) s" by auto
  then show ?case using m Cons.prems(2) by (intro exI [of _ models]) (auto simp: update_conv')
qed simp

lemma load_models_exact:
  assumes "rows_ok dj db"
  shows "\<exists>w. load_models dj db = Inr w \<and> tw_db w = db
    \<and> (\<forall>u\<in>set (dj_all dj db). map_of (tw_models w) (meta_topic u) = Some (projr (build dj u)))
    \<and> (\<forall>s. s \<notin> meta_topic ` set (dj_all dj db) \<longrightarrow> map_of (tw_models w) s = None)"
proof -
  have "map meta_name (dj_all dj db) = map (parse_model_name \<circ> meta_topic) (dj_all dj db)"
    using assms by (simp add: rows_ok_def)
  then have "distinct (map meta_topic (dj_all dj db))"
    using assms by (metis rows_ok_def distinct_map map_map)
  from load_loop [OF _ this, of dj "[]"] assms show ?thesis
    by (auto simp: load_models_def rows_ok_def)
qed

lemma full_str_from_nodes:
  assumes "nodes \<noteq> []"
  shows "\<exists>t. topic_from_nodes nodes None = Some t \<and> full_str t = join_char TOPIC_SEP nodes"
  using topic_from_nodes_Some [OF assms, of None] by auto

text \<open>A table that can be built is created.\<close>

lemma create_table_saves:
  assumes "django_laws dj" and "build dj \<lparr>meta_name = parse_model_name s, meta_topic = s, meta_field_bytes = data\<rparr> = Inr m"
  shows "\<exists>db'. create_table dj s data db = (Inr m, db')
    \<and> set (dj_all dj db') = insert \<lparr>meta_name = parse_model_name s, meta_topic = s, meta_field_bytes = data\<rparr>
        {u \<in> set (dj_all dj db). meta_name u \<noteq> parse_model_name s}
    \<and> (distinct (map meta_name (dj_all dj db)) \<longrightarrow> distinct (map meta_name (dj_all dj db')))"
proof -
  let ?t = "\<lparr>meta_name = parse_model_name s, meta_topic = s, meta_field_bytes = data\<rparr>"
  obtain r1 db1 where 1: "dj_save dj ?t db = (r1, db1)" by fastforce
  obtain r2 db2 where 2: "dj_command dj ''makemigrations'' db1 = (r2, db2)" by fastforce
  obtain r3 db3 where 3: "dj_command dj ''migrate'' db2 = (r3, db3)" by fastforce
  have save: "fst (dj_save dj ?t db) = Inr ()"
    "set (dj_all dj (snd (dj_save dj ?t db))) = insert ?t {u \<in> set (dj_all dj db). meta_name u \<noteq> meta_name ?t}"
    "distinct (map meta_name (dj_all dj db)) \<longrightarrow> distinct (map meta_name (dj_all dj (snd (dj_save dj ?t db))))"
    and cmd: "\<And>c db. fst (dj_command dj c db) = Inr ()" "\<And>c db. dj_all dj (snd (dj_command dj c db)) = dj_all dj db"
    using assms(1) unfolding django_laws_def by blast+
  show ?thesis
    using save cmd(1) [of "''makemigrations''" db1] cmd(2) [of "''makemigrations''" db1]
      cmd(1) [of "''migrate''" db2] cmd(2) [of "''migrate''" db2] assms(2)
    by (simp add: create_table_def Let_def 1 2 3)
qed

lemma models_replaced:
  assumes rows: "set us' = insert row {u \<in> set us. meta_name u \<noteq> parse_model_name s}" and row: "meta_topic row = s"
    and new: "\<forall>u\<in>set us'. map_of ms' (meta_topic u) = Some (g u)" "\<forall>s. s \<notin> meta_topic ` set us' \<longrightarrow> map_of ms' s = None"
    and old: "\<forall>u\<in>set us. map_of ms (meta_topic u) = Some (g u)" "\<forall>s. s \<notin> meta_topic ` set us \<longrightarrow> map_of ms s = None"
    and name: "\<And>u. u \<in> set us \<Longrightarrow> meta_name u = parse_model_name (meta_topic u)"
  shows "map_of ms' s' = (if s' = s then Some (g row)
      else if parse_model_name s' = parse_model_name s then None else map_of ms s')"
proof (cases "s' \<in> meta_topic ` set us'")
  case True
  then obtain v where v: "v \<in> set us'" "s' = meta_topic v" by blast
  show ?thesis
  proof (cases "v = row")
    case True
    with new(1) v row show ?thesis by auto
  next
    case False
    then have "v \<in> set us" "meta_name v \<noteq> parse_model_name s" using v rows by auto
    with new(1) old(1) v name [of v] show ?thesis by auto
  qed
next
  case False
  have "s' \<noteq> s" using False rows row by force
  moreover have "map_of ms s' = None" if "parse_model_name s' \<noteq> parse_model_name s"
    using False rows old(2) name that by fastforce
  ultimately show ?thesis using new(2) False by auto
qed

text \<open>
  C33: What a created table is after a restart. Creating a table from a description that can be
  built succeeds, and leaves the models that the running worker knows as they are. The worker
  that is started next knows the table under its topic, and knows every table it knew before
  except those with the same name: the name joins the nodes by an underscore, so the row of
  \<open>a/b\<close> is replaced by that of \<open>a_b\<close>.
\<close>

theorem tables_after_restart:
  assumes "django_laws dj" and "rows_ok dj (tw_db w)" and "load_models dj (tw_db w) = Inr w0"
    and "node_list t = ''@&'' # nodes" and "nodes \<noteq> []" and s: "s = join_char TOPIC_SEP nodes"
    and m: "build dj \<lparr>meta_name = parse_model_name s, meta_topic = s, meta_field_bytes = payload\<rparr> = Inr m"
  shows "\<exists>w1 w2. handle_operation dj t payload w = (Inr True, w1) \<and> tw_models w1 = tw_models w
    \<and> load_models dj (tw_db w1) = Inr w2
    \<and> map_of (tw_models w2) = (\<lambda>s'. if s' = s then Some m
        else if parse_model_name s' = parse_model_name s then None else map_of (tw_models w0) s')"
proof -
  let ?row = "\<lparr>meta_name = parse_model_name s, meta_topic = s, meta_field_bytes = payload\<rparr>"
  obtain db' where c: "create_table dj s payload (tw_db w) = (Inr m, db')"
    and rows: "set (dj_all dj db') = insert ?row {u \<in> set (dj_all dj (tw_db w)). meta_name u \<noteq> parse_model_name s}"
    and dist: "distinct (map meta_name (dj_all dj (tw_db w))) \<longrightarrow> distinct (map meta_name (dj_all dj db'))"
    using create_table_saves [OF assms(1) m] by blast
  obtain u where u: "topic_from_nodes nodes None = Some u" "full_str u = s"
    using full_str_from_nodes [OF assms(5)] s by blast
  have h: "handle_operation dj t payload w = (Inr True, w\<lparr>tw_db := db'\<rparr>)"
    using assms(4) u c by (simp add: handle_operation_def run_operator_def operator_map_def)
  have ok': "rows_ok dj db'" using assms(2) m dist by (auto simp: rows_ok_def rows)
  obtain w2 where w2: "load_models dj db' = Inr w2"
    "\<forall>u\<in>set (dj_all dj db'). map_of (tw_models w2) (meta_topic u) = Some (projr (build dj u))"
    "\<forall>s. s \<notin> meta_topic ` set (dj_all dj db') \<longrightarrow> map_of (tw_models w2) s = None"
    using load_models_exact [OF ok'] by blast
  have w0: "\<forall>u\<in>set (dj_all dj (tw_db w)). map_of (tw_models w0) (meta_topic u) = Some (projr (build dj u))"
    "\<forall>s. s \<notin> meta_topic ` set (dj_all dj (tw_db w)) \<longrightarrow> map_of (tw_models w0) s = None"
    using load_models_exact [OF assms(2)] assms(3) by auto
  have name: "meta_name u = parse_model_name (meta_topic u)" if "u \<in> set (dj_all dj (tw_db w))" for u
    using assms(2) that by (simp add: rows_ok_def)
  have "map_of (tw_models w2) s' = (if s' = s then Some m
      else if parse_model_name s' = parse_model_name s then None else map_of (tw_models w0) s')" for s'
    using models_replaced [OF rows _ w2(2,3) w0 name, of s'] m by simp
  with h w2(1) show ?thesis by (intro exI [of _ "w\<lparr>tw_db := db'\<rparr>"] exI [of _ w2]) auto
qed

text \<open>A database that is the list of its rows.\<close>

definition list_django :: "(field_class, string \<times> (string \<times> field_class) list, table_meta list) django" where
  "list_django =
     \<lparr>dj_loads = (\<lambda>s. if s = ''{}'' then Inr (PyDict []) else Inl JSONDecodeError),
      dj_field = (\<lambda>c attrs. Inr c), dj_class = (\<lambda>n fs. Inr (n, fs)),
      dj_save = (\<lambda>t db. (Inr (), filter (\<lambda>u. meta_name u \<noteq> meta_name t) db @ [t])),
      dj_all = (\<lambda>db. db),
      dj_command = (\<lambda>c db. (Inr (), db)), dj_drop = (\<lambda>m db. (Inl AttributeError, db))\<rparr>"

lemma list_django_laws: "django_laws list_django"
  by (auto simp: django_laws_def list_django_def distinct_map_filter)

text \<open>Creating \<open>a_b\<close> where there is a table \<open>a/b\<close>.\<close>

lemma tables_after_restart_witness:
  "\<exists>w1 w2. handle_operation list_django (Topic ''a_b'' (Some (Topic ''@&'' None None None)) None None) [123, 125]
      \<lparr>tw_models = [], tw_db = [\<lparr>meta_name = ''a_b'', meta_topic = ''a/b'', meta_field_bytes = [123, 125]\<rparr>]\<rparr> = (Inr True, w1)
    \<and> load_models list_django (tw_db w1) = Inr w2
    \<and> map_of (tw_models w2) ''a_b'' = Some (''a_b'', []) \<and> map_of (tw_models w2) ''a/b'' = None"
proof -
  let ?row = "\<lparr>meta_name = ''a_b'', meta_topic = ''a/b'', meta_field_bytes = [123, 125]\<rparr>"
  let ?new = "\<lparr>meta_name = parse_model_name ''a_b'', meta_topic = ''a_b'', meta_field_bytes = [123, 125]\<rparr>"
  let ?w = "\<lparr>tw_models = [], tw_db = [?row]\<rparr>"
  have dec: "py_decode [123, 125] = Inr ''{}''" by code_simp
  have b: "build list_django ?row = Inr (''a_b'', [])" "build list_django ?new = Inr (''a_b'', [])"
    by (simp_all add: build_def dec list_django_def create_model_class_def parse_fields_def parse_model_name_def)
  have ok: "rows_ok list_django (tw_db ?w)"
    using b by (simp add: rows_ok_def list_django_def parse_model_name_def)
  have l: "load_models list_django (tw_db ?w) = Inr \<lparr>tw_models = [(''a/b'', (''a_b'', []))], tw_db = [?row]\<rparr>"
    using b(1) by (simp add: load_models_def) (simp add: list_django_def)
  have n: "node_list (Topic ''a_b'' (Some (Topic ''@&'' None None None)) None None) = ''@&'' # [''a_b'']"
    by (simp add: node_list_def)
  have j: "''a_b'' = join_char TOPIC_SEP [''a_b'']" by simp
  from tables_after_restart [OF list_django_laws ok l n _ j b(2)] show ?thesis
    by (auto simp: parse_model_name_def)
qed

end
