(* ===== verification/Logging.thy ===== *)
theory Logging
  imports Json
begin

text \<open>
  logger.py and utils/stdout_log.py: what the broker writes to its standard output. The text of
  an object is a result, since \<open>str\<close> of it can raise. One call holds the lock of the module, so
  its output is in one piece.
\<close>

section \<open>Formats\<close>

definition CONTROL_SEQUENCE :: string where "CONTROL_SEQUENCE = [CHR 0x1B, CHR ''['']"
definition DELIMITER :: string where "DELIMITER = ''m''"
definition RESET :: string where "RESET = CONTROL_SEQUENCE @ ''0'' @ DELIMITER"

text \<open>The selectors and effects are one digit each.\<close>

definition FOREGROUND_SELECTOR :: nat where "FOREGROUND_SELECTOR = 3"

record fmt =
  fm_selector :: nat
  fm_effect :: nat
  fm_slug :: string

definition digit :: "nat \<Rightarrow> char" where
  "digit n = char_of (48 + n)"

definition new_format :: "nat \<Rightarrow> nat \<Rightarrow> fmt" where
  "new_format selector effect =
     \<lparr>fm_selector = selector, fm_effect = effect,
      fm_slug = CONTROL_SEQUENCE @ [digit selector] @ [digit effect] @ DELIMITER\<rparr>"

definition FOREGROUND_RED :: fmt where "FOREGROUND_RED = new_format FOREGROUND_SELECTOR 1"
definition FOREGROUND_GREEN :: fmt where "FOREGROUND_GREEN = new_format FOREGROUND_SELECTOR 2"
definition FOREGROUND_YELLOW :: fmt where "FOREGROUND_YELLOW = new_format FOREGROUND_SELECTOR 3"
definition FOREGROUND_MAGENTA :: fmt where "FOREGROUND_MAGENTA = new_format FOREGROUND_SELECTOR 5"

section \<open>Printing\<close>

text \<open>An argument: \<open>None\<close>, a text, or another object with the result of \<open>str\<close>.\<close>

datatype log_arg = LNone | LText string | LObject "py_error + string"

fun str_of :: "log_arg \<Rightarrow> py_error + string" where
  "str_of LNone = Inr ''None''"
| "str_of (LText s) = Inr s"
| "str_of (LObject r) = r"

type_synonym log_kwargs = "(string \<times> log_arg) list"

text \<open>The two loops, on what has been written; an exception leaves what was written before it.\<close>

fun write_args :: "bool \<Rightarrow> log_arg list \<Rightarrow> string \<Rightarrow> (py_error + unit) \<times> string" where
  "write_args first [] out = (Inr (), out)"
| "write_args first (arg # args) out =
     (let out1 = (if first then out else out @ '' '')
      in case str_of arg of
           Inl e \<Rightarrow> (Inl e, out1)
         | Inr s \<Rightarrow> write_args False args (out1 @ s))"

fun write_kwargs :: "bool \<Rightarrow> log_kwargs \<Rightarrow> string \<Rightarrow> (py_error + unit) \<times> string" where
  "write_kwargs first [] out = (Inr (), out)"
| "write_kwargs first ((key, arg) # kwargs) out =
     (let out1 = (if first then out else out @ '' '') @ key @ ''=''
      in case str_of arg of
           Inl e \<Rightarrow> (Inl e, out1)
         | Inr s \<Rightarrow> write_kwargs False kwargs (out1 @ s))"

fun write_end :: "log_arg \<Rightarrow> string \<Rightarrow> (py_error + unit) \<times> string" where
  "write_end LNone out = (Inr (), out)"
| "write_end (LText s) out = (Inr (), out @ s)"
| "write_end (LObject r) out = (Inl TypeError, out)"

definition printf :: "fmt \<Rightarrow> log_arg list \<Rightarrow> log_arg \<Rightarrow> log_kwargs \<Rightarrow> string \<Rightarrow> (py_error + unit) \<times> string" where
  "printf fm args end_arg kwargs out =
     (case write_args True args (out @ fm_slug fm) of
        (Inl e, out1) \<Rightarrow> (Inl e, out1)
      | (Inr _, out1) \<Rightarrow>
          (case write_kwargs True kwargs out1 of
             (Inl e, out2) \<Rightarrow> (Inl e, out2)
           | (Inr _, out2) \<Rightarrow> write_end end_arg (out2 @ RESET)))"

text \<open>
  A call with keyword arguments: \<open>end\<close> is taken out of them, \<open>fmt\<close> would be given twice.
\<close>

definition call_printf :: "fmt \<Rightarrow> log_arg list \<Rightarrow> log_kwargs \<Rightarrow> string \<Rightarrow> (py_error + unit) \<times> string" where
  "call_printf fm args kwargs out =
     (if ''fmt'' \<in> set (dkeys kwargs) then (Inl TypeError, out)
      else printf fm args (case map_of kwargs ''end'' of None \<Rightarrow> LText [CHR 0x0A] | Some v \<Rightarrow> v)
             (AList.delete ''end'' kwargs) out)"

section \<open>The logger\<close>

datatype level = Info | Debug | Warn | Error

fun log_format :: "level \<Rightarrow> fmt" where
  "log_format Info = FOREGROUND_GREEN"
| "log_format Debug = FOREGROUND_MAGENTA"
| "log_format Warn = FOREGROUND_YELLOW"
| "log_format Error = FOREGROUND_RED"

fun log_prefix :: "level \<Rightarrow> log_arg list" where
  "log_prefix Info = []"
| "log_prefix Debug = [LText ''[DEBUG]'']"
| "log_prefix Warn = [LText ''[WARN]'']"
| "log_prefix Error = [LText ''[ERROR]'']"

record logger =
  lg_contexts :: "log_kwargs list"
  lg_out :: string

definition new_logger :: logger where
  "new_logger = \<lparr>lg_contexts = [[]], lg_out = []\<rparr>"

definition emit :: "level \<Rightarrow> log_arg list \<Rightarrow> log_kwargs \<Rightarrow> logger \<Rightarrow> (py_error + unit) \<times> logger" where
  "emit lv args kwargs lg =
     (let (r, out) = call_printf (log_format lv) (log_prefix lv @ args) kwargs (lg_out lg)
      in (r, lg\<lparr>lg_out := out\<rparr>))"

text \<open>
  \<open>info\<close>, \<open>debug\<close>, \<open>warn\<close> and \<open>error\<close>: the innermost context and the arguments of the call are
  both unpacked, so no name may be in both. \<open>traceback\<close> leaves the context out.
\<close>

definition log_call :: "level \<Rightarrow> log_arg list \<Rightarrow> log_kwargs \<Rightarrow> logger \<Rightarrow> (py_error + unit) \<times> logger" where
  "log_call lv args kwargs lg =
     (if lg_contexts lg = [] then (Inl IndexError, lg)
      else
        (let ctx = last (lg_contexts lg)
         in if list_ex (\<lambda>k. k \<in> set (dkeys ctx)) (dkeys kwargs) then (Inl TypeError, lg)
            else emit lv args (ctx @ kwargs) lg))"

definition log_traceback :: "string \<Rightarrow> log_arg list \<Rightarrow> log_kwargs \<Rightarrow> logger \<Rightarrow> (py_error + unit) \<times> logger" where
  "log_traceback message args kwargs = emit Error (LText message # args) kwargs"

text \<open>\<open>with log.context(...)\<close>: entering and leaving.\<close>

definition enter_context :: "log_kwargs \<Rightarrow> logger \<Rightarrow> (py_error + unit) \<times> logger" where
  "enter_context ctx lg =
     (if lg_contexts lg = [] then (Inl IndexError, lg)
      else (Inr (), lg\<lparr>lg_contexts := lg_contexts lg @
        [foldl (\<lambda>d (k, v). AList.update k v d) (last (lg_contexts lg)) ctx]\<rparr>))"

definition leave_context :: "logger \<Rightarrow> (py_error + unit) \<times> logger" where
  "leave_context lg =
     (if lg_contexts lg = [] then (Inl IndexError, lg)
      else (Inr (), lg\<lparr>lg_contexts := butlast (lg_contexts lg)\<rparr>))"

section \<open>What is written\<close>

definition texts :: "log_arg list \<Rightarrow> py_error + string list" where
  "texts = mapR str_of"

lemma write_args_text:
  "write_args first args out =
     (case texts args of
        Inr ss \<Rightarrow> (Inr (), out @ (if first \<or> ss = [] then [] else '' '') @ join_str '' '' ss)
      | Inl e \<Rightarrow> (Inl e, snd (write_args first args out)))"
proof (induction first args out rule: write_args.induct)
  case (2 first arg args out)
  show ?case
  proof (cases "str_of arg")
    case (Inr s)
    note IH = "2.IH" [OF refl Inr]
    show ?thesis
    proof (cases "texts args")
      case (Inr ss)
      then show ?thesis using IH \<open>str_of arg = Inr s\<close> by (cases ss) (simp_all add: texts_def Let_def)
    qed (use IH \<open>str_of arg = Inr s\<close> in \<open>simp add: texts_def Let_def\<close>)
  qed (simp add: texts_def)
qed (simp add: texts_def)

fun item_text :: "string \<times> log_arg \<Rightarrow> py_error + string" where
  "item_text (key, arg) = bindR (str_of arg) (\<lambda>s. Inr (key @ ''='' @ s))"

lemma write_kwargs_text:
  "write_kwargs first kwargs out =
     (case mapR item_text kwargs of
        Inr ss \<Rightarrow> (Inr (), out @ (if first \<or> ss = [] then [] else '' '') @ join_str '' '' ss)
      | Inl e \<Rightarrow> (Inl e, snd (write_kwargs first kwargs out)))"
proof (induction first kwargs out rule: write_kwargs.induct)
  case (2 first key arg kwargs out)
  show ?case
  proof (cases "str_of arg")
    case (Inr s)
    note IH = "2.IH" [OF refl Inr]
    show ?thesis
    proof (cases "mapR item_text kwargs")
      case (Inr ss)
      then show ?thesis using IH \<open>str_of arg = Inr s\<close> by (cases ss) (simp_all add: Let_def)
    qed (use IH \<open>str_of arg = Inr s\<close> in \<open>simp add: Let_def\<close>)
  qed simp
qed simp

text \<open>
  A line: the colour, the prefix of the level and the arguments with spaces between them, the
  context and the keyword arguments as \<open>key=value\<close> with spaces between them, the reset and the
  end. There is no space between the last argument and the first key.
\<close>

theorem log_line:
  assumes "lg_contexts lg = cs @ [ctx]" and "list_all (\<lambda>k. k \<notin> set (dkeys ctx)) (dkeys kwargs)"
    and "\<not> list_ex (\<lambda>k. k = ''fmt'' \<or> k = ''end'') (dkeys (ctx @ kwargs))"
    and "texts (log_prefix lv @ args) = Inr ss" and "mapR item_text (ctx @ kwargs) = Inr items"
  shows "log_call lv args kwargs lg =
    (Inr (), lg\<lparr>lg_out := lg_out lg @ fm_slug (log_format lv) @ join_str '' '' ss @ join_str '' '' items
       @ RESET @ [CHR 0x0A]\<rparr>)"
proof -
  have ctx: "last (lg_contexts lg) = ctx" "lg_contexts lg \<noteq> []" using assms(1) by simp_all
  have clash: "\<not> list_ex (\<lambda>k. k \<in> set (dkeys ctx)) (dkeys kwargs)"
    using assms(2) by (simp add: list_all_iff list_ex_iff)
  have names: "''fmt'' \<notin> set (dkeys (ctx @ kwargs))" "''end'' \<notin> set (dkeys (ctx @ kwargs))"
    using assms(3) by (auto simp: list_ex_iff)
  then have "map_of (ctx @ kwargs) ''end'' = None" "AList.delete ''end'' (ctx @ kwargs) = ctx @ kwargs"
    by (simp_all add: map_of_eq_None_iff AList.delete_id image_Un del: map_of_append)
  then have "call_printf (log_format lv) (log_prefix lv @ args) (ctx @ kwargs) (lg_out lg) =
      (Inr (), lg_out lg @ fm_slug (log_format lv) @ join_str '' '' ss @ join_str '' '' items @ RESET @ [CHR 0x0A])"
    using names(1) assms(4,5)
    by (simp add: call_printf_def printf_def write_args_text write_kwargs_text del: map_of_append)
  with ctx clash show ?thesis by (simp add: log_call_def emit_def Let_def)
qed

text \<open>
  When the text of an argument can not be made, the line ends there: the exception reaches the
  caller, and the terminal keeps the colour.
\<close>

theorem unfinished_line:
  assumes "lg_contexts lg = cs @ [ctx]" and "''fmt'' \<notin> set (dkeys ctx)"
    and "texts (log_prefix lv @ args) = Inr ss"
  shows "log_call lv (args @ LObject (Inl e) # args') [] lg =
    (Inl e, lg\<lparr>lg_out := lg_out lg @ fm_slug (log_format lv) @ join_str '' '' ss @ (if ss = [] then [] else '' '')\<rparr>)"
proof -
  have stop: "write_args first (as @ LObject (Inl e) # args') out =
      (Inl e, out @ (if first \<or> ss' = [] then [] else '' '') @ join_str '' '' ss'
        @ (if first \<and> ss' = [] then [] else '' ''))"
    if "texts as = Inr ss'" for first as out ss'
    using that
  proof (induction first as out arbitrary: ss' rule: write_args.induct)
    case (2 first arg as out)
    then obtain t ts where t: "str_of arg = Inr t" "texts as = Inr ts" "ss' = t # ts"
      by (auto simp: texts_def res_simps)
    with "2.IH" [OF refl t(1) t(2)] show ?case by (cases ts) (simp_all add: Let_def)
  qed (simp add: texts_def)
  have "log_call lv (args @ LObject (Inl e) # args') [] lg = emit lv (args @ LObject (Inl e) # args') ctx lg"
    using assms(1) by (simp add: log_call_def)
  then show ?thesis
    using stop [OF assms(3), of True "lg_out lg @ fm_slug (log_format lv)"] assms(2)
    by (simp add: emit_def call_printf_def printf_def)
qed

text \<open>
  Contexts nest: inside, a name means what the innermost context says; after a body that leaves
  the stack as it was, the old context is back. The stack is shared by all threads, though: when
  another thread enters a context in between, the first one to leave takes the other's away.
\<close>

theorem context_nests:
  assumes "lg_contexts lg = cs @ [ctx]" and "enter_context new lg = (r, lg1)"
  shows "r = Inr () \<and> lg_contexts lg1 = lg_contexts lg @ [last (lg_contexts lg1)]
    \<and> map_of (last (lg_contexts lg1)) = map_of ctx ++ map_of (rev new)
    \<and> (lg_contexts lg2 = lg_contexts lg1 \<longrightarrow> lg_contexts (snd (leave_context lg2)) = lg_contexts lg)"
proof -
  have up: "map_of (foldl (\<lambda>d (k, v). AList.update k v d) c xs) = map_of c ++ map_of (rev xs)" for c and xs :: log_kwargs
    by (induction xs arbitrary: c) (auto simp: map_add_def fun_eq_iff split: option.split)
  have "lg_contexts lg \<noteq> []" using assms(1) by simp
  then have 1: "r = Inr ()" "lg1 = lg\<lparr>lg_contexts := lg_contexts lg @
      [foldl (\<lambda>d (k, v). AList.update k v d) (last (lg_contexts lg)) new]\<rparr>"
    using assms(2) by (simp_all add: enter_context_def)
  then show ?thesis using up [of ctx new] assms(1)
    by (simp add: leave_context_def butlast_append)
qed

end
