(* ===== verification/Spec2Isabelle.thy ===== *)
theory Spec2Isabelle
  imports App Ordering Mirror Websocket_Session Packet_Typing Publications Sending Frame_Layout Secure
    Tables Logging
begin

text \<open>
  Verification of an MQTT broker whose retained messages form a tree. This theory holds no
  definitions: it gathers the library and describes it. File names below are relative to src/.

  \<^bold>\<open>The program.\<close> A client connects over TCP (servers/socket.py) or over a WebSocket
  (servers/websocket). Its connection (servers/handler.py) has a thread that reads packets,
  one that sends the messages of its queue, and one for every request. The broker
  (broker/broker.py) holds the clients, the tree of subscriptions and the queue of the rows to
  be broadcast, which the main loop turns into messages, all subscriptions of a client that
  match with wildcards getting one JSON tree. The tree manager (tree/manager.py) holds the
  retained messages as a tree and hands each change to a worker process that writes it to the
  database (backends); the table manager (tables) has such a worker too.

  \<^bold>\<open>Conventions.\<close> A Python expression that may raise is a value of a sum type (\<open>Inl\<close> the
  exception). Objects that travel through trees are the datatype \<open>pyobj\<close> of \<open>Py_Values\<close>,
  with their items in insertion order; a text is its UTF-8 form. A reference into a nested
  dictionary is a continuation that is given the object and answers the changed one. Sets that
  the code iterates over are lists; the step relation of \<open>World\<close> may reorder them at any time.
  What is not under src/ is an argument: \<open>loads\<close> is the JSON parser, \<open>table_query\<close> in \<open>Broker\<close>
  the answer of the table worker, \<open>db_delete\<close>, \<open>db_upsert\<close> and \<open>db_lookup\<close> the database with the
  law \<open>store_laws\<close>, or \<open>seq_laws\<close> where an upsert may name a topic twice, and \<open>dj\<close> of \<open>Tables\<close> what the code calls of Django with \<open>django_laws\<close>.
  In \<open>Streams\<close>, \<open>Packets\<close>, \<open>Session\<close> and \<open>World\<close> a connection is the list of the bytes its peer sends,
  and reading \<open>n\<close> bytes takes exactly \<open>n\<close>. \<open>SocketHandler.read\<close> does so only for fields that come in one
  piece; what it does otherwise is the subject of \<open>Sockets\<close> and \<open>Connections\<close>. Where a function of the
  model is defined for arguments the program never passes, it answers \<open>OutsideModel\<close> there.

  \<^bold>\<open>Theories.\<close>
  \<^item> \<open>Prelude\<close>, \<open>Py_Values\<close>: results, loops, dictionaries, splitting; values and exceptions.
  \<^item> \<open>Topics\<close> (models/topic.py, models/constants.py), \<open>Recursive_Dict\<close>
    (utils/recursive_default_dict.py): the two data structures. Storing is exact, deleting a
    path removes its leaf and the branches that become empty.
  \<^item> \<open>Filter_Tree\<close>, \<open>Get_Rows\<close>, \<open>Create_Messages\<close>, \<open>Flatten\<close>, \<open>Json\<close> (protocols): the walks over
    trees, each against a direct description by paths; the single pass over the subscription
    tree equals looking at each subscription alone; a JSON tree comes back as the same tree.
  \<^item> \<open>Messages\<close> (models/messages.py), \<open>Tree_Manager\<close> (tree/manager.py): what a retained publish
    does to the tree, what a subscription gets at once, loading, and the agreement of tree and
    database for one batch.
  \<^item> \<open>Broker\<close> (broker/broker.py, broker/context.py, models/client.py): publish, subscribe,
    unsubscribe, delivery. The subscription tree implements a map from paths and clients to
    qualities (the locale \<open>registry\<close>). \<open>Mirror\<close>: while the calls of the broker run one after
    another and none disturbs the subscription, what a subscriber hears last is what is retained; \<open>publish\<close> and \<open>subscribe\<close> cut in
    two where another thread can run, and what goes wrong then.
  \<^item> \<open>Streams\<close> (servers/streams.py), \<open>Packet_Types\<close> (packet/types), \<open>Packets\<close> (packet):
    reading and writing packets; the locale \<open>codec\<close> states what a field type promises and is
    interpreted on the types the lists hold. \<open>Packet_Typing\<close>: what is read is well-typed.
  \<^item> \<open>Session\<close> (servers/handler.py): the operations of a connection, a thread that waits being a
    value. \<open>World\<close>: all connections and the broker, every interleaving as the relation \<open>step\<close>; a
    step runs one thread from one wait to the next. \<open>World_Safe\<close>: the invariant of the reachable
    states. \<open>Session_Properties\<close>: registrations, the lifetime of a connection, the exchange of
    acknowledgements. \<open>Delivery\<close>: the draining of a queue under a client that answers, and the
    way of a message from the bytes of its publisher to those of its subscribers. \<open>Ordering\<close>: the
    messages of a queue leave in order in every run, a message that can not be written silences
    its client, and the requests of one connection are carried out in any order. \<open>Servers\<close>
    (the class \<open>SocketServer\<close>): accepting, and what stopping does to the sessions.
    \<open>Server_Loop\<close> (servers/server.py, servers/socket.py, utils/stop_socket.py): the thread that
    accepts and the one that stops it, step by step; a server that has started can be stopped, and
    what goes wrong before. \<open>Secure\<close> (servers/ssl.py): what the TLS server adds. \<open>App\<close> (app.py,
    the fields of \<open>Broker\<close>): the command line and where the servers are bound.
  \<^item> \<open>Sockets\<close> (servers/socket.py, utils/recv_until.py), \<open>Websocket\<close>
    (servers/websocket/frame.py, handler.py), \<open>Handshake\<close> (the upgrade request, with SHA-1 and
    base64 written out): bytes from segments, packets in frames. What the peer sends is a list
    of segments, and \<open>recv\<close> answers at most the first one. \<open>Connections\<close>: the readers of
    \<open>Streams\<close> and \<open>Packets\<close> once more, over any connection with a method \<open>read\<close>; the locale
    \<open>byte_source\<close> says what \<open>read\<close> must do for the two to agree, and is interpreted on the
    list of bytes, on a socket and on a WebSocket. \<open>Websocket_Session\<close>: from the upgrade request
    to the packets. \<open>Sending\<close>: several threads that write to one connection under its lock, as the
    relation \<open>wire_step\<close>, and what the client reads; over TCP, what a call of \<open>send\<close> leaves out.
    \<open>Frame_Layout\<close> (servers/websocket/constants.py): the table of the fields of a frame, to which
    the code is compared.
  \<^item> \<open>Backend\<close> (backends/manager.py, backends/worker.py): the protocol between the main process
    and a worker, as the relation \<open>bstep\<close>; schedules compute runs for the witnesses.
    \<open>Persistence\<close>: the tree manager with its worker, while it runs and when it is stopped.
    \<open>Restart\<close>: topics published repeatedly, what the worker makes of them, and the tree the next
    broker loads. \<open>Publishers\<close> (\<open>process_message\<close> and \<open>retain_rows\<close> of tree/manager.py): the threads
    that publish, whose rows go to the worker under a lock and into the tree without one, as the
    relation \<open>pstep\<close>; database and tree agree at the topics whose publishers keep apart, and may not
    at others. \<open>Publications\<close>: from the messages to the answers of the next broker, with the names of
    nodes followed through the tree.
    \<open>Tables\<close> (tables/models.py, tables/manager.py).
  \<^item> \<open>Logging\<close> (logger.py, utils/stdout_log.py): the text that is printed for an entry, in color.

  \<^bold>\<open>Termination and bounds.\<close> Every loop is a total function but that of \<open>recv_until\<close>, which
  does not end when the peer closes too early; it is a partial function, and the property says
  when it ends. A list of a packet stops with an error when an element counts no bytes, which no
  element type of the repository does. A query to an idle worker takes at most eight steps, the
  stop of a server at most nine and one for each client.
  Packet ids, lengths and flags are kept in the ranges the code writes them in.

  \<^bold>\<open>Not modelled.\<close> The configuration of Django, its migrations and admin pages (db, admin.py,
  tree/admin.py), which are data; the printed forms of packets, which are output only; the
  operating system (whether an address can be bound is the argument \<open>can_bind\<close> of \<open>App\<close>, what
  accept answers an input of \<open>Servers\<close>, what its calls do to a listening socket is written out in
  \<open>Server_Loop\<close>), and the TLS library. A step of \<open>World\<close> runs a thread from one wait to the next;
  of the interleavings within a step those of \<open>Mirror\<close> and \<open>Publishers\<close> are modelled, and \<open>Sending\<close>
  shows that a write counts as one. In \<open>Broker\<close>, \<open>World\<close> and the first part of \<open>Mirror\<close> a retained
  publish hands its rows over and stores them in one step, which is what a thread that is not
  interrupted does (\<open>Publishers.publisher_alone\<close>); two threads inside the dictionary operations of
  one row, or one that makes rows of a tree while another stores into it, are not modelled. What
  \<open>shutdown\<close> answers for a connection is an argument of \<open>close_socket\<close> in \<open>Session\<close>, and the sessions
  take the answers that are not raised again. packet/types/static_bytes.py is used by no packet. A WebSocket is taken to
  send all of what one call of \<open>send\<close> is given, and memory is not bounded.
\<close>

end
